(* ===== verification/C_Base.thy ===== *)
theory C_Base
  imports Main "HOL-Library.Word"
begin

unbundle bit_operations_syntax

text \<open>
  The prelude of the development: how C is read.

  \<^item> A run of C code either returns or stops at the first fault: the result type
    \<open>'a res\<close> is \<open>c_error + 'a\<close>, with \<open>bind_res\<close> for sequencing and \<open>check\<close> for a
    condition under which the code has defined behaviour (or an \<^verbatim>\<open>assert\<close>).
  \<^item> A pointer is an \<open>addr option\<close>, \<open>None\<close> being the null pointer.  Structures of one
    type live in a map from addresses to records; \<open>deref\<close> and \<open>assign\<close> read and write one
    and fault on the null pointer and on an address that is not allocated.
  \<^item> A C \<^verbatim>\<open>int\<close> is an \<open>int\<close> in its range: signed arithmetic goes through \<open>c_int\<close>, which
    faults on overflow.  Unsigned types are words, which wrap around.
  \<^item> \<open>lseg\<close> and \<open>dseg\<close> describe singly and doubly linked segments of a map.
\<close>

section \<open>Faults and sequencing\<close>

datatype c_error =
    NullDeref        \<comment> \<open>the null pointer is dereferenced\<close>
  | DanglingPtr      \<comment> \<open>the address is not allocated (never was, or was freed)\<close>
  | OutOfBounds      \<comment> \<open>an array or buffer access outside the object\<close>
  | AssertFail       \<comment> \<open>a failed \<^verbatim>\<open>assert\<close>\<close>
  | SignedOverflow   \<comment> \<open>signed arithmetic leaves the type's range\<close>
  | DivByZero
  | MissingReturn    \<comment> \<open>a value function ends in a \<^verbatim>\<open>return\<close> without a value\<close>
  | OutOfMemory      \<comment> \<open>an allocator that aborts instead of returning NULL\<close>
  | Uninitialised    \<comment> \<open>an object is read before anything was stored in it\<close>
  | Thrown           \<comment> \<open>a C++ exception or a Lua error that nobody catches\<close>
  | Diverges         \<comment> \<open>a loop that does not end (its fuel is spent)\<close>

type_synonym 'a res = "c_error + 'a"

type_synonym addr = nat

type_synonym ptr = "addr option"

abbreviation NULL :: ptr where
  "NULL \<equiv> None"

named_theorems c_simps \<open>symbolic execution of the C operations\<close>

definition bind_res :: "'a res \<Rightarrow> ('a \<Rightarrow> 'b res) \<Rightarrow> 'b res" where
  "bind_res m f = (case m of Inl e \<Rightarrow> Inl e | Inr x \<Rightarrow> f x)"

definition check :: "bool \<Rightarrow> c_error \<Rightarrow> 'a res \<Rightarrow> 'a res" where
  "check b e k = (if b then k else Inl e)"

lemma bind_res_simps [simp]:
  "bind_res (Inl e) f = Inl e"
  "bind_res (Inr x) f = f x"
  by (simp_all add: bind_res_def)

lemma bind_res_Inr_iff: "bind_res m f = Inr y \<longleftrightarrow> (\<exists>x. m = Inr x \<and> f x = Inr y)"
  by (cases m) auto

lemma bind_res_InrE [elim!]:
  assumes "bind_res m f = Inr y"
  obtains x where "m = Inr x" and "f x = Inr y"
  using assms by (auto simp: bind_res_Inr_iff)

lemma bind_res_assoc: "bind_res (bind_res m f) g = bind_res m (\<lambda>x. bind_res (f x) g)"
  by (cases m) auto

lemma bind_res_cong [fundef_cong]:
  "m = m' \<Longrightarrow> (\<And>x. m' = Inr x \<Longrightarrow> f x = f' x) \<Longrightarrow> bind_res m f = bind_res m' f'"
  by (cases m') auto

lemma check_simps [simp]:
  "check True e k = k"
  "check False e k = Inl e"
  by (simp_all add: check_def)

lemma check_Inr_iff: "check b e k = Inr y \<longleftrightarrow> b \<and> k = Inr y"
  by (simp add: check_def)

lemma check_cong [fundef_cong]:
  "b = b' \<Longrightarrow> (b' \<Longrightarrow> k = k') \<Longrightarrow> check b e k = check b' e k'"
  by (simp add: check_def)

primrec fold_res :: "('s \<Rightarrow> 'x \<Rightarrow> 's res) \<Rightarrow> 's \<Rightarrow> 'x list \<Rightarrow> 's res" where
  \<comment> \<open>a step for each item of a list, stopping at the first fault\<close>
  "fold_res f s [] = Inr s"
| "fold_res f s (x # xs) = bind_res (f s x) (\<lambda>s'. fold_res f s' xs)"

lemma fold_res_append: "fold_res f s (xs @ ys) = bind_res (fold_res f s xs) (\<lambda>s. fold_res f s ys)"
  by (induction xs arbitrary: s) (simp_all add: bind_res_assoc)

section \<open>Typed memory\<close>

definition deref :: "(addr \<rightharpoonup> 'n) \<Rightarrow> ptr \<Rightarrow> 'n res" where
  "deref m p = (case p of None \<Rightarrow> Inl NullDeref
     | Some a \<Rightarrow> (case m a of None \<Rightarrow> Inl DanglingPtr | Some n \<Rightarrow> Inr n))"

definition assign :: "(addr \<rightharpoonup> 'n) \<Rightarrow> ptr \<Rightarrow> ('n \<Rightarrow> 'n) \<Rightarrow> (addr \<rightharpoonup> 'n) res" where
  "assign m p f = (case p of None \<Rightarrow> Inl NullDeref
     | Some a \<Rightarrow> (case m a of None \<Rightarrow> Inl DanglingPtr | Some n \<Rightarrow> Inr (m(a \<mapsto> f n))))"

definition dealloc :: "(addr \<rightharpoonup> 'n) \<Rightarrow> ptr \<Rightarrow> (addr \<rightharpoonup> 'n) res" where
  \<comment> \<open>\<^verbatim>\<open>free\<close>: a null pointer is ignored, a dangling one is a fault (double free)\<close>
  "dealloc m p = (case p of None \<Rightarrow> Inr m
     | Some a \<Rightarrow> (case m a of None \<Rightarrow> Inl DanglingPtr | Some _ \<Rightarrow> Inr (m(a := None))))"

lemma deref_simps [simp]:
  "deref m None = Inl NullDeref"
  "m a = Some n \<Longrightarrow> deref m (Some a) = Inr n"
  "m a = None \<Longrightarrow> deref m (Some a) = Inl DanglingPtr"
  by (simp_all add: deref_def)

lemma assign_simps [simp]:
  "assign m None f = Inl NullDeref"
  "m a = Some n \<Longrightarrow> assign m (Some a) f = Inr (m(a \<mapsto> f n))"
  "m a = None \<Longrightarrow> assign m (Some a) f = Inl DanglingPtr"
  by (simp_all add: assign_def)

lemma dealloc_simps [simp]:
  "dealloc m None = Inr m"
  "m a = Some n \<Longrightarrow> dealloc m (Some a) = Inr (m(a := None))"
  "m a = None \<Longrightarrow> dealloc m (Some a) = Inl DanglingPtr"
  by (simp_all add: dealloc_def)

section \<open>Arrays\<close>

definition arr_get :: "'a list \<Rightarrow> int \<Rightarrow> 'a res" where
  "arr_get xs i = (if 0 \<le> i \<and> i < int (length xs) then Inr (xs ! nat i) else Inl OutOfBounds)"

definition arr_set :: "'a list \<Rightarrow> int \<Rightarrow> 'a \<Rightarrow> 'a list res" where
  "arr_set xs i v =
     (if 0 \<le> i \<and> i < int (length xs) then Inr (xs[nat i := v]) else Inl OutOfBounds)"

definition arr_map :: "'a list \<Rightarrow> addr \<Rightarrow> 'a option" where
  \<comment> \<open>an array as a memory: a pointer into it is the index of the element\<close>
  "arr_map xs i = (if i < length xs then Some (xs ! i) else None)"

lemma arr_get_ok [simp]: "0 \<le> i \<Longrightarrow> i < int (length xs) \<Longrightarrow> arr_get xs i = Inr (xs ! nat i)"
  by (simp add: arr_get_def)

lemma arr_get_int [simp]: "i < length xs \<Longrightarrow> arr_get xs (int i) = Inr (xs ! i)"
  by simp

lemma arr_set_ok [simp]:
  "0 \<le> i \<Longrightarrow> i < int (length xs) \<Longrightarrow> arr_set xs i v = Inr (xs[nat i := v])"
  by (simp add: arr_set_def)

lemma arr_map_ok [simp]: "i < length xs \<Longrightarrow> arr_map xs i = Some (xs ! i)"
  by (simp add: arr_map_def)

lemma arr_map_Some_iff: "arr_map xs i = Some x \<longleftrightarrow> i < length xs \<and> x = xs ! i"
  by (auto simp: arr_map_def)

lemma arr_map_update: "i < length xs \<Longrightarrow> arr_map (xs[i := v]) = (arr_map xs)(i \<mapsto> v)"
  by (auto simp: arr_map_def fun_eq_iff)

lemma nth_update_cases: "j < length xs \<Longrightarrow> xs[i := x] ! j = (if i = j then x else xs ! j)"
  by (cases "i = j") simp_all

lemma find_SomeD: "List.find P xs = Some x \<Longrightarrow> x \<in> set xs \<and> P x"
  by (auto simp: find_Some_iff)

lemma map_eqI: "(\<And>k v. f k = Some v \<longleftrightarrow> g k = Some v) \<Longrightarrow> f = g"
  by (rule ext) (metis not_Some_eq)

lemma notin_image_iff: "x \<notin> f ` A \<longleftrightarrow> (\<forall>y \<in> A. f y \<noteq> x)"
  by auto

section \<open>Signed integers\<close>

definition INT_MIN :: int where "INT_MIN = - (2 ^ 31)"

definition INT_MAX :: int where "INT_MAX = 2 ^ 31 - 1"

definition in_int :: "int \<Rightarrow> bool" where
  "in_int x \<longleftrightarrow> INT_MIN \<le> x \<and> x \<le> INT_MAX"

definition c_int :: "int \<Rightarrow> int res" where
  "c_int x = (if in_int x then Inr x else Inl SignedOverflow)"

definition c_rem :: "int \<Rightarrow> int \<Rightarrow> int res" where
  \<comment> \<open>the remainder of C: the sign of the dividend\<close>
  "c_rem a b = (if b = 0 then Inl DivByZero else Inr (sgn a * (\<bar>a\<bar> mod \<bar>b\<bar>)))"

definition to_int :: "int \<Rightarrow> int" where
  \<comment> \<open>conversion of a wider integer to \<^verbatim>\<open>int\<close>: the low 32 bits, read as signed\<close>
  "to_int x = sint (word_of_int x :: 32 word)"

lemma c_int_ok [simp]: "in_int x \<Longrightarrow> c_int x = Inr x"
  by (simp add: c_int_def)

lemma in_intI [intro]: "- (2 ^ 31) \<le> x \<Longrightarrow> x < 2 ^ 31 \<Longrightarrow> in_int x"
  by (simp add: in_int_def INT_MIN_def INT_MAX_def)

lemma in_intD: "in_int x \<Longrightarrow> - (2 ^ 31) \<le> x \<and> x < 2 ^ 31"
  by (simp add: in_int_def INT_MIN_def INT_MAX_def)

lemma c_rem_nonneg: "0 \<le> a \<Longrightarrow> 0 < b \<Longrightarrow> c_rem a b = Inr (a mod b)"
  by (cases "a = 0") (auto simp: c_rem_def)

lemma to_int_id [simp]: "in_int x \<Longrightarrow> to_int x = x"
  unfolding to_int_def in_int_def INT_MIN_def INT_MAX_def
  by (simp add: sint_sbintrunc' signed_take_bit_int_eq_self)

lemma in_int_to_int [simp]: "in_int (to_int x)"
  using sint_lt [of "word_of_int x :: 32 word"] sint_ge [of "word_of_int x :: 32 word"]
  by (auto simp: to_int_def)

lemma and_mask_mod: "(x::int) AND (2 ^ k - 1) = x mod 2 ^ k"
  by (metis mask_eq_exp_minus_1 take_bit_eq_mask take_bit_eq_mod)

section \<open>Singly linked segments\<close>

definition hd_ptr :: "addr list \<Rightarrow> ptr \<Rightarrow> ptr" where
  "hd_ptr as q = (case as of [] \<Rightarrow> q | a # _ \<Rightarrow> Some a)"

definition last_ptr :: "addr list \<Rightarrow> ptr \<Rightarrow> ptr" where
  "last_ptr as p = (if as = [] then p else Some (last as))"

lemma hd_ptr_simps [simp]:
  "hd_ptr [] q = q"
  "hd_ptr (a # as) q = Some a"
  by (simp_all add: hd_ptr_def)

lemma last_ptr_simps [simp]:
  "last_ptr [] p = p"
  "last_ptr (as @ [a]) p = Some a"
  "last_ptr [a] p = Some a"
  "last_ptr (a # b # as) p = last_ptr (b # as) p"
  by (simp_all add: last_ptr_def)

lemma hd_ptr_append: "hd_ptr (as @ bs) q = hd_ptr as (hd_ptr bs q)"
  by (cases as) simp_all

lemma hd_ptr_None_iff [simp]: "hd_ptr as None = None \<longleftrightarrow> as = []"
  by (cases as) simp_all

lemma last_ptr_None_iff [simp]: "last_ptr as None = None \<longleftrightarrow> as = []"
  by (simp add: last_ptr_def)

primrec lseg :: "('n \<Rightarrow> ptr) \<Rightarrow> (addr \<rightharpoonup> 'n) \<Rightarrow> ptr \<Rightarrow> addr list \<Rightarrow> ptr \<Rightarrow> bool" where
  "lseg nx m p [] q \<longleftrightarrow> p = q"
| "lseg nx m p (a # as) q \<longleftrightarrow> p = Some a \<and> (\<exists>n. m a = Some n \<and> lseg nx m (nx n) as q)"

lemma lseg_append: "lseg nx m p (as @ bs) q \<longleftrightarrow> (\<exists>r. lseg nx m p as r \<and> lseg nx m r bs q)"
  by (induction as arbitrary: p) auto

lemma lseg_None [simp]: "lseg nx m None as None \<longleftrightarrow> as = []"
  by (cases as) auto

lemma lseg_upd [simp]: "a \<notin> set as \<Longrightarrow> lseg nx (m(a := v)) p as q = lseg nx m p as q"
  by (induction as arbitrary: p) auto

lemma lseg_hd: "lseg nx m p as q \<Longrightarrow> p = hd_ptr as q"
  by (cases as) auto

lemma lseg_dom: "lseg nx m p as q \<Longrightarrow> a \<in> set as \<Longrightarrow> \<exists>n. m a = Some n"
  by (induction as arbitrary: p) auto

lemma lseg_cong:
  "(\<And>a. a \<in> set as \<Longrightarrow> map_option nx (m' a) = map_option nx (m a)) \<Longrightarrow>
   lseg nx m' p as q = lseg nx m p as q"
proof (induction as arbitrary: p)
  case (Cons a as)
  have "map_option nx (m' a) = map_option nx (m a)"
    by (rule Cons.prems) simp
  moreover have "\<And>p. lseg nx m' p as q = lseg nx m p as q"
    by (rule Cons.IH) (simp add: Cons.prems)
  ultimately show ?case
    by (cases "m a"; cases "m' a") auto
qed simp

lemma lseg_unique: "lseg nx m p as None \<Longrightarrow> lseg nx m p bs None \<Longrightarrow> as = bs"
proof (induction as arbitrary: p bs)
  case (Cons a as)
  then show ?case by (cases bs) auto
qed simp

lemma lseg_distinct: "lseg nx m p as None \<Longrightarrow> distinct as"
proof (induction as arbitrary: p)
  case (Cons a as)
  then obtain n where n: "m a = Some n" "lseg nx m (nx n) as None"
    by auto
  have "a \<notin> set as"
  proof
    assume "a \<in> set as"
    then obtain xs ys where as: "as = xs @ a # ys"
      by (auto simp: in_set_conv_decomp)
    with n have "lseg nx m (nx n) ys None"
      by (auto simp: lseg_append)
    with n(2) have "as = ys"
      by (rule lseg_unique)
    with as show False by simp
  qed
  with n Cons.IH show ?case by auto
qed simp

lemma lseg_unlink:
  assumes "lseg nx m p (as @ u # t # bs) None" and "m t = Some nt" and "nx n' = nx nt"
  shows "lseg nx (m(u \<mapsto> n')) p (as @ u # bs) None"
proof -
  have "distinct (as @ u # t # bs)"
    using assms(1) by (rule lseg_distinct)
  then show ?thesis
    using assms by (auto simp: lseg_append)
qed

lemma lseg_array_length:
  assumes "lseg nx (arr_map xs) p as None"
  shows "length as \<le> length xs"
proof -
  have "set as \<subseteq> {..<length xs}"
    using lseg_dom [OF assms] by (fastforce simp: arr_map_Some_iff)
  then have "card (set as) \<le> length xs"
    using card_mono [of "{..<length xs}" "set as"] by simp
  then show ?thesis
    using lseg_distinct [OF assms] by (simp add: distinct_card)
qed

lemma lseg_range:
  assumes "a < b" and "\<And>x. a \<le> x \<Longrightarrow> x < b \<Longrightarrow>
      \<exists>n. m x = Some n \<and> nx n = (if Suc x = b then None else Some (Suc x))"
  shows "lseg nx m (Some a) [a..<b] None"
  using assms
proof (induction "b - a" arbitrary: a)
  case (Suc k)
  show ?case
  proof (cases "Suc a = b")
    case True
    then show ?thesis using Suc.prems(2) [of a] by auto
  next
    case False
    then have "lseg nx m (Some (Suc a)) [Suc a..<b] None"
      using Suc.prems Suc.hyps by (intro Suc.hyps(1)) auto
    then show ?thesis
      using Suc.prems(2) [of a] Suc.prems(1) False by (auto simp: upt_conv_Cons)
  qed
qed simp

section \<open>Doubly linked segments\<close>

text \<open>
  \<open>dseg nx pv loc m p as q\<close>: the nodes \<open>as\<close> are linked forward by \<open>nx\<close>, the last to \<open>q\<close>,
  and backward by \<open>pv\<close>, the first to \<open>p\<close>.  What a node's backward link holds for a
  predecessor \<open>a\<close> is \<open>loc a\<close>: the address of the node itself in a classical list, the
  address of its forward link in a tail queue.
\<close>

primrec dseg :: "('n \<Rightarrow> ptr) \<Rightarrow> ('n \<Rightarrow> 'p) \<Rightarrow> (addr \<Rightarrow> 'p) \<Rightarrow> (addr \<rightharpoonup> 'n) \<Rightarrow>
    'p \<Rightarrow> addr list \<Rightarrow> ptr \<Rightarrow> bool" where
  "dseg nx pv loc m p [] q \<longleftrightarrow> True"
| "dseg nx pv loc m p (a # as) q \<longleftrightarrow>
     (\<exists>n. m a = Some n \<and> pv n = p \<and> nx n = hd_ptr as q) \<and> dseg nx pv loc m (loc a) as q"

definition last_loc :: "(addr \<Rightarrow> 'p) \<Rightarrow> addr list \<Rightarrow> 'p \<Rightarrow> 'p" where
  "last_loc loc as p = (if as = [] then p else loc (last as))"

lemma last_loc_simps [simp]:
  "last_loc loc [] p = p"
  "last_loc loc (as @ [a]) p = loc a"
  "last_loc loc (a # as) p = last_loc loc as (loc a)"
  by (simp_all add: last_loc_def)

lemma last_loc_Some: "last_loc Some as p = last_ptr as p"
  by (simp add: last_loc_def last_ptr_def)

lemma dseg_append: "dseg nx pv loc m p (as @ bs) q \<longleftrightarrow>
   dseg nx pv loc m p as (hd_ptr bs q) \<and> dseg nx pv loc m (last_loc loc as p) bs q"
  by (induction as arbitrary: p) (auto simp: hd_ptr_append)

lemma dseg_upd [simp]:
  "a \<notin> set as \<Longrightarrow> dseg nx pv loc (m(a := v)) p as q = dseg nx pv loc m p as q"
  by (induction as arbitrary: p) auto

lemma dseg_cong: "(\<And>a. a \<in> set as \<Longrightarrow> m' a = m a) \<Longrightarrow> dseg nx pv loc m' p as q = dseg nx pv loc m p as q"
  by (induction as arbitrary: p) auto

lemma dseg_dom: "dseg nx pv loc m p as q \<Longrightarrow> a \<in> set as \<Longrightarrow> \<exists>n. m a = Some n"
  by (induction as arbitrary: p) auto

lemma dseg_lseg: "dseg nx pv loc m p as q \<Longrightarrow> lseg nx m (hd_ptr as q) as q"
  by (induction as arbitrary: p) auto

lemma dseg_distinct: "dseg nx pv loc m p as None \<Longrightarrow> distinct as"
  by (rule lseg_distinct [OF dseg_lseg])

lemma dseg_unique:
  "dseg nx pv loc m p as None \<Longrightarrow> dseg nx pv loc m p' bs None \<Longrightarrow>
   hd_ptr as None = hd_ptr bs None \<Longrightarrow> as = bs"
  by (metis dseg_lseg lseg_unique)

end
