(* ===== verification/Hashid.thy ===== *)
theory Hashid
  imports C_Base
begin

unbundle bit_operations_syntax

text \<open>
  The socket-id table of the gate service, \<^verbatim>\<open>hashid.h\<close>: an array of nodes (\<open>ids\<close>, the slots
  the service uses to index its connections) and a hash array of chains through the nodes.
  A pointer to a node is the index of the node in the array, as in \<^verbatim>\<open>c - hi->id\<close>; a null
  array (after \<open>hashid_clear\<close>) is the empty list.  \<open>slot_of\<close> is the table as a partial map
  from ids to slots, \<open>hashid_inv\<close> what every operation keeps, and the locale \<open>id_table\<close> the
  interface the gate relies on.  The chain walks take fuel, one more than there are nodes:
  a longer walk visits a node twice and never ends.
\<close>

section \<open>Data\<close>

record hashid_node =
  hn_id :: int
  hn_next :: ptr

record hashid =
  hashmod :: int
  cap :: int
  count :: int
  ids :: "hashid_node list"
  hash :: "ptr list"

section \<open>Operations\<close>

fun hashcap_loop :: "nat \<Rightarrow> int \<Rightarrow> int \<Rightarrow> int res" where
  "hashcap_loop 0 hashcap mx = Inl Diverges"
| "hashcap_loop (Suc fuel) hashcap mx =
     (if hashcap < mx
      then bind_res (c_int (hashcap * 2)) (\<lambda>hashcap'. hashcap_loop fuel hashcap' mx)
      else Inr hashcap)"

definition size_t :: "int \<Rightarrow> nat" where
  \<comment> \<open>conversion to the 64-bit \<^verbatim>\<open>size_t\<close>\<close>
  "size_t x = nat (x mod 2 ^ 64)"

definition hashid_init :: "(nat \<Rightarrow> bool) \<Rightarrow> int \<Rightarrow> hashid res" where
  \<comment> \<open>\<open>mem n\<close>: the external \<^verbatim>\<open>skynet_malloc\<close> can provide \<open>n\<close> bytes (it aborts otherwise)\<close>
  "hashid_init mem mx =
     bind_res (hashcap_loop 32 16 mx) (\<lambda>hashcap.
     check (mem (size_t (mx * 16))) OutOfMemory (
     check (mem (size_t (hashcap * 8))) OutOfMemory (
     Inr \<lparr>hashmod = hashcap - 1, cap = mx, count = 0,
          ids = replicate (nat mx) \<lparr>hn_id = -1, hn_next = NULL\<rparr>,
          hash = replicate (nat hashcap) NULL\<rparr>)))"

definition hashid_clear :: "hashid \<Rightarrow> hashid" where
  "hashid_clear hi = hi\<lparr>ids := [], hash := [], hashmod := 1, cap := 0, count := 0\<rparr>"

fun lookup_loop :: "nat \<Rightarrow> hashid_node list \<Rightarrow> ptr \<Rightarrow> int \<Rightarrow> int res" where
  "lookup_loop 0 ns c x = Inl Diverges"
| "lookup_loop (Suc fuel) ns c x =
     (case c of
        None \<Rightarrow> Inr (-1)
      | Some a \<Rightarrow>
          bind_res (deref (arr_map ns) c) (\<lambda>n.
            if hn_id n = x then Inr (int a) else lookup_loop fuel ns (hn_next n) x))"

definition hashid_lookup :: "hashid \<Rightarrow> int \<Rightarrow> int res" where
  "hashid_lookup hi x =
     (let h = x AND hashmod hi in
      bind_res (arr_get (hash hi) h) (\<lambda>c. lookup_loop (Suc (length (ids hi))) (ids hi) c x))"

fun unlink_loop :: "nat \<Rightarrow> hashid_node list \<Rightarrow> addr \<Rightarrow> int \<Rightarrow> (addr \<times> hashid_node list) option res"
where
  "unlink_loop 0 ns c x = Inl Diverges"
| "unlink_loop (Suc fuel) ns c x =
     bind_res (deref (arr_map ns) (Some c)) (\<lambda>n.
     case hn_next n of
       None \<Rightarrow> Inr None
     | Some t \<Rightarrow>
         bind_res (deref (arr_map ns) (Some t)) (\<lambda>temp.
         if hn_id temp = x
         then bind_res (arr_set ns (int c) (n\<lparr>hn_next := hn_next temp\<rparr>)) (\<lambda>ns'. Inr (Some (t, ns')))
         else unlink_loop fuel ns t x))"

definition clear_node :: "hashid \<Rightarrow> addr \<Rightarrow> (int \<times> hashid) res" where
  \<comment> \<open>the label \<^verbatim>\<open>_clear\<close> of \<^verbatim>\<open>hashid_remove\<close>\<close>
  "clear_node hi c =
     bind_res (arr_set (ids hi) (int c) \<lparr>hn_id = -1, hn_next = NULL\<rparr>) (\<lambda>ns.
     bind_res (c_int (count hi - 1)) (\<lambda>n.
     Inr (int c, hi\<lparr>ids := ns, count := n\<rparr>)))"

definition hashid_remove :: "hashid \<Rightarrow> int \<Rightarrow> (int \<times> hashid) res" where
  "hashid_remove hi x =
     (let h = x AND hashmod hi in
      bind_res (arr_get (hash hi) h) (\<lambda>c.
      case c of
        None \<Rightarrow> Inr (-1, hi)
      | Some a \<Rightarrow>
          bind_res (deref (arr_map (ids hi)) c) (\<lambda>n.
          if hn_id n = x
          then bind_res (arr_set (hash hi) h (hn_next n)) (\<lambda>hs. clear_node (hi\<lparr>hash := hs\<rparr>) a)
          else bind_res (unlink_loop (Suc (length (ids hi))) (ids hi) a x) (\<lambda>r.
            case r of
              None \<Rightarrow> Inr (-1, hi)
            | Some (t, ns) \<Rightarrow> clear_node (hi\<lparr>ids := ns\<rparr>) t))))"

function insert_scan :: "hashid_node list \<Rightarrow> int \<Rightarrow> int \<Rightarrow> int \<Rightarrow> int option res" where
  "insert_scan ns cp x i =
     (if i < cp
      then bind_res (c_int (i + x)) (\<lambda>s.
           bind_res (c_rem s cp) (\<lambda>index.
           bind_res (arr_get ns index) (\<lambda>n.
           if hn_id n = -1 then Inr (Some index) else insert_scan ns cp x (i + 1))))
      else Inr None)"
  by pat_completeness auto
termination
  by (relation "measure (\<lambda>(ns, cp, x, i). nat (cp - i))") auto

definition hashid_insert :: "hashid \<Rightarrow> int \<Rightarrow> (int \<times> hashid) res" where
  "hashid_insert hi x =
     bind_res (insert_scan (ids hi) (cap hi) x 0) (\<lambda>c.
     case c of
       None \<Rightarrow> Inl AssertFail
     | Some index \<Rightarrow>
         bind_res (c_int (count hi + 1)) (\<lambda>n.
         bind_res (arr_get (ids hi) index) (\<lambda>node.
         check (hn_next node = NULL) AssertFail (
         let h = x AND hashmod hi in
         bind_res (arr_get (hash hi) h) (\<lambda>first.
         bind_res (arr_set (ids hi) index
            \<lparr>hn_id = x, hn_next = (if first \<noteq> NULL then first else hn_next node)\<rparr>) (\<lambda>ns.
         bind_res (arr_set (hash hi) h (Some (nat index))) (\<lambda>hs.
         Inr (index, hi\<lparr>count := n, ids := ns, hash := hs\<rparr>))))))))"

definition hashid_full :: "hashid \<Rightarrow> bool" where
  "hashid_full hi \<longleftrightarrow> count hi = cap hi"

declare insert_scan.simps [simp del]

section \<open>The table as a map, and its invariant\<close>

definition used :: "hashid \<Rightarrow> nat set" where
  "used hi = {i. i < length (ids hi) \<and> hn_id (ids hi ! i) \<noteq> -1}"

definition slot_of :: "hashid \<Rightarrow> int \<rightharpoonup> nat" where
  "slot_of hi x =
     (if x = -1 then None
      else List.find (\<lambda>i. hn_id (ids hi ! i) = x) [0..<length (ids hi)])"

definition bucket :: "hashid \<Rightarrow> int \<Rightarrow> nat" where
  "bucket hi x = nat (x AND hashmod hi)"

definition chain_ok :: "hashid \<Rightarrow> nat \<Rightarrow> bool" where
  "chain_ok hi h \<longleftrightarrow>
     (\<exists>ns. lseg hn_next (arr_map (ids hi)) (hash hi ! h) ns None
         \<and> set ns = {i \<in> used hi. bucket hi (hn_id (ids hi ! i)) = h})"

definition hash_shape :: "hashid \<Rightarrow> bool" where
  "hash_shape hi \<longleftrightarrow>
     (\<exists>k \<le> 30. hashmod hi = 2 ^ k - 1 \<and> length (hash hi) = 2 ^ k) \<and>
     0 \<le> cap hi \<and> in_int (cap hi) \<and> length (ids hi) = nat (cap hi)"

definition hashid_inv :: "hashid \<Rightarrow> bool" where
  "hashid_inv hi \<longleftrightarrow>
     hash_shape hi \<and>
     count hi = int (card (used hi)) \<and>
     (\<forall>i < length (ids hi). hn_id (ids hi ! i) = -1 \<longrightarrow> hn_next (ids hi ! i) = NULL) \<and>
     inj_on (\<lambda>i. hn_id (ids hi ! i)) (used hi) \<and>
     (\<forall>h < length (hash hi). chain_ok hi h)"

lemma hash_shape_cap:
  assumes "hash_shape hi"
  shows "0 \<le> cap hi" and "cap hi \<le> INT_MAX" and "length (ids hi) = nat (cap hi)" and "in_int (hashmod hi)"
proof -
  obtain k where "k \<le> 30" "hashmod hi = 2 ^ k - 1" using assms by (auto simp: hash_shape_def)
  moreover from this have "(2::int) ^ k \<le> 2 ^ 30" "1 \<le> (2::int) ^ k"
    using power_increasing [of k 30 "2 :: int"] by simp_all
  ultimately have "0 \<le> hashmod hi" "hashmod hi < 2 ^ 30" by linarith+
  then show "in_int (hashmod hi)" by (simp add: in_int_def INT_MIN_def INT_MAX_def)
qed (use assms in \<open>simp_all add: hash_shape_def in_int_def\<close>)

lemma hashid_invI [intro?]:
  assumes "hash_shape hi" and "count hi = int (card (used hi))"
    and "\<And>i. i < length (ids hi) \<Longrightarrow> hn_id (ids hi ! i) = -1 \<Longrightarrow> hn_next (ids hi ! i) = NULL"
    and "inj_on (\<lambda>i. hn_id (ids hi ! i)) (used hi)"
    and "\<And>h. h < length (hash hi) \<Longrightarrow> chain_ok hi h"
  shows "hashid_inv hi"
  using assms by (simp add: hashid_inv_def)

lemma hashid_invD:
  assumes "hashid_inv hi"
  shows "hash_shape hi" and "count hi = int (card (used hi))"
    and "\<And>i. i < length (ids hi) \<Longrightarrow> hn_id (ids hi ! i) = -1 \<Longrightarrow> hn_next (ids hi ! i) = NULL"
    and "inj_on (\<lambda>i. hn_id (ids hi ! i)) (used hi)"
    and "\<And>h. h < length (hash hi) \<Longrightarrow> chain_ok hi h"
  using assms by (simp_all add: hashid_inv_def)

lemma finite_used [simp]: "finite (used hi)"
  by (simp add: used_def)

lemma used_bound: "i \<in> used hi \<Longrightarrow> i < length (ids hi)"
  by (simp add: used_def)

lemma card_used: "card (used hi) \<le> length (ids hi)"
proof -
  have "used hi \<subseteq> {..<length (ids hi)}"
    using used_bound by blast
  then show ?thesis
    using card_mono [of "{..<length (ids hi)}"] by simp
qed

lemma bucket_mask:
  assumes "hash_shape hi"
  shows "0 \<le> x AND hashmod hi" and "x AND hashmod hi < int (length (hash hi))"
proof -
  from assms obtain k where k: "hashmod hi = 2 ^ k - 1" "length (hash hi) = 2 ^ k"
    by (auto simp: hash_shape_def)
  then have "x AND hashmod hi = x mod 2 ^ k"
    by (simp add: and_mask_mod)
  then show "0 \<le> x AND hashmod hi" and "x AND hashmod hi < int (length (hash hi))"
    by (simp_all add: k)
qed

lemma bucket_bound: "hash_shape hi \<Longrightarrow> bucket hi x < length (hash hi)"
  using bucket_mask [of hi x] by (simp add: bucket_def nat_less_iff)

lemma hash_get [simp]:
  "hash_shape hi \<Longrightarrow> arr_get (hash hi) (x AND hashmod hi) = Inr (hash hi ! bucket hi x)"
  using bucket_mask [of hi x] by (simp add: bucket_def)

lemma hash_set [simp]:
  "hash_shape hi \<Longrightarrow> arr_set (hash hi) (x AND hashmod hi) p = Inr ((hash hi)[bucket hi x := p])"
  using bucket_mask [of hi x] by (simp add: bucket_def)

lemma slot_of_Some_iff:
  assumes "hashid_inv hi"
  shows "slot_of hi x = Some i \<longleftrightarrow> i \<in> used hi \<and> hn_id (ids hi ! i) = x"
proof
  assume "slot_of hi x = Some i"
  then show "i \<in> used hi \<and> hn_id (ids hi ! i) = x"
    by (auto simp: slot_of_def find_Some_iff used_def split: if_splits)
next
  assume i: "i \<in> used hi \<and> hn_id (ids hi ! i) = x"
  then have "slot_of hi x \<noteq> None"
    by (auto simp: slot_of_def find_None_iff used_def)
  then obtain j where j: "slot_of hi x = Some j"
    by blast
  then have "j \<in> used hi \<and> hn_id (ids hi ! j) = x"
    by (auto simp: slot_of_def find_Some_iff used_def split: if_splits)
  with i hashid_invD(4) [OF assms] have "j = i"
    by (auto dest: inj_onD)
  with j show "slot_of hi x = Some i" by simp
qed

lemma slot_of_None_iff:
  "slot_of hi x = None \<longleftrightarrow> (\<forall>i \<in> used hi. hn_id (ids hi ! i) \<noteq> x)"
  by (auto simp: slot_of_def find_None_iff used_def)

section \<open>Lookup\<close>

lemma lookup_loop_spec:
  assumes "lseg hn_next (arr_map ns) c as None" and "length as < fuel"
  shows "lookup_loop fuel ns c x =
    Inr (case List.find (\<lambda>i. hn_id (ns ! i) = x) as of None \<Rightarrow> -1 | Some i \<Rightarrow> int i)"
  using assms
proof (induction as arbitrary: c fuel)
  case Nil
  then show ?case by (cases fuel) auto
next
  case (Cons a as)
  then show ?case by (cases fuel) (auto simp: arr_map_Some_iff)
qed

lemma chain_find:
  assumes "hashid_inv hi"
    and "set ns = {i \<in> used hi. bucket hi (hn_id (ids hi ! i)) = bucket hi x}"
  shows "List.find (\<lambda>i. hn_id (ids hi ! i) = x) ns = slot_of hi x"
proof (cases "slot_of hi x")
  case None
  then have "\<forall>i \<in> set ns. hn_id (ids hi ! i) \<noteq> x"
    using assms(2) by (auto simp: slot_of_None_iff)
  then show ?thesis
    using None by (simp add: find_None_iff)
next
  case (Some i)
  then have i: "i \<in> used hi" "hn_id (ids hi ! i) = x"
    by (auto simp: slot_of_Some_iff [OF assms(1)])
  then have "List.find (\<lambda>i. hn_id (ids hi ! i) = x) ns \<noteq> None"
    using assms(2) by (auto simp: find_None_iff)
  then obtain j where j: "List.find (\<lambda>i. hn_id (ids hi ! i) = x) ns = Some j"
    by blast
  then have "j \<in> used hi \<and> hn_id (ids hi ! j) = x"
    using find_SomeD [OF j] assms(2) by simp
  then have "slot_of hi x = Some j"
    by (simp add: slot_of_Some_iff [OF assms(1)])
  with j show ?thesis by simp
qed

lemma hashid_lookup_slot:
  assumes "hashid_inv hi"
  shows "hashid_lookup hi x = Inr (case slot_of hi x of None \<Rightarrow> -1 | Some i \<Rightarrow> int i)"
proof -
  note shape = hashid_invD(1) [OF assms]
  obtain ns where ns: "lseg hn_next (arr_map (ids hi)) (hash hi ! bucket hi x) ns None"
    "set ns = {i \<in> used hi. bucket hi (hn_id (ids hi ! i)) = bucket hi x}"
    using hashid_invD(5) [OF assms bucket_bound [OF shape]] by (auto simp: chain_ok_def)
  then have "length ns < Suc (length (ids hi))"
    using lseg_array_length by (simp add: less_Suc_eq_le)
  from lookup_loop_spec [OF ns(1) this] chain_find [OF assms ns(2)] shape
  show ?thesis by (simp add: hashid_lookup_def)
qed

section \<open>Insertion\<close>

lemma c_rem_index:
  assumes "0 \<le> x" and "0 \<le> i" and "i < cp"
  shows "c_rem (i + x) cp = Inr ((i + x) mod cp)" and "0 \<le> (i + x) mod cp" and "(i + x) mod cp < cp"
  using assms by (auto simp: c_rem_nonneg)

lemma insert_scan_unfold:
  assumes "length ns = nat cp" and "0 \<le> x" and "x + cp \<le> INT_MAX" and "0 \<le> i" and "i < cp"
  shows "insert_scan ns cp x i =
    (if hn_id (ns ! nat ((i + x) mod cp)) = -1 then Inr (Some ((i + x) mod cp))
     else insert_scan ns cp x (i + 1))"
proof -
  have "in_int (i + x)"
    using assms by (simp add: in_int_def INT_MIN_def)
  then show ?thesis
    using assms c_rem_index [of x i cp] by (subst insert_scan.simps) simp
qed

lemma insert_scan_find:
  \<comment> \<open>the first free slot, from the one the id falls on\<close>
  assumes "length ns = nat cp" and "0 \<le> x" and "x + cp \<le> INT_MAX" and "0 \<le> i"
  shows "insert_scan ns cp x i = Inr (List.find (\<lambda>s. hn_id (ns ! nat s) = -1) (map (\<lambda>k. (k + x) mod cp) [i..cp - 1]))"
  using assms
proof (induction "nat (cp - i)" arbitrary: i)
  case 0
  then show ?case by (subst insert_scan.simps) simp
next
  case (Suc n)
  then have i: "i < cp" by simp
  have "insert_scan ns cp x (i + 1) =
      Inr (List.find (\<lambda>s. hn_id (ns ! nat s) = -1) (map (\<lambda>k. (k + x) mod cp) [i + 1..cp - 1]))"
    by (rule Suc.hyps(1)) (use Suc.hyps(2) Suc.prems in simp_all)
  then show ?case using insert_scan_unfold [OF Suc.prems i] i by (simp add: upto_rec1)
qed

lemma insert_scan_free:
  assumes "length ns = nat cp" and "0 \<le> x" and "x + cp \<le> INT_MAX"
    and "j < length ns" and "hn_id (ns ! j) = -1"
  obtains i where "insert_scan ns cp x 0 = Inr (Some (int i))" and "i < length ns"
    and "hn_id (ns ! i) = -1"
proof -
  let ?free = "\<lambda>s. hn_id (ns ! nat s) = -1" and ?probes = "map (\<lambda>k. (k + x) mod cp) [0..cp - 1]"
  have cp: "0 < cp" "int j < cp" using assms(1,4) by auto
  define k where "k = (int j - x) mod cp"
  have "k \<in> set [0..cp - 1]" "(k + x) mod cp = int j" using cp by (simp_all add: k_def mod_simps)
  then have "int j \<in> set ?probes" unfolding set_map by (intro image_eqI [of _ _ k]) simp_all
  then have "List.find ?free ?probes \<noteq> None" using assms(5) unfolding find_None_iff by (metis nat_int)
  then obtain s where s: "List.find ?free ?probes = Some s" by blast
  from find_SomeD [OF this] have "?free s" "0 \<le> s" "s < cp" using cp(1) by auto
  moreover have "insert_scan ns cp x 0 = Inr (Some s)"
    unfolding insert_scan_find [OF assms(1-3) order_refl] s ..
  ultimately show thesis using that [of "nat s"] assms(1) by simp
qed

lemma full_iff_used: "hashid_inv hi \<Longrightarrow> hashid_full hi \<longleftrightarrow> used hi = {..<length (ids hi)}"
proof
  assume inv: "hashid_inv hi" and full: "hashid_full hi"
  have "card (used hi) = card {..<length (ids hi)}"
    using full hashid_invD(1,2) [OF inv] by (simp add: hashid_full_def hash_shape_def)
  then show "used hi = {..<length (ids hi)}"
    by (intro card_subset_eq) (auto simp: used_def)
next
  assume inv: "hashid_inv hi" and "used hi = {..<length (ids hi)}"
  then show "hashid_full hi"
    using hashid_invD(1,2) [OF inv] by (simp add: hashid_full_def hash_shape_def)
qed

lemma not_full_free:
  assumes "hashid_inv hi" and "\<not> hashid_full hi"
  obtains j where "j < length (ids hi)" and "hn_id (ids hi ! j) = -1"
proof -
  have "used hi \<noteq> {..<length (ids hi)}"
    using assms by (simp add: full_iff_used)
  then obtain j where "j < length (ids hi)" "j \<notin> used hi"
    using used_bound by blast
  then show ?thesis
    using that by (simp add: used_def)
qed

definition linked :: "hashid \<Rightarrow> int \<Rightarrow> nat \<Rightarrow> hashid" where
  \<comment> \<open>the table with \<open>x\<close> put into the free slot \<open>i\<close> at the head of its chain\<close>
  "linked hi x i =
     hi\<lparr>count := count hi + 1,
        ids := (ids hi)[i := \<lparr>hn_id = x, hn_next = hash hi ! bucket hi x\<rparr>],
        hash := (hash hi)[bucket hi x := Some i]\<rparr>"

lemma linked_used:
  assumes "i < length (ids hi)" and "x \<noteq> -1"
  shows "used (linked hi x i) = insert i (used hi)"
  using assms by (auto simp: used_def linked_def nth_list_update)

lemma linked_id:
  "i < length (ids hi) \<Longrightarrow>
   hn_id (ids (linked hi x i) ! j) = (if j = i then x else hn_id (ids hi ! j))"
  by (simp add: linked_def nth_list_update)

lemma linked_chain:
  assumes inv: "hashid_inv hi" and i: "i < length (ids hi)" "hn_id (ids hi ! i) = -1" and x: "x \<noteq> -1"
    and h: "h < length (hash (linked hi x i))"
  shows "chain_ok (linked hi x i) h"
proof -
  have i_free: "i \<notin> used hi" using i by (simp add: used_def)
  note used' = linked_used [OF i(1) x]
  from h obtain ns where ns: "lseg hn_next (arr_map (ids hi)) (hash hi ! h) ns None"
    "set ns = {j \<in> used hi. bucket hi (hn_id (ids hi ! j)) = h}"
    using hashid_invD(5) [OF inv, of h] unfolding chain_ok_def linked_def by auto
  have "i \<notin> set ns" using ns(2) i_free by simp
  then have seg: "lseg hn_next (arr_map (ids (linked hi x i))) (hash hi ! h) ns None"
    using ns(1) i(1) by (simp add: linked_def arr_map_update)
  note same = linked_id [OF i(1)]
  have bucket': "bucket (linked hi x i) y = bucket hi y" for y
    by (simp add: bucket_def linked_def)
  show ?thesis
  proof (cases "h = bucket hi x")
    case False
    then have "hash (linked hi x i) ! h = hash hi ! h"
      by (simp add: linked_def)
    moreover have "set ns = {j \<in> used (linked hi x i).
        bucket (linked hi x i) (hn_id (ids (linked hi x i) ! j)) = h}"
      using ns(2) False i_free by (auto simp: used' bucket' same split: if_splits)
    ultimately show ?thesis
      unfolding chain_ok_def using seg by auto
  next
    case True
    then have "hash (linked hi x i) ! h = Some i"
      using h by (simp add: linked_def)
    moreover have "lseg hn_next (arr_map (ids (linked hi x i))) (Some i) (i # ns) None"
      using seg i(1) True by (simp add: linked_def)
    moreover have "set (i # ns) = {j \<in> used (linked hi x i).
        bucket (linked hi x i) (hn_id (ids (linked hi x i) ! j)) = h}"
      using ns(2) True i_free by (auto simp: used' bucket' same split: if_splits)
    ultimately show ?thesis
      unfolding chain_ok_def by metis
  qed
qed

lemma linked_inv:
  assumes inv: "hashid_inv hi" and i: "i < length (ids hi)" "hn_id (ids hi ! i) = -1"
    and x: "x \<noteq> -1" "slot_of hi x = None"
  shows "hashid_inv (linked hi x i)"
proof
  note D = hashid_invD [OF inv]
  have i_free: "i \<notin> used hi" using i by (simp add: used_def)
  note used' = linked_used [OF i(1) x(1)]
  show "hash_shape (linked hi x i)"
    using D(1) by (simp add: hash_shape_def linked_def)
  show "count (linked hi x i) = int (card (used (linked hi x i)))"
    using D(2) i_free by (simp add: used') (simp add: linked_def)
  show "hn_next (ids (linked hi x i) ! j) = NULL"
    if "j < length (ids (linked hi x i))" "hn_id (ids (linked hi x i) ! j) = -1" for j
    using that x(1) D(3) by (cases "j = i") (auto simp: linked_def)
  show "inj_on (\<lambda>j. hn_id (ids (linked hi x i) ! j)) (used (linked hi x i))"
    using D(4) x(2) i_free
    by (auto simp: used' slot_of_None_iff inj_on_def linked_id [OF i(1)] split: if_splits)
  show "chain_ok (linked hi x i) h" if "h < length (hash (linked hi x i))" for h
    by (rule linked_chain [OF inv i x(1) that])
qed

lemma linked_slot_of:
  assumes inv: "hashid_inv hi" and i: "i < length (ids hi)" "hn_id (ids hi ! i) = -1"
    and x: "x \<noteq> -1" "slot_of hi x = None"
  shows "slot_of (linked hi x i) = (slot_of hi)(x \<mapsto> i)"
proof (rule map_eqI)
  note inv' = linked_inv [OF assms]
  show "slot_of (linked hi x i) y = Some j \<longleftrightarrow> ((slot_of hi)(x \<mapsto> i)) y = Some j" for y j
    using x(2) i(2) unfolding fun_upd_apply slot_of_Some_iff [OF inv'] linked_id [OF i(1)]
      linked_used [OF i(1) x(1)]
    by (auto simp: slot_of_Some_iff [OF inv] slot_of_None_iff used_def)
qed

definition insertable :: "hashid \<Rightarrow> int \<Rightarrow> bool" where
  \<comment> \<open>an id the table accepts: not negative, and \<open>i + id\<close> stays an \<^verbatim>\<open>int\<close> in the probe loop\<close>
  "insertable hi x \<longleftrightarrow> 0 \<le> x \<and> x + cap hi \<le> INT_MAX"

lemma hashid_insert_linked:
  assumes inv: "hashid_inv hi" and "insertable hi x" and "\<not> hashid_full hi"
  obtains i where "hashid_insert hi x = Inr (int i, linked hi x i)"
    and "i < length (ids hi)" and "hn_id (ids hi ! i) = -1" and "insert_scan (ids hi) (cap hi) x 0 = Inr (Some (int i))"
proof -
  note D = hashid_invD [OF inv]
  have shape: "length (ids hi) = nat (cap hi)" "in_int (cap hi)"
    using D(1) by (simp_all add: hash_shape_def)
  obtain j where "j < length (ids hi)" "hn_id (ids hi ! j) = -1"
    using not_full_free [OF inv assms(3)] .
  then obtain i where i: "insert_scan (ids hi) (cap hi) x 0 = Inr (Some (int i))"
    "i < length (ids hi)" "hn_id (ids hi ! i) = -1"
    using insert_scan_free [OF shape(1)] assms(2) unfolding insertable_def by metis
  have "card (used hi) < length (ids hi)"
    using i by (intro psubset_card_mono [of "{..<length (ids hi)}", simplified])
      (auto simp: used_def)
  then have "in_int (count hi + 1)"
    using D(2) shape by (auto simp: in_int_def INT_MIN_def)
  moreover have "hn_next (ids hi ! i) = NULL"
    using D(3) i(2,3) by blast
  ultimately have "hashid_insert hi x = Inr (int i, linked hi x i)"
    using i D(1) by (auto simp: hashid_insert_def linked_def)
  then show ?thesis using that i by blast
qed

section \<open>Removal\<close>

lemma unlink_loop_spec:
  assumes "lseg hn_next (arr_map ns) (Some c) (c # as) None" and "length as < fuel"
  shows "unlink_loop fuel ns c x =
    (case dropWhile (\<lambda>i. hn_id (ns ! i) \<noteq> x) as of
       [] \<Rightarrow> Inr None
     | t # _ \<Rightarrow>
         let u = last (c # takeWhile (\<lambda>i. hn_id (ns ! i) \<noteq> x) as)
         in Inr (Some (t, ns[u := (ns ! u)\<lparr>hn_next := hn_next (ns ! t)\<rparr>])))"
  using assms
proof (induction as arbitrary: c fuel)
  case Nil
  then show ?case by (cases fuel) (auto simp: arr_map_Some_iff)
next
  case (Cons a as)
  from Cons.prems obtain f where f: "fuel = Suc f" "length as < f"
    by (cases fuel) auto
  have c: "c < length ns" "hn_next (ns ! c) = Some a" and a: "a < length ns"
    and seg: "lseg hn_next (arr_map ns) (Some a) (a # as) None"
    using Cons.prems(1) by (auto simp: arr_map_Some_iff)
  show ?case
    using f(1) c a Cons.IH [OF seg f(2)]
    by (cases "hn_id (ns ! a) = x"; cases "dropWhile (\<lambda>i. hn_id (ns ! i) \<noteq> x) as")
      (simp_all del: dropWhile_eq_Nil_conv)
qed

definition cleared :: "hashid \<Rightarrow> nat \<Rightarrow> hashid" where
  \<comment> \<open>the table with the slot \<open>i\<close> marked free\<close>
  "cleared hi i = hi\<lparr>ids := (ids hi)[i := \<lparr>hn_id = -1, hn_next = NULL\<rparr>], count := count hi - 1\<rparr>"

lemma cleared_simps:
  "i < length (ids hi) \<Longrightarrow> used (cleared hi i) = used hi - {i}"
  "j \<noteq> i \<Longrightarrow> hn_id (ids (cleared hi i) ! j) = hn_id (ids hi ! j)"
  "bucket (cleared hi i) = bucket hi" "cap (cleared hi i) = cap hi" "hash (cleared hi i) = hash hi"
  "hash_shape (cleared hi i) = hash_shape hi"
  by (auto simp: used_def cleared_def nth_list_update bucket_def fun_eq_iff hash_shape_def)

lemma cleared_chain:
  assumes "i < length (ids hi)" and "lseg hn_next (arr_map (ids hi)) (hash hi ! h) ns None"
    and "set ns = {j \<in> used hi - {i}. bucket hi (hn_id (ids hi ! j)) = h}"
  shows "chain_ok (cleared hi i) h"
proof -
  have "i \<notin> set ns" using assms(3) by simp
  then have "lseg hn_next (arr_map (ids (cleared hi i))) (hash (cleared hi i) ! h) ns None"
    using assms(1,2) by (simp add: cleared_def arr_map_update)
  moreover have "set ns = {j \<in> used (cleared hi i). bucket (cleared hi i) (hn_id (ids (cleared hi i) ! j)) = h}"
    unfolding assms(3) cleared_simps(1) [OF assms(1)] cleared_simps(3)
    by (intro Collect_cong) (simp add: cleared_simps(2) cong: conj_cong)
  ultimately show ?thesis unfolding chain_ok_def by blast
qed

lemma clear_node_spec:
  assumes shape: "hash_shape hi" and i: "i \<in> used hi" and cnt: "count hi = int (card (used hi))"
    and free: "\<And>j. j < length (ids hi) \<Longrightarrow> hn_id (ids hi ! j) = -1 \<Longrightarrow> hn_next (ids hi ! j) = NULL"
    and inj: "inj_on (\<lambda>j. hn_id (ids hi ! j)) (used hi)"
    and chains: "\<And>h. h < length (hash hi) \<Longrightarrow>
      \<exists>ns. lseg hn_next (arr_map (ids hi)) (hash hi ! h) ns None \<and>
        set ns = {j \<in> used hi - {i}. bucket hi (hn_id (ids hi ! j)) = h}"
  shows "clear_node hi i = Inr (int i, cleared hi i)" and "hashid_inv (cleared hi i)"
proof -
  have i_len: "i < length (ids hi)" using i by (rule used_bound)
  obtain n where n: "card (used hi) = Suc n"
    using i by (metis card_Suc_Diff1 finite_used)
  then have "in_int (count hi - 1)"
    using cnt card_used [of hi] hash_shape_cap [OF shape] unfolding in_int_def INT_MIN_def by simp
  then show "clear_node hi i = Inr (int i, cleared hi i)"
    using i_len by (simp add: clear_node_def cleared_def)
  show "hashid_inv (cleared hi i)"
  proof
    show "hash_shape (cleared hi i)" using shape by (simp add: cleared_simps)
    show "count (cleared hi i) = int (card (used (cleared hi i)))"
      using cnt i n by (simp add: cleared_simps(1) [OF i_len]) (simp add: cleared_def)
    show "hn_next (ids (cleared hi i) ! j) = NULL"
      if "j < length (ids (cleared hi i))" "hn_id (ids (cleared hi i) ! j) = -1" for j
      using that free by (cases "j = i") (auto simp: cleared_def)
    show "inj_on (\<lambda>j. hn_id (ids (cleared hi i) ! j)) (used (cleared hi i))"
      using inj by (auto simp: cleared_simps(1) [OF i_len] cleared_simps(2) inj_on_def)
    show "chain_ok (cleared hi i) h" if "h < length (hash (cleared hi i))" for h
      using chains [of h] that cleared_chain [OF i_len] by (auto simp: cleared_simps)
  qed
qed

lemma slot_of_remove:
  assumes inv: "hashid_inv hi" and inv': "hashid_inv hi'" and x: "slot_of hi x = Some i"
    and used': "used hi' = used hi - {i}"
    and id': "\<And>j. j \<noteq> i \<Longrightarrow> hn_id (ids hi' ! j) = hn_id (ids hi ! j)"
  shows "slot_of hi' = (slot_of hi)(x := None)"
proof (rule map_eqI)
  have i: "i \<in> used hi" "hn_id (ids hi ! i) = x"
    using x by (simp_all add: slot_of_Some_iff [OF inv])
  show "slot_of hi' y = Some j \<longleftrightarrow> ((slot_of hi)(x := None)) y = Some j" for y j
    using i inj_onD [OF hashid_invD(4) [OF inv], of j i] id' [of j]
    unfolding fun_upd_apply slot_of_Some_iff [OF inv'] used'
    by (auto simp: slot_of_Some_iff [OF inv])
qed

definition unlinked :: "hashid \<Rightarrow> nat \<Rightarrow> nat \<Rightarrow> hashid \<Rightarrow> bool" where
  \<comment> \<open>\<open>hi1\<close> is \<open>hi\<close> with slot \<open>i\<close> taken out of the chain \<open>b\<close>, its node not cleared yet\<close>
  "unlinked hi i b hi1 \<longleftrightarrow>
     (hashmod hi1 = hashmod hi \<and> cap hi1 = cap hi \<and> count hi1 = count hi \<and>
      length (ids hi1) = length (ids hi) \<and> length (hash hi1) = length (hash hi)) \<and>
     (\<forall>j. hn_id (ids hi1 ! j) = hn_id (ids hi ! j)) \<and>
     (\<forall>j. j \<notin> {u \<in> used hi. bucket hi (hn_id (ids hi ! u)) = b} \<longrightarrow> ids hi1 ! j = ids hi ! j) \<and>
     (\<forall>g. g \<noteq> b \<longrightarrow> hash hi1 ! g = hash hi ! g) \<and>
     (\<exists>ns. lseg hn_next (arr_map (ids hi1)) (hash hi1 ! b) ns None \<and>
        set ns = {j \<in> used hi - {i}. bucket hi (hn_id (ids hi ! j)) = b})"

lemma unlinkedD:
  assumes "unlinked hi i b hi1"
  shows "used hi1 = used hi" and "bucket hi1 = bucket hi" and "hn_id (ids hi1 ! j) = hn_id (ids hi ! j)"
  using assms by (auto simp: unlinked_def used_def bucket_def fun_eq_iff)

lemma unlinked_chain:
  assumes inv: "hashid_inv hi" and un: "unlinked hi i b hi1"
    and b: "b = bucket hi (hn_id (ids hi ! i))" and h: "h < length (hash hi)"
  shows "\<exists>ns. lseg hn_next (arr_map (ids hi1)) (hash hi1 ! h) ns None \<and>
       set ns = {j \<in> used hi1 - {i}. bucket hi1 (hn_id (ids hi1 ! j)) = h}"
proof (cases "h = b")
  case True
  then show ?thesis using un by (simp add: unlinkedD [OF un]) (simp add: unlinked_def)
next
  case False
  obtain ns where ns: "lseg hn_next (arr_map (ids hi)) (hash hi ! h) ns None"
    "set ns = {j \<in> used hi. bucket hi (hn_id (ids hi ! j)) = h}"
    using hashid_invD(5) [OF inv h] by (auto simp: chain_ok_def)
  have "arr_map (ids hi1) j = arr_map (ids hi) j" if "j \<in> set ns" for j
    using that ns(2) False un by (simp add: arr_map_def unlinked_def)
  moreover have "hash hi1 ! h = hash hi ! h"
    using un False by (simp add: unlinked_def)
  ultimately have "lseg hn_next (arr_map (ids hi1)) (hash hi1 ! h) ns None"
    using ns(1) lseg_cong [of ns hn_next "arr_map (ids hi1)"] by simp
  moreover have "set ns = {j \<in> used hi1 - {i}. bucket hi1 (hn_id (ids hi1 ! j)) = h}"
    using ns(2) False b by (auto simp: unlinkedD [OF un])
  ultimately show ?thesis by blast
qed

lemma clear_unlinked:
  assumes inv: "hashid_inv hi" and x: "slot_of hi x = Some i"
    and un: "unlinked hi i (bucket hi x) hi1"
  shows "\<exists>hi'. clear_node hi1 i = Inr (int i, hi') \<and> hashid_inv hi' \<and>
    slot_of hi' = (slot_of hi)(x := None) \<and> cap hi' = cap hi"
proof -
  note D = hashid_invD [OF inv] and U = unlinkedD [OF un]
  have i: "i \<in> used hi" "hn_id (ids hi ! i) = x"
    using x by (simp_all add: slot_of_Some_iff [OF inv])
  have frame: "hashmod hi1 = hashmod hi" "cap hi1 = cap hi" "count hi1 = count hi"
    "length (ids hi1) = length (ids hi)" "length (hash hi1) = length (hash hi)"
    using un by (simp_all add: unlinked_def)
  have "hash_shape hi1"
    using D(1) frame by (simp add: hash_shape_def)
  moreover have "count hi1 = int (card (used hi1))"
    using D(2) frame U by simp
  moreover have "hn_next (ids hi1 ! j) = NULL"
    if "j < length (ids hi1)" "hn_id (ids hi1 ! j) = -1" for j
    using that D(3) [of j] un frame by (simp add: unlinked_def used_def)
  moreover have "inj_on (\<lambda>j. hn_id (ids hi1 ! j)) (used hi1)"
    using D(4) by (simp add: U)
  ultimately have "clear_node hi1 i = Inr (int i, cleared hi1 i)" "hashid_inv (cleared hi1 i)"
    using clear_node_spec [of hi1 i] unlinked_chain [OF inv un] i frame U(1) by auto
  moreover have "slot_of (cleared hi1 i) = (slot_of hi)(x := None)"
    using slot_of_remove [OF inv calculation(2) x] used_bound [OF i(1)] U frame by (simp add: cleared_simps)
  ultimately show ?thesis using frame(2) by (simp add: cleared_simps)
qed

lemma unlinked_head:
  assumes b: "b < length (hash hi)" and seg: "lseg hn_next (arr_map (ids hi)) (hash hi ! b) (a # as) None"
    and elems: "set (a # as) = {j \<in> used hi. bucket hi (hn_id (ids hi ! j)) = b}"
  shows "unlinked hi a b (hi\<lparr>hash := (hash hi)[b := hn_next (ids hi ! a)]\<rparr>)"
proof -
  have "set as = {j \<in> used hi - {a}. bucket hi (hn_id (ids hi ! j)) = b}"
    using elems lseg_distinct [OF seg] by auto
  moreover have "lseg hn_next (arr_map (ids hi)) (hn_next (ids hi ! a)) as None"
    using seg by (auto simp: arr_map_Some_iff)
  ultimately show ?thesis
    using b by (auto simp: unlinked_def)
qed

lemma unlinked_inner:
  assumes seg: "lseg hn_next (arr_map (ids hi)) (hash hi ! b) (ws @ u # i # vs) None"
    and elems: "set (ws @ u # i # vs) = {j \<in> used hi. bucket hi (hn_id (ids hi ! j)) = b}"
  shows "unlinked hi i b (hi\<lparr>ids := (ids hi)[u := (ids hi ! u)\<lparr>hn_next := hn_next (ids hi ! i)\<rparr>]\<rparr>)"
    (is "unlinked hi i b ?hi1")
proof -
  have used: "u \<in> used hi" "i \<in> used hi" "bucket hi (hn_id (ids hi ! u)) = b"
    using elems by auto
  have "lseg hn_next (arr_map (ids ?hi1)) (hash ?hi1 ! b) (ws @ u # vs) None"
    using lseg_unlink [OF seg] used_bound [OF used(1)] used_bound [OF used(2)]
    by (simp add: arr_map_update)
  moreover have "set (ws @ u # vs) = {j \<in> used hi - {i}. bucket hi (hn_id (ids hi ! j)) = b}"
    using elems lseg_distinct [OF seg] by auto
  ultimately have "\<exists>ns. lseg hn_next (arr_map (ids ?hi1)) (hash ?hi1 ! b) ns None \<and>
      set ns = {j \<in> used hi - {i}. bucket hi (hn_id (ids hi ! j)) = b}"
    by blast
  moreover have "hn_id (ids ?hi1 ! j) = hn_id (ids hi ! j)" for j
    using used_bound [OF used(1)] by (simp add: nth_list_update)
  moreover have "\<forall>j. j \<notin> {u \<in> used hi. bucket hi (hn_id (ids hi ! u)) = b} \<longrightarrow>
      ids ?hi1 ! j = ids hi ! j"
    using used used_bound [OF used(1)] by (auto simp: nth_list_update)
  ultimately show ?thesis
    using used unfolding unlinked_def by simp
qed

lemma remove_absent:
  assumes shape: "hash_shape hi" and seg: "lseg hn_next (arr_map (ids hi)) (Some a) (a # as) None"
    and "hash hi ! bucket hi x = Some a" and none: "\<forall>i \<in> set (a # as). hn_id (ids hi ! i) \<noteq> x"
  shows "hashid_remove hi x = Inr (-1, hi)"
proof -
  have "dropWhile (\<lambda>i. hn_id (ids hi ! i) \<noteq> x) as = []" using none by simp
  then show ?thesis
    using assms unlink_loop_spec [OF seg, of "Suc (length (ids hi))" x] lseg_array_length [OF seg]
    by (auto simp: hashid_remove_def arr_map_Some_iff simp del: dropWhile_eq_Nil_conv)
qed

lemma remove_inner:
  assumes inv: "hashid_inv hi"
    and ns: "lseg hn_next (arr_map (ids hi)) (hash hi ! bucket hi x) ns None"
      "set ns = {j \<in> used hi. bucket hi (hn_id (ids hi ! j)) = bucket hi x}"
    and inner: "ns = a # as" "hn_id (ids hi ! a) \<noteq> x" "dropWhile (\<lambda>i. hn_id (ids hi ! i) \<noteq> x) as = i # vs"
  shows "\<exists>hi'. hashid_remove hi x = Inr (int i, hi') \<and> slot_of hi x = Some i \<and>
    hashid_inv hi' \<and> slot_of hi' = (slot_of hi)(x := None) \<and> cap hi' = cap hi"
proof -
  note shape = hashid_invD(1) [OF inv]
  define us where "us = takeWhile (\<lambda>i. hn_id (ids hi ! i) \<noteq> x) as"
  have seg: "lseg hn_next (arr_map (ids hi)) (Some a) (a # as) None" "hash hi ! bucket hi x = Some a"
    using ns(1) inner(1) by auto
  have "as = us @ i # vs"
    using inner(3) by (metis takeWhile_dropWhile_id us_def)
  moreover obtain ws u where u: "a # us = ws @ [u]"
    by (metis append_butlast_last_id list.distinct(1))
  ultimately have ns_eq: "ns = ws @ u # i # vs"
    using inner(1) by (metis append.assoc append_Cons append_Nil)
  have "hn_id (ids hi ! i) = x"
    using inner(3) by (metis (mono_tags) hd_dropWhile list.sel(1) list.distinct(1))
  then have x: "slot_of hi x = Some i"
    using ns(2) ns_eq by (auto simp: slot_of_Some_iff [OF inv])
  show ?thesis
    using clear_unlinked [OF inv x unlinked_inner [OF ns [unfolded ns_eq]]] x inner u shape seg
      unlink_loop_spec [OF seg(1), of "Suc (length (ids hi))" x] lseg_array_length [OF seg(1)]
    by (auto simp: hashid_remove_def arr_map_Some_iff simp flip: us_def)
qed

lemma hashid_remove_slot:
  assumes inv: "hashid_inv hi"
  shows "\<exists>hi'. hashid_remove hi x = Inr (case slot_of hi x of None \<Rightarrow> -1 | Some i \<Rightarrow> int i, hi') \<and>
    hashid_inv hi' \<and> slot_of hi' = (slot_of hi)(x := None) \<and> cap hi' = cap hi"
proof -
  note shape = hashid_invD(1) [OF inv]
  let ?b = "bucket hi x" and ?P = "\<lambda>i. hn_id (ids hi ! i) \<noteq> x"
  have b: "?b < length (hash hi)" by (rule bucket_bound [OF shape])
  obtain ns where ns: "lseg hn_next (arr_map (ids hi)) (hash hi ! ?b) ns None"
    "set ns = {j \<in> used hi. bucket hi (hn_id (ids hi ! j)) = ?b}"
    using hashid_invD(5) [OF inv b] by (auto simp: chain_ok_def)
  note find = chain_find [OF inv ns(2)]
  consider (empty) "ns = []" | (head) a as where "ns = a # as" "hn_id (ids hi ! a) = x"
    | (none) a as where "ns = a # as" "?P a" "dropWhile ?P as = []"
    | (inner) a as i vs where "ns = a # as" "?P a" "dropWhile ?P as = i # vs"
    by (metis list.exhaust)
  then show ?thesis
  proof cases
    case empty
    then show ?thesis
      using inv find ns(1) shape by (auto simp: hashid_remove_def fun_upd_idem)
  next
    case (head a as)
    then have "slot_of hi x = Some a" using find by simp
    from clear_unlinked [OF inv this unlinked_head [OF b]] this head ns shape
    show ?thesis by (auto simp: hashid_remove_def arr_map_Some_iff)
  next
    case (none a as)
    then have all: "\<forall>j \<in> set (a # as). ?P j" by simp
    then have "List.find (\<lambda>i. hn_id (ids hi ! i) = x) ns = None" using none(1) by (simp add: find_None_iff)
    then have "slot_of hi x = None" using find by simp
    moreover have "hashid_remove hi x = Inr (-1, hi)"
      using remove_absent [OF shape _ _ all] ns(1) none(1) by auto
    ultimately show ?thesis using inv by (auto simp: fun_upd_idem)
  next
    case (inner a as i vs)
    then show ?thesis using remove_inner [OF inv ns] by fastforce
  qed
qed

section \<open>Initialisation\<close>

lemma c_int_double:
  assumes "(2::int) ^ Suc j \<le> 2 ^ 30"
  shows "c_int (2 ^ j * 2) = Inr (2 ^ Suc j)"
proof -
  have "in_int (2 ^ Suc j)"
    by (rule in_intI, rule order_trans [of _ 0], simp, simp, rule order_le_less_trans [OF assms], simp)
  then show ?thesis by (simp add: mult.commute)
qed

lemma hashcap_loop_result:
  assumes "mx \<le> 2 ^ 30" and "j \<le> 30" and "30 < fuel + j"
  shows "\<exists>k. hashcap_loop fuel (2 ^ j) mx = Inr (2 ^ k) \<and> k \<le> 30 \<and> mx \<le> 2 ^ k \<and>
    (k = j \<or> 2 ^ k < 2 * mx)"
  using assms
proof (induction fuel arbitrary: j)
  case (Suc fuel)
  show ?case
  proof (cases "2 ^ j < mx")
    case True
    then have "(2::int) ^ j < 2 ^ 30" using Suc.prems(1) by linarith
    then have j: "j < 30" by (rule power_less_imp_less_exp [rotated]) simp
    then have "(2::int) ^ Suc j \<le> 2 ^ 30"
      by (intro power_increasing) auto
    then have "c_int (2 ^ j * 2) = Inr (2 ^ Suc j)"
      by (rule c_int_double)
    then have "hashcap_loop (Suc fuel) (2 ^ j) mx = hashcap_loop fuel (2 ^ Suc j) mx"
      using True by simp
    moreover obtain k where "hashcap_loop fuel (2 ^ Suc j) mx = Inr (2 ^ k)" "k \<le> 30" "mx \<le> 2 ^ k"
        "k = Suc j \<or> 2 ^ k < 2 * mx"
      using Suc.IH [of "Suc j"] Suc.prems j by auto
    ultimately show ?thesis using True by auto
  next
    case False
    then show ?thesis using Suc.prems by auto
  qed
qed simp

lemma hashcap_loop_overflow:
  assumes "2 ^ 30 < mx" and "j \<le> 30" and "30 < fuel + j"
  shows "hashcap_loop fuel (2 ^ j) mx = Inl SignedOverflow"
  using assms
proof (induction fuel arbitrary: j)
  case (Suc fuel)
  have le: "(2::int) ^ j \<le> 2 ^ 30" using Suc.prems(2) by (intro power_increasing) auto
  show ?case
  proof (cases "j = 30")
    case True
    then show ?thesis using Suc.prems by (simp add: c_int_def in_int_def INT_MAX_def)
  next
    case False
    then have "(2::int) ^ Suc j \<le> 2 ^ 30"
      using Suc.prems(2) by (intro power_increasing) auto
    then have "c_int (2 ^ j * 2) = Inr (2 ^ Suc j)"
      by (rule c_int_double)
    then show ?thesis
      using Suc.IH [of "Suc j"] Suc.prems False le by simp
  qed
qed simp

lemma empty_table:
  assumes "0 \<le> mx" and "mx \<le> 2 ^ 30" and "n = (2::nat) ^ k" and "md = 2 ^ k - 1" and "k \<le> 30"
  defines "hi \<equiv> \<lparr>hashmod = md, cap = mx, count = 0,
          ids = replicate (nat mx) \<lparr>hn_id = -1, hn_next = NULL\<rparr>, hash = replicate n NULL\<rparr>"
  shows "hashid_inv hi" and "slot_of hi = Map.empty"
proof -
  have used: "used hi = {}"
    by (auto simp: used_def hi_def)
  show "hashid_inv hi"
  proof
    show "hash_shape hi"
      using assms by (auto simp: hash_shape_def in_int_def INT_MIN_def INT_MAX_def)
    show "chain_ok hi h" if "h < length (hash hi)" for h
      using that by (simp add: chain_ok_def used) (simp add: hi_def)
    show "count hi = int (card (used hi))"
      by (simp add: used) (simp add: hi_def)
    show "inj_on (\<lambda>i. hn_id (ids hi ! i)) (used hi)"
      by (simp add: used)
  qed (auto simp: hi_def)
  show "slot_of hi = Map.empty"
    by (rule ext) (simp add: slot_of_None_iff used)
qed

lemma hashid_init_table:
  assumes "0 \<le> mx" and "mx \<le> 2 ^ 30" and "\<forall>n. mem n"
  shows "\<exists>hi. hashid_init mem mx = Inr hi \<and> hashid_inv hi \<and> slot_of hi = Map.empty \<and> cap hi = mx"
proof -
  obtain k where k: "hashcap_loop 32 16 mx = Inr (2 ^ k)" "k \<le> 30"
    using hashcap_loop_result [OF assms(2), of 4 32] by auto
  have "hashid_init mem mx = Inr \<lparr>hashmod = 2 ^ k - 1, cap = mx, count = 0,
      ids = replicate (nat mx) \<lparr>hn_id = -1, hn_next = NULL\<rparr>, hash = replicate (2 ^ k) NULL\<rparr>"
    using assms(3) by (simp add: hashid_init_def k(1) nat_power_eq)
  then show ?thesis
    using empty_table [OF assms(1,2) refl refl k(2)] by auto
qed

section \<open>The interface of the table\<close>

text \<open>
  What a user of the table relies on: it is a partial map \<open>slots\<close> from ids to slot numbers
  below \<open>room\<close>, one slot per id.  \<open>ok_id\<close> says which ids may be inserted.
\<close>

locale id_table =
  fixes inv :: "'t \<Rightarrow> bool"
    and slots :: "'t \<Rightarrow> int \<rightharpoonup> nat"
    and room :: "'t \<Rightarrow> nat"
    and ok_id :: "'t \<Rightarrow> int \<Rightarrow> bool"
    and lookup :: "'t \<Rightarrow> int \<Rightarrow> int res"
    and ins :: "'t \<Rightarrow> int \<Rightarrow> (int \<times> 't) res"
    and rem :: "'t \<Rightarrow> int \<Rightarrow> (int \<times> 't) res"
    and full :: "'t \<Rightarrow> bool"
  assumes lookup_law: "inv t \<Longrightarrow> lookup t x = Inr (case slots t x of None \<Rightarrow> -1 | Some i \<Rightarrow> int i)"
    and insert_law: "inv t \<Longrightarrow> ok_id t x \<Longrightarrow> slots t x = None \<Longrightarrow> \<not> full t \<Longrightarrow>
      \<exists>i t'. ins t x = Inr (int i, t') \<and> inv t' \<and> i < room t \<and> i \<notin> ran (slots t) \<and>
        slots t' = (slots t)(x \<mapsto> i) \<and> room t' = room t \<and> ok_id t' = ok_id t"
    and remove_law: "inv t \<Longrightarrow>
      \<exists>t'. rem t x = Inr (case slots t x of None \<Rightarrow> -1 | Some i \<Rightarrow> int i, t') \<and> inv t' \<and>
        slots t' = (slots t)(x := None) \<and> room t' = room t \<and> ok_id t' = ok_id t"
    and full_law: "inv t \<Longrightarrow> full t \<longleftrightarrow> ran (slots t) = {..<room t}"
    and slot_bound: "inv t \<Longrightarrow> slots t x = Some i \<Longrightarrow> i < room t"
    and slot_inj: "inv t \<Longrightarrow> slots t x = Some i \<Longrightarrow> slots t y = Some i \<Longrightarrow> x = y"
begin

lemma lookup_found: "inv t \<Longrightarrow> lookup t x = Inr r \<Longrightarrow> 0 \<le> r \<longleftrightarrow> slots t x = Some (nat r)"
  by (auto simp: lookup_law split: option.splits)

lemma insert_then_lookup:
  assumes "inv t" and "ok_id t x" and "slots t x = None" and "\<not> full t"
  shows "\<exists>i t'. ins t x = Inr (int i, t') \<and> inv t' \<and> i < room t \<and> lookup t' x = Inr (int i) \<and>
    (\<forall>y. y \<noteq> x \<longrightarrow> lookup t' y = lookup t y) \<and> (\<forall>y. lookup t y \<noteq> Inr (int i))"
proof -
  obtain i t' where t': "ins t x = Inr (int i, t')" "inv t'" "i < room t" "i \<notin> ran (slots t)"
      "slots t' = (slots t)(x \<mapsto> i)"
    using insert_law [OF assms] by auto
  have "lookup t y \<noteq> Inr (int i)" for y
    using t'(4) by (auto simp: lookup_law [OF assms(1)] ran_def split: option.splits)
  with t' show ?thesis
    by (auto simp: lookup_law [OF assms(1)] lookup_law [OF t'(2)])
qed

lemma insert_then_remove:
  assumes "inv t" and "ok_id t x" and "slots t x = None" and "\<not> full t"
  shows "\<exists>i t' t''. ins t x = Inr (int i, t') \<and> rem t' x = Inr (int i, t'') \<and> inv t'' \<and>
    slots t'' = slots t \<and> full t'' = full t"
proof -
  obtain i t' where t': "ins t x = Inr (int i, t')" "inv t'" "slots t' = (slots t)(x \<mapsto> i)"
      "room t' = room t"
    using insert_law [OF assms] by auto
  obtain t'' where t'': "rem t' x = Inr (int i, t'')" "inv t''" "slots t'' = (slots t')(x := None)"
      "room t'' = room t'"
    using remove_law [OF t'(2), of x] t'(3) by auto
  have "slots t'' = slots t"
    using t'(3) t''(3) assms(3) by (simp add: fun_upd_idem)
  with t' t'' show ?thesis
    using full_law [OF t''(2)] full_law [OF assms(1)] by auto
qed

lemma remove_then_lookup:
  assumes "inv t"
  shows "\<exists>r t'. rem t x = Inr (r, t') \<and> inv t' \<and> lookup t x = Inr r \<and> lookup t' x = Inr (-1) \<and>
    (\<forall>y. y \<noteq> x \<longrightarrow> lookup t' y = lookup t y) \<and> (0 \<le> r \<longrightarrow> \<not> full t')"
proof -
  obtain t' where t': "rem t x = Inr (case slots t x of None \<Rightarrow> -1 | Some i \<Rightarrow> int i, t')" "inv t'"
      "slots t' = (slots t)(x := None)" "room t' = room t"
    using remove_law [OF assms, of x] by auto
  have "\<not> full t'" if "slots t x = Some i" for i
  proof -
    have "i \<notin> ran (slots t')"
    proof
      assume "i \<in> ran (slots t')"
      then obtain y where "y \<noteq> x" "slots t y = Some i"
        by (auto simp: t'(3) ran_def split: if_splits)
      with slot_inj [OF assms that] show False by blast
    qed
    then show ?thesis
      using full_law [OF t'(2)] slot_bound [OF assms that] t'(4) by auto
  qed
  then have "0 \<le> (case slots t x of None \<Rightarrow> -1 | Some i \<Rightarrow> int i) \<longrightarrow> \<not> full t'"
    by (cases "slots t x") simp_all
  moreover have "lookup t' x = Inr (-1)"
    by (simp add: lookup_law [OF t'(2)] t'(3))
  moreover have "\<forall>y. y \<noteq> x \<longrightarrow> lookup t' y = lookup t y"
    by (simp add: lookup_law [OF assms] lookup_law [OF t'(2)] t'(3))
  ultimately show ?thesis
    using t'(1,2) lookup_law [OF assms, of x] by blast
qed

end

lemma ran_slot_of: "hashid_inv hi \<Longrightarrow> ran (slot_of hi) = used hi"
  by (auto simp: ran_def slot_of_Some_iff)

interpretation hid: id_table hashid_inv slot_of "\<lambda>hi. nat (cap hi)" insertable hashid_lookup
  hashid_insert hashid_remove hashid_full
proof (unfold_locales, goal_cases)
  case (1 t x)
  then show ?case by (rule hashid_lookup_slot)
next
  case (2 t x)
  obtain i where i: "hashid_insert t x = Inr (int i, linked t x i)" "i < length (ids t)"
      "hn_id (ids t ! i) = -1"
    using hashid_insert_linked [OF 2(1,2,4)] .
  have x: "x \<noteq> -1" using 2(2) by (simp add: insertable_def)
  have "i \<notin> ran (slot_of t)"
    using i(3) by (simp add: ran_slot_of [OF 2(1)] used_def)
  moreover have "cap (linked t x i) = cap t" "insertable (linked t x i) = insertable t"
    by (simp_all add: linked_def insertable_def fun_eq_iff)
  ultimately show ?case
    using i linked_inv [OF 2(1) i(2,3) x 2(3)] linked_slot_of [OF 2(1) i(2,3) x 2(3)]
      hash_shape_cap(3) [OF hashid_invD(1) [OF 2(1)]] by auto
next
  case (3 t x)
  then show ?case
    using hashid_remove_slot [OF 3, of x] by (auto simp: insertable_def fun_eq_iff)
next
  case (4 t)
  then show ?case
    using full_iff_used [OF 4] hash_shape_cap(3) [OF hashid_invD(1) [OF 4]]
    by (simp add: ran_slot_of)
next
  case (5 t x i)
  then show ?case
    using hash_shape_cap(3) [OF hashid_invD(1) [OF 5(1)]]
    by (auto simp: slot_of_Some_iff dest: used_bound)
next
  case (6 t x i y)
  then show ?case by (simp add: slot_of_Some_iff)
qed

lemma full_empty:
  assumes "hashid_inv hi" and "slot_of hi = Map.empty"
  shows "hashid_full hi \<longleftrightarrow> cap hi = 0"
  using hash_shape_cap(1) [OF hashid_invD(1) [OF assms(1)]]
  by (simp add: hid.full_law [OF assms(1)] assms(2) eq_commute [of "{}"] lessThan_eq_iff
      flip: lessThan_0)

lemma insert_minus_one:
  \<comment> \<open>the id -1 makes \<open>hashid_insert\<close> read before the node array\<close>
  assumes "2 \<le> cap hi"
  shows "hashid_insert hi (-1) = Inl OutOfBounds"
proof -
  have "c_int (0 + -1) = Inr (-1)"
    by (simp add: in_int_def INT_MIN_def INT_MAX_def)
  moreover have "c_rem (-1) (cap hi) = Inr (-1)"
    using assms by (simp add: c_rem_def)
  moreover have "arr_get (ids hi) (-1) = Inl OutOfBounds"
    by (simp add: arr_get_def)
  ultimately have "insert_scan (ids hi) (cap hi) (-1) 0 = Inl OutOfBounds"
    using assms by (subst insert_scan.simps) simp
  then show ?thesis by (simp add: hashid_insert_def)
qed

section \<open>Properties\<close>

text \<open>C34. The bound on the capacity.  Given memory, \<open>hashid_init\<close> makes an empty table for every capacity from 0 to \<open>2 ^ 30\<close>
  (every lookup misses, and the table is full exactly when the capacity is 0), and for every larger
  one the doubling of the size of the hash array overflows \<^verbatim>\<open>int\<close>, with or without memory.\<close>

theorem hashid_init_bound:
  assumes "0 \<le> mx" and "mx \<le> 2 ^ 30 \<longrightarrow> (\<forall>n. mem n)"
  shows "if mx \<le> 2 ^ 30
    then \<exists>hi. hashid_init mem mx = Inr hi \<and> hashid_inv hi \<and> cap hi = mx \<and>
      (\<forall>x. hashid_lookup hi x = Inr (-1)) \<and> (hashid_full hi \<longleftrightarrow> mx = 0)
    else hashid_init mem mx = Inl SignedOverflow"
proof (cases "mx \<le> 2 ^ 30")
  case True
  then obtain hi where hi: "hashid_init mem mx = Inr hi" "hashid_inv hi" "slot_of hi = Map.empty" "cap hi = mx"
    using hashid_init_table [OF assms(1)] assms(2) by blast
  then show ?thesis
    using True full_empty [OF hi(2,3)] hid.lookup_law [OF hi(2)] by simp
next
  case False
  then show ?thesis
    using hashcap_loop_overflow [of mx 4 32] by (simp add: hashid_init_def)
qed

theorem hashid_init_bound_witness:
  "(\<exists>hi. hashid_init (\<lambda>_. True) (2 ^ 30) = Inr hi \<and> hashid_lookup hi 5 = Inr (-1) \<and> \<not> hashid_full hi) \<and>
    hashid_init (\<lambda>_. True) (2 ^ 30 + 1) = Inl SignedOverflow"
  using hashid_init_bound [of "2 ^ 30" "\<lambda>_. True"] hashid_init_bound [of "2 ^ 30 + 1" "\<lambda>_. True"] by auto

end
