(* ===== verification/C_Text.thy ===== *)
theory C_Text
  imports C_Base
begin

text \<open>
  The text functions of the C library that the programs use, on arrays of bytes.  A \<^verbatim>\<open>char *\<close>
  is an array and an index into it; a function that runs along a string faults when it leaves
  the array before it meets the terminating zero.  Numbers are printed by \<open>dec\<close> (\<^verbatim>\<open>%d\<close>), \<open>udec\<close>
  (\<^verbatim>\<open>%u\<close>) and \<open>hex\<close> (\<^verbatim>\<open>%x\<close>) and read by \<open>strtol\<close> and \<open>strtoul\<close>, which saturate at the bounds of a
  64-bit \<^verbatim>\<open>long\<close>; \<open>strtol_dec\<close> is the round trip.
\<close>

type_synonym byte = "8 word"

definition str :: "string \<Rightarrow> byte list" where
  "str s = map of_char s"

section \<open>Strings in arrays\<close>

definition c_str :: "byte list \<Rightarrow> int \<Rightarrow> byte list res" where
  \<comment> \<open>the string that starts at an index of an array, without its terminating zero\<close>
  "c_str arr i =
     (if 0 \<le> i \<and> 0 \<in> set (drop (nat i) arr)
      then Inr (takeWhile (\<lambda>b. b \<noteq> 0) (drop (nat i) arr)) else Inl OutOfBounds)"

fun memcmp_eq :: "byte list \<Rightarrow> byte list \<Rightarrow> nat \<Rightarrow> bool res" where
  \<comment> \<open>\<^verbatim>\<open>memcmp(xs, ys, n) == 0\<close>, byte by byte up to the first difference\<close>
  "memcmp_eq xs ys 0 = Inr True"
| "memcmp_eq (x # xs) (y # ys) (Suc n) = (if x = y then memcmp_eq xs ys n else Inr False)"
| "memcmp_eq _ _ (Suc n) = Inl OutOfBounds"

definition strchr :: "byte list \<Rightarrow> byte \<Rightarrow> nat option" where
  \<comment> \<open>the index of the first occurrence in a string\<close>
  "strchr s c = (if c \<in> set s then Some (length (takeWhile (\<lambda>b. b \<noteq> c) s)) else None)"

definition strsep :: "byte list \<Rightarrow> int option \<Rightarrow> byte \<Rightarrow> (int option \<times> byte list \<times> int option) res" where
  \<comment> \<open>\<^verbatim>\<open>strsep(&p, sep)\<close>: the token, the array with the separator overwritten, and the new \<^verbatim>\<open>p\<close>\<close>
  "strsep arr p sep = (case p of
       None \<Rightarrow> Inr (None, arr, None)
     | Some i \<Rightarrow> check (0 \<le> i) OutOfBounds (
         let k = nat i + length (takeWhile (\<lambda>b. b \<noteq> 0 \<and> b \<noteq> sep) (drop (nat i) arr)) in
         if length arr \<le> k then Inl OutOfBounds
         else if arr ! k = 0 then Inr (Some i, arr, None)
         else Inr (Some i, arr[k := 0], Some (int k + 1))))"

section \<open>Reading numbers\<close>

definition isspace :: "byte \<Rightarrow> bool" where
  "isspace b \<longleftrightarrow> b = 32 \<or> 9 \<le> b \<and> b \<le> 13"

definition digit_val :: "byte \<Rightarrow> int option" where
  "digit_val b =
     (if 48 \<le> b \<and> b \<le> 57 then Some (uint b - 48)
      else if 97 \<le> b \<and> b \<le> 122 then Some (uint b - 87)
      else if 65 \<le> b \<and> b \<le> 90 then Some (uint b - 55)
      else None)"

fun read_digits :: "int \<Rightarrow> int \<Rightarrow> byte list \<Rightarrow> int" where
  "read_digits base acc [] = acc"
| "read_digits base acc (b # bs) = (case digit_val b of
       Some d \<Rightarrow> if d < base then read_digits base (acc * base + d) bs else acc
     | None \<Rightarrow> acc)"

definition strip_prefix :: "int \<Rightarrow> byte list \<Rightarrow> byte list" where
  "strip_prefix base s = (case s of
       z # x # r \<Rightarrow> if base = 16 \<and> z = 48 \<and> (x = 120 \<or> x = 88) then r else s
     | _ \<Rightarrow> s)"

definition read_number :: "int \<Rightarrow> byte list \<Rightarrow> bool \<times> int" where
  \<comment> \<open>the sign and the value\<close>
  "read_number base s = (case dropWhile isspace s of
       [] \<Rightarrow> (False, 0)
     | b # bs \<Rightarrow>
         if b = 45 then (True, read_digits base 0 (strip_prefix base bs))
         else if b = 43 then (False, read_digits base 0 (strip_prefix base bs))
         else (False, read_digits base 0 (strip_prefix base (b # bs))))"

definition LONG_MAX :: int where "LONG_MAX = 2 ^ 63 - 1"

definition strtol :: "int \<Rightarrow> byte list \<Rightarrow> int" where
  "strtol base s = (let (neg, v) = read_number base s in
     if neg then (if v > LONG_MAX then - LONG_MAX - 1 else - v)
     else (if v > LONG_MAX then LONG_MAX else v))"

definition strtoul :: "int \<Rightarrow> byte list \<Rightarrow> int" where
  "strtoul base s = (let (neg, v) = read_number base s in
     if v \<ge> 2 ^ 64 then 2 ^ 64 - 1 else if neg then (- v) mod 2 ^ 64 else v)"

definition atoi :: "byte list \<Rightarrow> int" where
  "atoi s = to_int (strtol 10 s)"

section \<open>Printing numbers\<close>

fun digits :: "nat \<Rightarrow> nat \<Rightarrow> byte list" where
  "digits base n = (if base < 2 \<or> n < base then [of_nat (if n < 10 then 48 + n else 87 + n)]
     else digits base (n div base) @ [of_nat (if n mod base < 10 then 48 + n mod base else 87 + n mod base)])"

declare digits.simps [simp del]

definition dec :: "int \<Rightarrow> byte list" where
  "dec n = (if n < 0 then 45 # digits 10 (nat (- n)) else digits 10 (nat n))"

definition udec :: "32 word \<Rightarrow> byte list" where
  "udec w = digits 10 (unat w)"

definition hex :: "32 word \<Rightarrow> byte list" where
  "hex w = digits 16 (unat w)"

section \<open>Lemmas\<close>

lemma blank_nonzero [simp]: "(32 :: byte) \<noteq> 0" "(0 :: byte) \<noteq> 32"
  by code_simp+

lemma str_append [simp]: "str (s @ t) = str s @ str t"
  by (simp add: str_def)

definition digit_char :: "nat \<Rightarrow> byte" where
  "digit_char d = of_nat (if d < 10 then 48 + d else 87 + d)"

lemma digits_rec:
  "2 \<le> base \<Longrightarrow> digits base n =
     (if n < base then [digit_char n] else digits base (n div base) @ [digit_char (n mod base)])"
  by (subst digits.simps) (simp add: digit_char_def)

lemma digit_char_val:
  assumes "d < 16"
  shows "digit_val (digit_char d) = Some (int d)"
    and "(48 \<le> digit_char d \<and> digit_char d \<le> 57) \<or> (97 \<le> digit_char d \<and> digit_char d \<le> 102)"
proof -
  have all: "\<forall>d \<in> set [0..<16]. digit_val (digit_char d) = Some (int d) \<and>
      ((48 \<le> digit_char d \<and> digit_char d \<le> 57) \<or> (97 \<le> digit_char d \<and> digit_char d \<le> 102))"
    by code_simp
  have "d \<in> set [0..<16]" using assms by simp
  from bspec [OF all this] show "digit_val (digit_char d) = Some (int d)"
    and "(48 \<le> digit_char d \<and> digit_char d \<le> 57) \<or> (97 \<le> digit_char d \<and> digit_char d \<le> 102)"
    by blast+
qed

lemma digits_nonempty [simp]: "digits base n \<noteq> []"
  by (subst digits.simps) simp

lemma digits_chars:
  assumes "2 \<le> base" and "b \<in> set (digits base n)"
  obtains d where "d < base" and "b = digit_char d"
  using assms(2)
proof (induction n arbitrary: thesis rule: less_induct)
  case (less n)
  show thesis
  proof (cases "n < base \<or> b = digit_char (n mod base)")
    case True
    then show thesis
      using less.prems assms(1) less.prems(1) [of "n mod base"]
      by (cases "n < base") (auto simp: digits_rec)
  next
    case False
    then have "b \<in> set (digits base (n div base))" "n div base < n"
      using less.prems(2) assms(1) by (auto simp: digits_rec [of base n])
    then show thesis using less.IH less.prems(1) by blast
  qed
qed

lemma read_digits_append:
  assumes "\<And>b. b \<in> set xs \<Longrightarrow> \<exists>d. digit_val b = Some d \<and> d < base"
  shows "read_digits base acc (xs @ ys) = read_digits base (read_digits base acc xs) ys"
  using assms
proof (induction xs arbitrary: acc)
  case (Cons b xs)
  then obtain d where "digit_val b = Some d" "d < base" by auto
  then show ?case using Cons by simp
qed simp

lemma read_digits_digits:
  assumes base: "2 \<le> base" "base \<le> 16"
  shows "read_digits (int base) 0 (digits base n) = int n"
proof (induction n rule: less_induct)
  case (less n)
  show ?case
  proof (cases "n < base")
    case True
    then show ?thesis using base by (simp add: digits_rec digit_char_val)
  next
    case False
    have m: "n mod base < base" "n div base < n" using base False by auto
    then have "n mod base < 16" using base(2) by simp
    have "\<exists>d. digit_val b = Some d \<and> d < int base" if b: "b \<in> set (digits base (n div base))" for b
    proof -
      obtain k where "k < base" "b = digit_char k" using digits_chars [OF base(1) b] .
      then show ?thesis using digit_char_val(1) [of k] base(2) by simp
    qed
    then have "read_digits (int base) 0 (digits base n) =
        read_digits (int base) (read_digits (int base) 0 (digits base (n div base))) [digit_char (n mod base)]"
      using False base by (simp add: digits_rec [of base n] read_digits_append del: read_digits.simps)
    also have "\<dots> = int (n div base) * int base + int (n mod base)"
      using less.IH [OF m(2)] m(1) \<open>n mod base < 16\<close> by (simp add: digit_char_val)
    also have "\<dots> = int n"
      by (metis div_mult_mod_eq of_nat_add of_nat_mult)
    finally show ?thesis .
  qed
qed

lemma digits10_digit:
  assumes "b \<in> set (digits 10 n)"
  shows "48 \<le> b \<and> b \<le> 57"
proof -
  obtain d where d: "d < 10" "b = digit_char d" using digits_chars [OF _ assms] by auto
  have "d \<in> {0, 1, 2, 3, 4, 5, 6, 7, 8, 9}" using d(1) by auto
  then show ?thesis using d(2) by (auto simp: digit_char_def)
qed

lemma read_digits_dec: "read_digits 10 0 (digits 10 n) = int n"
  using read_digits_digits [of 10 n] by simp

lemma strip_prefix_10 [simp]: "strip_prefix 10 s = s"
  by (simp add: strip_prefix_def split: list.splits)

lemma strtol_dec:
  assumes "in_int n"
  shows "strtol 10 (dec n) = n"
proof -
  have v: "\<bar>n\<bar> \<le> LONG_MAX" using in_intD [OF assms] by (auto simp: LONG_MAX_def)
  obtain b bs where d: "digits 10 (nat \<bar>n\<bar>) = b # bs" by (cases "digits 10 (nat \<bar>n\<bar>)") auto
  then have b: "48 \<le> b" "b \<le> 57" using digits10_digit [of b "nat \<bar>n\<bar>"] by auto
  have "\<not> b \<le> 13" "b \<noteq> 32" "b \<noteq> 45" "b \<noteq> 43"
    using b order_trans [OF b(1), of 13] by auto
  then have "\<not> isspace b" "b \<noteq> 45" "b \<noteq> 43"
    by (auto simp: isspace_def)
  moreover have "read_digits 10 0 (b # bs) = \<bar>n\<bar>" using read_digits_dec [of "nat \<bar>n\<bar>"] d by simp
  ultimately have "read_number 10 (dec n) = (n < 0, \<bar>n\<bar>)"
    using d by (auto simp: dec_def read_number_def isspace_def simp del: read_digits.simps)
  then show ?thesis using v by (auto simp: strtol_def)
qed

lemma dec_chars: "b \<in> set (dec n) \<Longrightarrow> b = 45 \<or> 48 \<le> b \<and> b \<le> 57"
  using digits10_digit by (fastforce simp: dec_def split: if_splits)

lemma dec_no_zero [simp]: "0 \<notin> set (dec n)"
  using dec_chars [of 0 n] by auto

lemma dec_no_space [simp]: "32 \<notin> set (dec n)"
  using dec_chars [of 32 n] by auto

lemma dec_nonempty [simp]: "dec n \<noteq> []"
  by (simp add: dec_def)

lemma strsep_token:
  assumes "sep \<notin> set tok" and "0 \<notin> set tok" and "sep \<noteq> 0"
  shows "strsep (pre @ tok @ sep # rest) (Some (int (length pre))) sep =
    Inr (Some (int (length pre)), pre @ tok @ 0 # rest, Some (int (length pre) + int (length tok) + 1))"
proof -
  have "takeWhile (\<lambda>b. b \<noteq> 0 \<and> b \<noteq> sep) (tok @ sep # rest) = tok"
    using assms(1,2) by (subst takeWhile_append2) auto
  then show ?thesis using assms(3) by (simp add: strsep_def Let_def list_update_append)
qed

lemma c_str_terminated:
  assumes "0 \<notin> set s"
  shows "c_str (pre @ s @ 0 # rest) (int (length pre)) = Inr s"
proof -
  have "takeWhile (\<lambda>b. b \<noteq> 0) (s @ 0 # rest) = s"
    using assms by (metis (mono_tags, lifting) takeWhile_tail takeWhile_eq_all_conv)
  then show ?thesis by (simp add: c_str_def)
qed

lemma memcmp_eq_prefix:
  assumes "n \<le> length xs" and "n \<le> length ys"
  shows "memcmp_eq xs ys n = Inr (take n xs = take n ys)"
  using assms by (induction xs ys n rule: memcmp_eq.induct) auto

lemma digits_length: "2 \<le> base \<Longrightarrow> n < base ^ Suc k \<Longrightarrow> length (digits base n) \<le> Suc k"
proof (induction k arbitrary: n)
  case 0
  then show ?case by (simp add: digits.simps [of base n])
next
  case (Suc k)
  have "n div base < base ^ Suc k"
    using Suc.prems by (simp add: less_mult_imp_div_less mult.commute)
  then show ?case
    using Suc.IH [of "n div base"] Suc.prems(1) by (simp add: digits.simps [of base n])
qed

lemma dec_length:
  assumes "in_int n"
  shows "length (dec n) \<le> 11"
proof -
  have "nat \<bar>n\<bar> < 10 ^ Suc 9" using in_intD [OF assms] by auto
  from digits_length [OF _ this] show ?thesis
    by (auto simp: dec_def abs_if split: if_splits)
qed

lemma udec_length: "length (udec w) \<le> 10"
proof -
  have "unat w < 10 ^ Suc 9" using unsigned_less [of w, where ?'a = nat] by simp
  from digits_length [OF _ this] show ?thesis by (simp add: udec_def)
qed

lemma hex_length: "length (hex w) \<le> 8"
proof -
  have "unat w < 16 ^ Suc 7" using unsigned_less [of w, where ?'a = nat] by simp
  from digits_length [OF _ this] show ?thesis by (simp add: hex_def)
qed

lemma hex_chars:
  assumes "b \<in> set (hex w)"
  shows "(48 \<le> b \<and> b \<le> 57) \<or> (97 \<le> b \<and> b \<le> 102)"
proof -
  obtain d where "d < 16" "b = digit_char d" using digits_chars [of 16 b] assms by (auto simp: hex_def)
  then show ?thesis using digit_char_val(2) by blast
qed

lemma hex_not [simp]: "0 \<notin> set (hex w)" "32 \<notin> set (hex w)"
  using hex_chars [of 0 w] hex_chars [of 32 w] by auto

lemma strtoul_hex: "strtoul 16 (hex w) = uint w"
proof -
  obtain b bs where h: "hex w = b # bs" by (cases "hex w") (auto simp: hex_def)
  then have b: "(48 \<le> b \<and> b \<le> 57) \<or> (97 \<le> b \<and> b \<le> 102)" using hex_chars [of b w] by simp
  have "\<not> b \<le> 13" "b \<noteq> 32" "b \<noteq> 45" "b \<noteq> 43"
    using b order_trans [of 48 b 13] order_trans [of 97 b 13] by auto
  then have nb: "\<not> isspace b" "b \<noteq> 45" "b \<noteq> 43"
    by (auto simp: isspace_def)
  have "strip_prefix 16 (hex w) = hex w"
    using hex_chars [of 120 w] hex_chars [of 88 w] by (auto simp: strip_prefix_def split: list.splits)
  then have "read_number 16 (hex w) = (False, uint w)"
    using h nb read_digits_digits [of 16 "unat w"]
    by (simp add: read_number_def hex_def del: read_digits.simps)
  moreover have "uint w < 2 ^ 64" using uint_lt2p [of w] by simp
  ultimately show ?thesis by (simp add: strtoul_def)
qed

end
