(* ===== verification/Databuffer.thy ===== *)
theory Databuffer
  imports C_Text
begin

unbundle bit_operations_syntax

text \<open>
  The receive buffer of a connection, \<^verbatim>\<open>databuffer.h\<close>: a queue of messages, each with a
  block of received bytes, whose nodes come from a pool with a free list.  The memory
  (\<open>dheap\<close>) has the message nodes, the pool blocks and the data blocks apart.  The nodes of
  the pool block at address \<open>b\<close> are at \<open>b\<close>, \<open>b + 1\<close>, \<dots>, \<open>b + MESSAGEPOOL - 1\<close>.

  \<open>db_holds\<close> is the abstraction: a buffer holds a list of bytes, the received bytes that were
  not read yet.  \<open>R\<close> and \<open>RB\<close> are the nodes and data blocks of everyone else; every operation
  leaves them alone (\<open>frame\<close>).  The locale \<open>byte_queue\<close> is the interface: a push appends, a
  read takes from the front.  The loops take fuel above the number of nodes of the memory,
  which is below the break \<open>brk\<close>.
\<close>

section \<open>Data\<close>




definition MESSAGEPOOL :: nat where "MESSAGEPOOL = 1023"

record message =
  m_buffer :: ptr
  m_size :: int
  m_next :: ptr

record databuffer =
  db_header :: int
  db_offset :: int
  db_size :: int
  db_head :: ptr
  db_tail :: ptr

record messagepool =
  mp_pool :: ptr
  mp_freelist :: ptr

record dheap =
  msgs :: "addr \<rightharpoonup> message"
  pools :: "addr \<rightharpoonup> ptr"          \<comment> \<open>the \<^verbatim>\<open>next\<close> field of the pool block at an address\<close>
  bufs :: "addr \<rightharpoonup> byte list"    \<comment> \<open>the data blocks\<close>
  brk :: addr                     \<comment> \<open>no node or pool block was ever at this address or above\<close>

section \<open>Operations\<close>

fun free_pools :: "nat \<Rightarrow> dheap \<Rightarrow> ptr \<Rightarrow> dheap res" where
  "free_pools 0 h p = Inl Diverges"
| "free_pools (Suc fuel) h p =
     (case p of
        None \<Rightarrow> Inr h
      | Some tmp \<Rightarrow>
          bind_res (deref (pools h) p) (\<lambda>nx.
          bind_res (dealloc (pools h) p) (\<lambda>ps.
          free_pools fuel
            (h\<lparr>pools := ps, msgs := msgs h |` (- {tmp..<tmp + MESSAGEPOOL})\<rparr>) nx)))"

definition messagepool_free :: "messagepool \<Rightarrow> dheap \<Rightarrow> (messagepool \<times> dheap) res" where
  "messagepool_free mp h =
     bind_res (free_pools (Suc (brk h)) h (mp_pool mp)) (\<lambda>h'.
     Inr (mp\<lparr>mp_pool := NULL, mp_freelist := NULL\<rparr>, h'))"

definition return_message ::
  "databuffer \<Rightarrow> messagepool \<Rightarrow> dheap \<Rightarrow> (databuffer \<times> messagepool \<times> dheap) res" where
  "return_message db mp h =
     bind_res (deref (msgs h) (db_head db)) (\<lambda>m.
     bind_res (if m_next m = NULL
               then check (db_tail db = db_head db) AssertFail (Inr (db\<lparr>db_head := NULL, db_tail := NULL\<rparr>))
               else Inr (db\<lparr>db_head := m_next m\<rparr>)) (\<lambda>db'.
     bind_res (dealloc (bufs h) (m_buffer m)) (\<lambda>bs.
     bind_res (assign (msgs h) (db_head db)
        (\<lambda>m. m\<lparr>m_buffer := NULL, m_size := 0, m_next := mp_freelist mp\<rparr>)) (\<lambda>ms.
     Inr (db', mp\<lparr>mp_freelist := db_head db\<rparr>, h\<lparr>bufs := bs, msgs := ms\<rparr>)))))"

definition mem_read :: "dheap \<Rightarrow> ptr \<Rightarrow> int \<Rightarrow> int \<Rightarrow> byte list res" where
  \<comment> \<open>the bytes that \<^verbatim>\<open>memcpy(_, p + off, n)\<close> reads\<close>
  "mem_read h p off n =
     (if n = 0 then Inr []
      else bind_res (deref (bufs h) p) (\<lambda>bs.
        check (0 \<le> off \<and> 0 \<le> n \<and> off + n \<le> int (length bs)) OutOfBounds
          (Inr (take (nat n) (drop (nat off) bs)))))"

fun read_loop :: "nat \<Rightarrow> databuffer \<Rightarrow> messagepool \<Rightarrow> dheap \<Rightarrow> int \<Rightarrow> byte list \<Rightarrow>
    (byte list \<times> databuffer \<times> messagepool \<times> dheap) res" where
  "read_loop 0 db mp h sz out = Inl Diverges"
| "read_loop (Suc fuel) db mp h sz out =
     bind_res (deref (msgs h) (db_head db)) (\<lambda>current.
     bind_res (c_int (m_size current - db_offset db)) (\<lambda>bsz.
     if bsz > sz
     then bind_res (mem_read h (m_buffer current) (db_offset db) sz) (\<lambda>bs.
          bind_res (c_int (db_offset db + sz)) (\<lambda>off.
          Inr (out @ bs, db\<lparr>db_offset := off\<rparr>, mp, h)))
     else if bsz = sz
     then bind_res (mem_read h (m_buffer current) (db_offset db) sz) (\<lambda>bs.
          bind_res (return_message (db\<lparr>db_offset := 0\<rparr>) mp h) (\<lambda>s.
          Inr (out @ bs, s)))
     else bind_res (mem_read h (m_buffer current) (db_offset db) bsz) (\<lambda>bs.
          bind_res (return_message db mp h) (\<lambda>(db', mp', h').
          bind_res (c_int (sz - bsz)) (\<lambda>sz'.
          read_loop fuel (db'\<lparr>db_offset := 0\<rparr>) mp' h' sz' (out @ bs))))))"

definition databuffer_read :: "databuffer \<Rightarrow> messagepool \<Rightarrow> dheap \<Rightarrow> int \<Rightarrow>
    (byte list \<times> databuffer \<times> messagepool \<times> dheap) res" where
  \<comment> \<open>the bytes written to \<^verbatim>\<open>buffer\<close> come first in the result\<close>
  "databuffer_read db mp h sz =
     check (db_size db \<ge> sz) AssertFail (
     bind_res (c_int (db_size db - sz)) (\<lambda>n.
     read_loop (Suc (brk h)) (db\<lparr>db_size := n\<rparr>) mp h sz []))"

definition init_pool :: "addr \<Rightarrow> (addr \<rightharpoonup> message) \<Rightarrow> (addr \<rightharpoonup> message)" where
  \<comment> \<open>the loop over the new pool block; node 0 is not initialised (its fields are set by the caller)\<close>
  "init_pool temp ms =
     (let ms0 = ms(temp \<mapsto> \<lparr>m_buffer = NULL, m_size = 0, m_next = NULL\<rparr>);
          ms1 = fold (\<lambda>i m. m(temp + i \<mapsto> \<lparr>m_buffer = NULL, m_size = 0, m_next = Some (temp + (i + 1))\<rparr>))
                  [1..<MESSAGEPOOL] ms0
      in ms1(temp + (MESSAGEPOOL - 1) \<mapsto> \<lparr>m_buffer = NULL, m_size = 0, m_next = NULL\<rparr>))"

definition take_message :: "(nat \<Rightarrow> bool) \<Rightarrow> messagepool \<Rightarrow> dheap \<Rightarrow> (ptr \<times> messagepool \<times> dheap) res" where
  \<comment> \<open>the first half of \<^verbatim>\<open>databuffer_push\<close>: a node from the free list, or from a new pool block\<close>
  "take_message mem mp h =
     (if mp_freelist mp \<noteq> NULL
      then bind_res (deref (msgs h) (mp_freelist mp)) (\<lambda>m.
           Inr (mp_freelist mp, mp\<lparr>mp_freelist := m_next m\<rparr>, h))
      else check (mem (8 + MESSAGEPOOL * 24)) OutOfMemory (
           let mpl = brk h in
           Inr (Some mpl, mp\<lparr>mp_pool := Some mpl, mp_freelist := Some (mpl + 1)\<rparr>,
                h\<lparr>msgs := init_pool mpl (msgs h), pools := (pools h)(mpl \<mapsto> mp_pool mp),
                  brk := mpl + MESSAGEPOOL\<rparr>)))"

definition databuffer_push :: "(nat \<Rightarrow> bool) \<Rightarrow> databuffer \<Rightarrow> messagepool \<Rightarrow> dheap \<Rightarrow> ptr \<Rightarrow> int \<Rightarrow>
    (databuffer \<times> messagepool \<times> dheap) res" where
  "databuffer_push mem db mp h data sz =
     bind_res (take_message mem mp h) (\<lambda>(m, mp', h').
     bind_res (assign (msgs h') m
        (\<lambda>n. n\<lparr>m_buffer := data, m_size := sz, m_next := NULL\<rparr>)) (\<lambda>ms.
     bind_res (c_int (db_size db + sz)) (\<lambda>n.
     if db_head db = NULL
     then check (db_tail db = NULL) AssertFail
          (Inr (db\<lparr>db_size := n, db_head := m, db_tail := m\<rparr>, mp', h'\<lparr>msgs := ms\<rparr>))
     else bind_res (assign ms (db_tail db) (\<lambda>n. n\<lparr>m_next := m\<rparr>)) (\<lambda>ms'.
          Inr (db\<lparr>db_size := n, db_tail := m\<rparr>, mp', h'\<lparr>msgs := ms'\<rparr>)))))"

definition be2 :: "byte \<Rightarrow> byte \<Rightarrow> int" where
  "be2 b0 b1 = sint (push_bit 8 (ucast b0) OR ucast b1 :: 32 word)"

definition be4 :: "byte \<Rightarrow> byte \<Rightarrow> byte \<Rightarrow> byte \<Rightarrow> int" where
  \<comment> \<open>an \<^verbatim>\<open>int\<close>: a set top bit of \<open>b0\<close> makes it negative\<close>
  "be4 b0 b1 b2 b3 = sint (push_bit 24 (ucast b0) OR push_bit 16 (ucast b1) OR
     push_bit 8 (ucast b2) OR ucast b3 :: 32 word)"

definition header_value :: "int \<Rightarrow> byte list \<Rightarrow> int res" where
  \<comment> \<open>bytes of \<^verbatim>\<open>plen\<close> that were not read are not defined\<close>
  "header_value header_size plen =
     (if header_size = 2
      then (case plen of b0 # b1 # _ \<Rightarrow> Inr (be2 b0 b1) | _ \<Rightarrow> Inl OutOfBounds)
      else (case plen of b0 # b1 # b2 # b3 # _ \<Rightarrow> Inr (be4 b0 b1 b2 b3) | _ \<Rightarrow> Inl OutOfBounds))"

definition databuffer_readheader :: "databuffer \<Rightarrow> messagepool \<Rightarrow> dheap \<Rightarrow> int \<Rightarrow>
    (int \<times> databuffer \<times> messagepool \<times> dheap) res" where
  "databuffer_readheader db mp h header_size =
     bind_res
       (if db_header db = 0
        then if db_size db < header_size then Inr (True, db, mp, h)
             else check (header_size \<le> 4) OutOfBounds (
               bind_res (databuffer_read db mp h header_size) (\<lambda>(plen, db1, mp', h').
               bind_res (header_value header_size plen) (\<lambda>hd.
               Inr (False, db1\<lparr>db_header := hd\<rparr>, mp', h'))))
        else Inr (False, db, mp, h))
       (\<lambda>(short, db', mp', h').
          if short then Inr (-1, db', mp', h')
          else if db_size db' < db_header db' then Inr (-1, db', mp', h')
          else Inr (db_header db', db', mp', h'))"

definition databuffer_reset :: "databuffer \<Rightarrow> databuffer" where
  "databuffer_reset db = db\<lparr>db_header := 0\<rparr>"

definition databuffer_zero :: databuffer where
  \<comment> \<open>a buffer filled with zeros by \<^verbatim>\<open>memset\<close>\<close>
  "databuffer_zero = \<lparr>db_header = 0, db_offset = 0, db_size = 0, db_head = NULL, db_tail = NULL\<rparr>"

fun clear_loop :: "nat \<Rightarrow> databuffer \<Rightarrow> messagepool \<Rightarrow> dheap \<Rightarrow>
    (databuffer \<times> messagepool \<times> dheap) res" where
  "clear_loop 0 db mp h = Inl Diverges"
| "clear_loop (Suc fuel) db mp h =
     (if db_head db \<noteq> NULL
      then bind_res (return_message db mp h) (\<lambda>(db', mp', h'). clear_loop fuel db' mp' h')
      else Inr (db, mp, h))"

definition databuffer_clear :: "databuffer \<Rightarrow> messagepool \<Rightarrow> dheap \<Rightarrow>
    (databuffer \<times> messagepool \<times> dheap) res" where
  "databuffer_clear db mp h =
     bind_res (clear_loop (Suc (brk h)) db mp h) (\<lambda>(db', mp', h'). Inr (databuffer_zero, mp', h'))"

section \<open>Representation\<close>

type_synonym qitem = "addr \<times> addr \<times> byte list"  \<comment> \<open>a node, its data block and the bytes there\<close>

abbreviation q_node :: "qitem \<Rightarrow> addr" where "q_node \<equiv> fst"

abbreviation q_buf :: "qitem \<Rightarrow> addr" where "q_buf \<equiv> \<lambda>q. fst (snd q)"

abbreviation q_bytes :: "qitem \<Rightarrow> byte list" where "q_bytes \<equiv> \<lambda>q. snd (snd q)"

definition q_content :: "qitem list \<Rightarrow> byte list" where
  "q_content qs = concat (map q_bytes qs)"

primrec mq :: "dheap \<Rightarrow> ptr \<Rightarrow> qitem list \<Rightarrow> bool" where
  "mq h p [] \<longleftrightarrow> p = NULL"
| "mq h p (q # qs) \<longleftrightarrow> p = Some (q_node q) \<and> bufs h (q_buf q) = Some (q_bytes q) \<and>
     int (length (q_bytes q)) \<le> INT_MAX \<and>
     (\<exists>nx. msgs h (q_node q) =
        Some \<lparr>m_buffer = Some (q_buf q), m_size = int (length (q_bytes q)), m_next = nx\<rparr> \<and> mq h nx qs)"

definition below_brk :: "dheap \<Rightarrow> bool" where
  "below_brk h \<longleftrightarrow> (\<forall>a. brk h \<le> a \<longrightarrow> msgs h a = None \<and> pools h a = None)"

definition pool_inv :: "messagepool \<Rightarrow> dheap \<Rightarrow> bool" where
  \<comment> \<open>every node belongs to a block of the pool's list, and every block is on the list\<close>
  "pool_inv mp h \<longleftrightarrow> (\<exists>ps. lseg (\<lambda>p. p) (pools h) (mp_pool mp) ps NULL \<and>
     dom (pools h) = set ps \<and> dom (msgs h) = (\<Union>b \<in> set ps. {b..<b + MESSAGEPOOL}))"

definition db_rep :: "addr set \<Rightarrow> addr set \<Rightarrow> qitem list \<Rightarrow> addr list \<Rightarrow>
    databuffer \<Rightarrow> messagepool \<Rightarrow> dheap \<Rightarrow> bool" where
  "db_rep R RB qs fs db mp h \<longleftrightarrow>
     mq h (db_head db) qs \<and> db_tail db = last_ptr (map q_node qs) NULL \<and>
     lseg m_next (msgs h) (mp_freelist mp) fs NULL \<and>
     distinct (map q_node qs @ fs) \<and> distinct (map q_buf qs) \<and>
     set (map q_node qs @ fs) \<inter> R = {} \<and> set (map q_buf qs) \<inter> RB = {} \<and>
     R \<subseteq> {..<brk h} \<and> below_brk h \<and> pool_inv mp h \<and>
     (\<forall>b d. bufs h b = Some d \<longrightarrow> b \<in> set (map q_buf qs) \<union> RB)"

definition frame :: "addr set \<Rightarrow> addr set \<Rightarrow> dheap \<Rightarrow> dheap \<Rightarrow> bool" where
  "frame R RB h h' \<longleftrightarrow>
     (\<forall>a \<in> R. msgs h' a = msgs h a) \<and> (\<forall>b \<in> RB. bufs h' b = bufs h b) \<and> brk h \<le> brk h'"

lemma pool_inv_cong:
  "pools h' = pools h \<Longrightarrow> mp_pool mp' = mp_pool mp \<Longrightarrow> dom (msgs h') = dom (msgs h) \<Longrightarrow>
   pool_inv mp' h' = pool_inv mp h"
  by (simp add: pool_inv_def)

lemma pool_inv_dom:
  assumes "pool_inv mp h"
  shows "dom (msgs h) = (\<Union>b \<in> dom (pools h). {b..<b + MESSAGEPOOL})"
proof -
  obtain ps where "dom (pools h) = set ps" "dom (msgs h) = (\<Union>b \<in> set ps. {b..<b + MESSAGEPOOL})"
    using assms by (auto simp: pool_inv_def)
  then show ?thesis by simp
qed

lemma frame_refl [simp]: "frame R RB h h"
  by (simp add: frame_def)

lemma frame_trans: "frame R RB h h' \<Longrightarrow> frame R RB h' h'' \<Longrightarrow> frame R RB h h''"
  by (auto simp: frame_def)

lemma q_content_simps [simp]:
  "q_content [] = []"
  "q_content (q # qs) = q_bytes q @ q_content qs"
  "q_content (qs @ rs) = q_content qs @ q_content rs"
  by (simp_all add: q_content_def)

lemma mq_hd: "mq h p qs \<Longrightarrow> p = hd_ptr (map q_node qs) NULL"
  by (cases qs) auto

lemma mq_cong:
  assumes "\<And>q. q \<in> set qs \<Longrightarrow> msgs h' (q_node q) = msgs h (q_node q)"
    and "\<And>q. q \<in> set qs \<Longrightarrow> bufs h' (q_buf q) = bufs h (q_buf q)"
  shows "mq h' p qs = mq h p qs"
  using assms by (induction qs arbitrary: p) auto

lemma below_brk_length:
  assumes "below_brk h" and "distinct as" and "\<And>a. a \<in> set as \<Longrightarrow> msgs h a \<noteq> None"
  shows "length as \<le> brk h"
proof -
  have "set as \<subseteq> {..<brk h}"
    using assms(1,3) unfolding below_brk_def by (meson lessThan_iff linorder_not_le subsetI)
  then have "card (set as) \<le> brk h"
    using card_mono [of "{..<brk h}" "set as"] by simp
  then show ?thesis using assms(2) by (simp add: distinct_card)
qed

lemma mq_dom: "mq h p qs \<Longrightarrow> a \<in> set (map q_node qs) \<Longrightarrow> msgs h a \<noteq> None"
  by (induction qs arbitrary: p) auto

lemma db_rep_length: "db_rep R RB qs fs db mp h \<Longrightarrow> length qs \<le> brk h"
  using below_brk_length [of h "map q_node qs"] mq_dom [of h "db_head db" qs]
  by (auto simp: db_rep_def)

lemma mem_read_item:
  assumes "bufs h b = Some bs" and "0 \<le> off" and "0 \<le> n" and "off + n \<le> int (length bs)"
  shows "mem_read h (Some b) off n = Inr (take (nat n) (drop (nat off) bs))"
  using assms by (simp add: mem_read_def)

section \<open>Giving a message back\<close>

lemma return_message_rep:
  assumes rep: "db_rep R RB (q # qs) fs db mp h"
  shows "\<exists>db' mp' h'. return_message db mp h = Inr (db', mp', h') \<and>
    db_rep R RB qs (q_node q # fs) db' mp' h' \<and> frame R RB h h' \<and>
    db_header db' = db_header db \<and> db_offset db' = db_offset db \<and> db_size db' = db_size db \<and>
    bufs h' = (bufs h)(q_buf q := None) \<and> brk h' = brk h \<and> pools h' = pools h \<and>
    mp_pool mp' = mp_pool mp"
proof -
  let ?a = "q_node q"
  obtain nx where nx: "db_head db = Some ?a" "bufs h (q_buf q) = Some (q_bytes q)"
      "msgs h ?a = Some \<lparr>m_buffer = Some (q_buf q), m_size = int (length (q_bytes q)), m_next = nx\<rparr>"
      "mq h nx qs"
    using rep by (auto simp: db_rep_def)
  define db' where "db' = db\<lparr>db_head := nx, db_tail := last_ptr (map q_node qs) NULL\<rparr>"
  define mp' where "mp' = mp\<lparr>mp_freelist := Some ?a\<rparr>"
  define h' where "h' = h\<lparr>bufs := (bufs h)(q_buf q := None),
    msgs := (msgs h)(?a \<mapsto> \<lparr>m_buffer = NULL, m_size = 0, m_next = mp_freelist mp\<rparr>)\<rparr>"
  have nx_null: "nx = NULL \<longleftrightarrow> qs = []"
    using mq_hd [OF nx(4)] by simp
  have tail: "db_tail db = last_ptr (map q_node (q # qs)) NULL"
    using rep by (simp add: db_rep_def)
  have "qs \<noteq> [] \<Longrightarrow> db_tail db = last_ptr (map q_node qs) NULL"
    using tail by (cases qs) simp_all
  then have run: "return_message db mp h = Inr (db', mp', h')"
    using nx nx_null tail by (cases "qs = []") (auto simp: return_message_def db'_def mp'_def h'_def)
  have a_out: "?a \<notin> set (map q_node qs)" "?a \<notin> set fs" "q_buf q \<notin> set (map q_buf qs)"
    using rep by (auto simp: db_rep_def)
  have dom: "\<forall>b d. bufs h' b = Some d \<longrightarrow> b \<in> set (map q_buf qs) \<union> RB"
    using rep by (auto simp: db_rep_def h'_def split: if_splits)
  have "mq h' nx qs"
    using nx(4) a_out(1,3) unfolding set_map notin_image_iff
    by (subst mq_cong [where h = h]) (simp_all add: h'_def)
  moreover have "lseg m_next (msgs h') (Some ?a) (?a # fs) NULL"
    using rep a_out by (simp add: h'_def db_rep_def)
  moreover have "below_brk h'"
    using rep nx(3) by (auto simp: below_brk_def h'_def db_rep_def)
  moreover have "pool_inv mp' h'"
    using rep nx(3) by (subst pool_inv_cong [where h = h and mp = mp])
      (auto simp: mp'_def h'_def db_rep_def)
  ultimately have "db_rep R RB qs (?a # fs) db' mp' h'"
    using rep dom by (auto simp: db_rep_def db'_def mp'_def) (auto simp: h'_def)
  moreover have "frame R RB h h'"
    using rep by (auto simp: frame_def h'_def db_rep_def)
  ultimately show ?thesis
    using run by (auto simp: db'_def mp'_def h'_def)
qed

section \<open>Reading\<close>

definition off_ok :: "databuffer \<Rightarrow> qitem list \<Rightarrow> bool" where
  \<comment> \<open>what was read of the first message is a proper prefix of it\<close>
  "off_ok db qs \<longleftrightarrow> 0 \<le> db_offset db \<and>
     (db_offset db = 0 \<or> qs \<noteq> [] \<and> db_offset db < int (length (q_bytes (hd qs))))"

definition unread :: "databuffer \<Rightarrow> qitem list \<Rightarrow> byte list" where
  "unread db qs = drop (nat (db_offset db)) (q_content qs)"

lemma unread_Cons:
  "off_ok db (q # qs) \<Longrightarrow> unread db (q # qs) = drop (nat (db_offset db)) (q_bytes q) @ q_content qs"
  by (auto simp: unread_def off_ok_def)

lemma read_loop_partial:
  assumes rep: "db_rep R RB (q # qs) fs db mp h" and off: "off_ok db (q # qs)"
    and sz: "0 \<le> sz" "sz < int (length (q_bytes q)) - db_offset db"
  shows "read_loop (Suc fuel) db mp h sz out =
      Inr (out @ take (nat sz) (unread db (q # qs)), db\<lparr>db_offset := db_offset db + sz\<rparr>, mp, h)"
    and "off_ok (db\<lparr>db_offset := db_offset db + sz\<rparr>) (q # qs)"
    and "unread (db\<lparr>db_offset := db_offset db + sz\<rparr>) (q # qs) = drop (nat sz) (unread db (q # qs))"
proof -
  obtain nx where q: "db_head db = Some (q_node q)" "bufs h (q_buf q) = Some (q_bytes q)"
      "msgs h (q_node q) =
         Some \<lparr>m_buffer = Some (q_buf q), m_size = int (length (q_bytes q)), m_next = nx\<rparr>"
      "int (length (q_bytes q)) \<le> INT_MAX"
    using rep by (auto simp: db_rep_def)
  have off0: "0 \<le> db_offset db" using off by (simp add: off_ok_def)
  have ints: "in_int (int (length (q_bytes q)) - db_offset db)" "in_int (db_offset db + sz)"
    using q(4) off0 sz by (auto simp: in_int_def INT_MIN_def)
  have "mem_read h (Some (q_buf q)) (db_offset db) sz =
      Inr (take (nat sz) (drop (nat (db_offset db)) (q_bytes q)))"
    using q(2) off0 sz by (simp add: mem_read_item)
  then show "read_loop (Suc fuel) db mp h sz out =
      Inr (out @ take (nat sz) (unread db (q # qs)), db\<lparr>db_offset := db_offset db + sz\<rparr>, mp, h)"
    using q sz ints off0 by (simp add: unread_Cons [OF off])
  show off': "off_ok (db\<lparr>db_offset := db_offset db + sz\<rparr>) (q # qs)"
    using off0 sz by (simp add: off_ok_def)
  show "unread (db\<lparr>db_offset := db_offset db + sz\<rparr>) (q # qs) = drop (nat sz) (unread db (q # qs))"
    using off0 sz unfolding unread_Cons [OF off] unread_Cons [OF off']
    by (simp add: nat_add_distrib add.commute [of "nat sz"])
qed

lemma read_loop_front:
  assumes rep: "db_rep R RB (q # qs) fs db mp h" and off: "off_ok db (q # qs)"
    and sz: "int (length (q_bytes q)) - db_offset db \<le> sz" "sz \<le> INT_MAX"
    and front: "front = drop (nat (db_offset db)) (q_bytes q)"
  shows "read_loop (Suc fuel) db mp h sz out =
      (if sz = int (length front) then bind_res (return_message (db\<lparr>db_offset := 0\<rparr>) mp h) (\<lambda>s. Inr (out @ front, s))
       else bind_res (return_message db mp h) (\<lambda>(db', mp', h').
         read_loop fuel (db'\<lparr>db_offset := 0\<rparr>) mp' h' (sz - int (length front)) (out @ front)))"
    and "unread db (q # qs) = front @ q_content qs" and "int (length front) \<le> sz"
proof -
  obtain nx where q: "db_head db = Some (q_node q)" "bufs h (q_buf q) = Some (q_bytes q)"
      "msgs h (q_node q) =
         Some \<lparr>m_buffer = Some (q_buf q), m_size = int (length (q_bytes q)), m_next = nx\<rparr>"
      "int (length (q_bytes q)) \<le> INT_MAX"
    using rep by (auto simp: db_rep_def)
  have off0: "0 \<le> db_offset db" "db_offset db \<le> int (length (q_bytes q))" using off by (auto simp: off_ok_def)
  then have len: "int (length (q_bytes q)) - db_offset db = int (length front)" by (simp add: front)
  then have ints: "in_int (int (length front))" "in_int (sz - int (length front))"
    using q(4) sz off0 by (simp_all add: in_int_def INT_MIN_def)
  have mem: "mem_read h (Some (q_buf q)) (db_offset db) (int (length front)) = Inr front"
    using q(2) off0 by (simp add: mem_read_item front)
  show "read_loop (Suc fuel) db mp h sz out =
      (if sz = int (length front) then bind_res (return_message (db\<lparr>db_offset := 0\<rparr>) mp h) (\<lambda>s. Inr (out @ front, s))
       else bind_res (return_message db mp h) (\<lambda>(db', mp', h').
         read_loop fuel (db'\<lparr>db_offset := 0\<rparr>) mp' h' (sz - int (length front)) (out @ front)))"
    using q(1,3) mem ints sz(1) len by (simp del: length_drop)
  show "unread db (q # qs) = front @ q_content qs" using unread_Cons [OF off] front by simp
  show "int (length front) \<le> sz" using sz(1) len by simp
qed

abbreviation read_ok :: "addr set \<Rightarrow> addr set \<Rightarrow> qitem list \<Rightarrow> databuffer \<Rightarrow> dheap \<Rightarrow> int \<Rightarrow> byte list \<Rightarrow>
    (byte list \<times> databuffer \<times> messagepool \<times> dheap) res \<Rightarrow> bool" where
  \<comment> \<open>the result of reading \<open>sz\<close> bytes of the messages \<open>qs\<close>\<close>
  "read_ok R RB qs db h sz out r \<equiv> \<exists>qs' fs' db' mp' h'.
    r = Inr (out @ take (nat sz) (unread db qs), db', mp', h') \<and>
    db_rep R RB qs' fs' db' mp' h' \<and> off_ok db' qs' \<and> unread db' qs' = drop (nat sz) (unread db qs) \<and>
    db_header db' = db_header db \<and> db_size db' = db_size db \<and> frame R RB h h' \<and>
    (\<forall>b. b \<notin> set (map q_buf qs) \<longrightarrow> bufs h' b = bufs h b)"

lemma read_loop_whole:
  \<comment> \<open>the rest of the first message is read, and the message given back\<close>
  assumes rep: "db_rep R RB (q # qs) fs db mp h" and off: "off_ok db (q # qs)"
    and sz: "sz = int (length (q_bytes q)) - db_offset db" "sz \<le> INT_MAX"
  shows "read_ok R RB (q # qs) db h sz out (read_loop (Suc fuel) db mp h sz out)"
proof -
  define front where "front = drop (nat (db_offset db)) (q_bytes q)"
  note step = read_loop_front [OF rep off _ sz(2) front_def]
  have len: "sz = int (length front)" using off sz(1) by (auto simp: off_ok_def front_def)
  have "db_rep R RB (q # qs) fs (db\<lparr>db_offset := 0\<rparr>) mp h" using rep by (simp add: db_rep_def)
  from return_message_rep [OF this] obtain db' mp' h' where r:
    "return_message (db\<lparr>db_offset := 0\<rparr>) mp h = Inr (db', mp', h')"
    "db_rep R RB qs (q_node q # fs) db' mp' h'" "frame R RB h h'"
    "db_header db' = db_header db" "db_offset db' = 0" "db_size db' = db_size db"
    "bufs h' = (bufs h)(q_buf q := None)"
    by auto
  have "read_loop (Suc fuel) db mp h sz out = Inr (out @ front, db', mp', h')"
    unfolding step(1) [OF eq_refl [OF sz(1) [symmetric]]] using r(1) len by simp
  moreover have "off_ok db' qs" "unread db' qs = q_content qs" using r(5) by (simp_all add: off_ok_def unread_def)
  ultimately show ?thesis
    using r(2-7) step(2) [OF eq_refl [OF sz(1) [symmetric]]] len
    by (intro exI [of _ qs] exI [of _ "q_node q # fs"] exI [of _ db'] exI [of _ mp'] exI [of _ h']) simp
qed

lemma read_loop_past:
  \<comment> \<open>reading goes on with the next message\<close>
  assumes rep: "db_rep R RB (q # qs) fs db mp h" and off: "off_ok db (q # qs)"
    and sz: "int (length (q_bytes q)) - db_offset db < sz" "sz \<le> int (length (unread db (q # qs)))" "sz \<le> INT_MAX"
    and front: "front = drop (nat (db_offset db)) (q_bytes q)"
    and rec: "\<And>fs db mp h sz out. db_rep R RB qs fs db mp h \<Longrightarrow> off_ok db qs \<Longrightarrow> 0 \<le> sz \<Longrightarrow>
      sz \<le> int (length (unread db qs)) \<Longrightarrow> sz \<le> INT_MAX \<Longrightarrow> qs \<noteq> [] \<Longrightarrow> read_ok R RB qs db h sz out (read_loop fuel db mp h sz out)"
  shows "read_ok R RB (q # qs) db h sz out (read_loop (Suc fuel) db mp h sz out)"
proof -
  note step = read_loop_front [OF rep off less_imp_le [OF sz(1)] sz(3) front]
  have len: "int (length front) < sz" using off sz(1) front by (auto simp: off_ok_def)
  from return_message_rep [OF rep] obtain db' mp' h' where r: "return_message db mp h = Inr (db', mp', h')"
    "db_rep R RB qs (q_node q # fs) db' mp' h'" "frame R RB h h'" "db_header db' = db_header db" "db_size db' = db_size db"
    "bufs h' = (bufs h)(q_buf q := None)"
    by auto
  let ?db = "db'\<lparr>db_offset := 0\<rparr>" and ?sz = "sz - int (length front)"
  have new: "unread ?db qs = q_content qs" "off_ok ?db qs" "db_rep R RB qs (q_node q # fs) ?db mp' h'"
    using r(2) by (simp_all add: unread_def off_ok_def db_rep_def)
  have "qs \<noteq> []" "?sz \<le> int (length (q_content qs))" using len sz(2) step(2) by auto
  then obtain qs' fs' db'' mp'' h'' where t:
    "read_loop fuel ?db mp' h' ?sz (out @ front) = Inr ((out @ front) @ take (nat ?sz) (q_content qs), db'', mp'', h'')"
    "db_rep R RB qs' fs' db'' mp'' h''" "off_ok db'' qs'" "unread db'' qs' = drop (nat ?sz) (q_content qs)"
    "db_header db'' = db_header db" "db_size db'' = db_size db" "frame R RB h' h''"
    "\<forall>b. b \<notin> set (map q_buf qs) \<longrightarrow> bufs h'' b = bufs h' b"
    using rec [OF new(3,2), of ?sz "out @ front"] r(4,5) new(1) len sz(3) by auto
  have "nat sz = length front + nat ?sz" using len by linarith
  then show ?thesis
    using step(1,2) len r(1,6) t(1-6,8) frame_trans [OF r(3) t(7)]
    by (intro exI [of _ qs'] exI [of _ fs'] exI [of _ db''] exI [of _ mp''] exI [of _ h'']) simp
qed

lemma read_loop_rep:
  assumes "db_rep R RB qs fs db mp h" and "off_ok db qs" and "0 \<le> sz"
    and "sz \<le> int (length (unread db qs))" and "sz \<le> INT_MAX" and "qs \<noteq> []" and "length qs < fuel"
  shows "read_ok R RB qs db h sz out (read_loop fuel db mp h sz out)"
  using assms
proof (induction fuel arbitrary: qs fs db mp h sz out)
  case (Suc fuel)
  obtain q qs1 where qs: "qs = q # qs1" using Suc.prems(6) by (cases qs) auto
  note rep = Suc.prems(1) [unfolded qs] and off = Suc.prems(2) [unfolded qs]
  consider (less) "sz < int (length (q_bytes q)) - db_offset db" | (eq) "sz = int (length (q_bytes q)) - db_offset db"
    | (more) "int (length (q_bytes q)) - db_offset db < sz" by linarith
  then show ?case
  proof cases
    case less
    have "db_rep R RB (q # qs1) fs (db\<lparr>db_offset := db_offset db + sz\<rparr>) mp h"
      using rep by (simp add: db_rep_def)
    then show ?thesis
      using read_loop_partial [OF rep off Suc.prems(3) less] unfolding qs
      by (intro exI [of _ "q # qs1"] exI [of _ fs] exI [of _ "db\<lparr>db_offset := db_offset db + sz\<rparr>"]
          exI [of _ mp] exI [of _ h]) simp
  next
    case eq
    show ?thesis unfolding qs by (rule read_loop_whole [OF rep off eq Suc.prems(5)])
  next
    case more
    have "length qs1 < fuel" using Suc.prems(7) qs by simp
    then show ?thesis
      unfolding qs using Suc.IH Suc.prems(4,5) qs by (intro read_loop_past [OF rep off more _ _ refl]) simp_all
  qed
qed simp

section \<open>Pushing\<close>

lemma fold_pool:
  "fold (\<lambda>i m. m(temp + i \<mapsto> g i)) [Suc 0..<n] ms x =
     (if temp < x \<and> x < temp + n then Some (g (x - temp)) else ms x)"
proof (induction n)
  case (Suc n)
  then show ?case
    by (cases "n = 0") (auto simp: less_Suc_eq)
qed auto

lemma init_pool_at:
  "init_pool temp ms x =
     (if x = temp then Some \<lparr>m_buffer = NULL, m_size = 0, m_next = NULL\<rparr>
      else if temp < x \<and> x < temp + MESSAGEPOOL
      then Some \<lparr>m_buffer = NULL, m_size = 0,
             m_next = (if Suc x = temp + MESSAGEPOOL then NULL else Some (Suc x))\<rparr>
      else ms x)"
  by (auto simp: init_pool_def Let_def fold_pool MESSAGEPOOL_def)

lemma pool_inv_grow:
  assumes "pool_inv mp h" and "below_brk h"
  shows "pool_inv (mp\<lparr>mp_pool := Some (brk h), mp_freelist := f\<rparr>)
    (h\<lparr>msgs := init_pool (brk h) (msgs h), pools := (pools h)(brk h \<mapsto> mp_pool mp),
       brk := brk h + MESSAGEPOOL\<rparr>)"
proof -
  obtain ps where ps: "lseg (\<lambda>p. p) (pools h) (mp_pool mp) ps NULL" "dom (pools h) = set ps"
      "dom (msgs h) = (\<Union>b \<in> set ps. {b..<b + MESSAGEPOOL})"
    using assms(1) by (auto simp: pool_inv_def)
  have "brk h \<notin> set ps"
    using ps(2) assms(2) by (auto simp: below_brk_def)
  moreover have "dom (init_pool (brk h) (msgs h)) = {brk h..<brk h + MESSAGEPOOL} \<union> dom (msgs h)"
    by (auto simp: init_pool_at dom_def MESSAGEPOOL_def)
  ultimately show ?thesis
    using ps unfolding pool_inv_def by (intro exI [of _ "brk h # ps"]) auto
qed

lemma take_message_grow:
  assumes rep: "db_rep R RB qs [] db mp h" and mem: "\<forall>n. mem n"
  shows "\<exists>a fs' mp' h'. take_message mem mp h = Inr (Some a, mp', h') \<and>
    db_rep (insert a R) RB qs fs' db mp' h' \<and> a \<notin> R \<and> msgs h' a \<noteq> None \<and>
    frame R RB h h' \<and> bufs h' = bufs h"
proof -
  have free: "mp_freelist mp = NULL" using rep by (simp add: db_rep_def)
  let ?a = "brk h"
  define fs' where "fs' = [Suc ?a..<?a + MESSAGEPOOL]"
  define h' where "h' = h\<lparr>msgs := init_pool ?a (msgs h), pools := (pools h)(?a \<mapsto> mp_pool mp),
     brk := ?a + MESSAGEPOOL\<rparr>"
  define mp' where "mp' = mp\<lparr>mp_pool := Some ?a, mp_freelist := Some (?a + 1)\<rparr>"
  have run: "take_message mem mp h = Inr (Some ?a, mp', h')"
    using free mem by (simp add: take_message_def h'_def mp'_def Let_def)
  have bb: "below_brk h" and R: "R \<subseteq> {..<brk h}" using rep by (simp_all add: db_rep_def)
  have old: "msgs h' a = msgs h a" if "a < brk h" for a
    using that by (simp add: h'_def init_pool_at)
  have below: "q_node q < brk h" if "q \<in> set qs" for q
    using that rep bb mq_dom [of h "db_head db" qs "q_node q"]
    by (force simp: db_rep_def below_brk_def not_le [symmetric])
  have "mq h' (db_head db) qs"
    using rep old below by (subst mq_cong [where h = h]) (auto simp: db_rep_def h'_def)
  moreover have "lseg m_next (msgs h') (Some (?a + 1)) fs' NULL"
    unfolding fs'_def by (simp del: upt_Suc, rule lseg_range)
      (auto simp: h'_def init_pool_at MESSAGEPOOL_def)
  moreover have "below_brk h'"
    using bb by (auto simp: below_brk_def h'_def init_pool_at MESSAGEPOOL_def)
  moreover have "set (map q_node qs) \<inter> set fs' = {}"
    using below by (force simp: fs'_def)
  moreover have "?a \<notin> set (map q_node qs)" "?a \<notin> set fs'"
    using below by (force simp: fs'_def)+
  moreover have "R \<inter> set fs' = {}" "insert ?a R \<subseteq> {..<?a + MESSAGEPOOL}"
    using R by (auto simp: fs'_def MESSAGEPOOL_def)
  moreover have "pool_inv mp' h'"
    unfolding mp'_def h'_def using rep by (intro pool_inv_grow) (simp_all add: db_rep_def)
  ultimately have "db_rep (insert ?a R) RB qs fs' db mp' h'"
    using rep unfolding db_rep_def by (auto simp: mp'_def) (auto simp: h'_def fs'_def)
  moreover have "frame R RB h h'"
    using R old by (auto simp: frame_def) (auto simp: h'_def)
  moreover have "?a \<notin> R" "msgs h' ?a \<noteq> None" "bufs h' = bufs h"
    using R by (auto simp: h'_def init_pool_at)
  ultimately show ?thesis using run by blast
qed

lemma take_message_rep:
  assumes rep: "db_rep R RB qs fs db mp h" and mem: "\<forall>n. mem n"
  shows "\<exists>a fs' mp' h'. take_message mem mp h = Inr (Some a, mp', h') \<and>
    db_rep (insert a R) RB qs fs' db mp' h' \<and> a \<notin> R \<and> msgs h' a \<noteq> None \<and>
    frame R RB h h' \<and> bufs h' = bufs h"
proof (cases fs)
  case (Cons a fs')
  then obtain n where n: "mp_freelist mp = Some a" "msgs h a = Some n"
      "lseg m_next (msgs h) (m_next n) fs' NULL"
    using rep by (auto simp: db_rep_def)
  have "a < brk h"
    using rep n(2) by (auto simp: db_rep_def below_brk_def not_le [symmetric])
  moreover have "pool_inv (mp\<lparr>mp_freelist := m_next n\<rparr>) h = pool_inv mp h"
    by (simp add: pool_inv_def)
  ultimately show ?thesis
    using n rep Cons by (auto simp: take_message_def db_rep_def)
next
  case Nil
  then show ?thesis using take_message_grow rep mem by blast
qed

lemma mq_snoc:
  assumes "mq h p qs" and "qs \<noteq> []" and "distinct (map q_node (qs @ [q]))"
    and "bufs h (q_buf q) = Some (q_bytes q)" and "int (length (q_bytes q)) \<le> INT_MAX"
    and "bufs h' = bufs h"
    and "msgs h (q_node (last qs)) = Some l"
    and "msgs h' = (msgs h)(q_node q \<mapsto>
           \<lparr>m_buffer = Some (q_buf q), m_size = int (length (q_bytes q)), m_next = NULL\<rparr>,
         q_node (last qs) \<mapsto> l\<lparr>m_next := Some (q_node q)\<rparr>)"
  shows "mq h' p (qs @ [q])"
  using assms
proof (induction qs arbitrary: p)
  case (Cons r rs)
  show ?case
  proof (cases "rs = []")
    case True
    then show ?thesis using Cons.prems by auto
  next
    case False
    obtain nx where nx: "p = Some (q_node r)" "bufs h (q_buf r) = Some (q_bytes r)"
       "int (length (q_bytes r)) \<le> INT_MAX" "mq h nx rs"
       "msgs h (q_node r) = Some \<lparr>m_buffer = Some (q_buf r), m_size = int (length (q_bytes r)), m_next = nx\<rparr>"
      using Cons.prems(1) by auto
    have "q_node (last rs) \<in> q_node ` set rs" using False by simp
    moreover have "q_node r \<notin> q_node ` set rs" "q_node r \<noteq> q_node q"
      using Cons.prems(3) by auto
    ultimately have "q_node r \<noteq> q_node (last rs)" "q_node r \<noteq> q_node q"
      by metis+
    moreover have "mq h' nx (rs @ [q])"
      using Cons.prems False by (intro Cons.IH [OF nx(4)]) auto
    ultimately show ?thesis
      using nx Cons.prems(6,8) False by simp
  qed
qed simp

lemma push_first:
  assumes rep: "db_rep R (insert b RB) qs fs db mp h"
    and data: "bufs h b = Some d" "b \<notin> RB"
    and size: "in_int (db_size db + int (length d))" "int (length d) \<le> INT_MAX"
    and a: "take_message mem mp h = Inr (Some a, mp', h1)"
      "db_rep (insert a R) (insert b RB) qs fs' db mp' h1" "a \<notin> R" "msgs h1 a = Some n" "frame R RB h h1"
      "bufs h1 = bufs h"
    and empty: "qs = []"
  shows "\<exists>fs' db' mp' h'. databuffer_push mem db mp h (Some b) (int (length d)) = Inr (db', mp', h') \<and>
    db_rep R RB (qs @ [(a, b, d)]) fs' db' mp' h' \<and> db_header db' = db_header db \<and>
    db_offset db' = db_offset db \<and> db_size db' = db_size db + int (length d) \<and>
    frame R RB h h' \<and> bufs h' = bufs h"
proof -
  let ?item = "\<lparr>m_buffer = Some b, m_size = int (length d), m_next = NULL\<rparr>"
  have new: "a \<notin> set (map q_node qs)" "a \<notin> set fs'" using a(2) by (auto simp: db_rep_def)
  have seg: "lseg m_next (msgs h1) (mp_freelist mp') fs' NULL" using a(2) by (simp add: db_rep_def)
  define h' where "h' = h1\<lparr>msgs := (msgs h1)(a \<mapsto> ?item)\<rparr>"
  define db' where "db' = db\<lparr>db_size := db_size db + int (length d), db_head := Some a, db_tail := Some a\<rparr>"
  have pool: "pool_inv mp' h'"
    using a(2,4) by (subst pool_inv_cong [where h = h1]) (auto simp: h'_def db_rep_def)
  have "databuffer_push mem db mp h (Some b) (int (length d)) = Inr (db', mp', h')"
    using a size rep empty by (cases n) (simp add: databuffer_push_def db_rep_def db'_def h'_def)
  moreover have "db_rep R RB [(a, b, d)] fs' db' mp' h'"
    using a new seg data size(2) pool empty unfolding db_rep_def
    by (auto simp: db'_def h'_def below_brk_def)
  moreover have "frame R RB h h'"
    using a(3,5) by (auto simp: frame_def h'_def)
  ultimately show ?thesis
    using empty a(6) by (intro exI [of _ fs'] exI [of _ db'] exI [of _ mp'] exI [of _ h'])
      (simp add: db'_def h'_def)
qed

lemma push_more:
  assumes rep: "db_rep R (insert b RB) qs fs db mp h"
    and data: "bufs h b = Some d" "b \<notin> RB"
    and size: "in_int (db_size db + int (length d))" "int (length d) \<le> INT_MAX"
    and a: "take_message mem mp h = Inr (Some a, mp', h1)"
      "db_rep (insert a R) (insert b RB) qs fs' db mp' h1" "a \<notin> R" "msgs h1 a = Some n" "frame R RB h h1"
      "bufs h1 = bufs h"
    and nonempty: "qs \<noteq> []"
  shows "\<exists>fs' db' mp' h'. databuffer_push mem db mp h (Some b) (int (length d)) = Inr (db', mp', h') \<and>
    db_rep R RB (qs @ [(a, b, d)]) fs' db' mp' h' \<and> db_header db' = db_header db \<and>
    db_offset db' = db_offset db \<and> db_size db' = db_size db + int (length d) \<and>
    frame R RB h h' \<and> bufs h' = bufs h"
proof -
  let ?item = "\<lparr>m_buffer = Some b, m_size = int (length d), m_next = NULL\<rparr>"
  have new: "a \<notin> set (map q_node qs)" "a \<notin> set fs'" using a(2) by (auto simp: db_rep_def)
  have seg: "lseg m_next (msgs h1) (mp_freelist mp') fs' NULL" using a(2) by (simp add: db_rep_def)
  have mq1: "mq h1 (db_head db) qs" using a(2) by (simp add: db_rep_def)
  let ?l = "q_node (last qs)"
  have l_in: "?l \<in> set (map q_node qs)" using nonempty by simp
  obtain l where l: "msgs h1 ?l = Some l" using mq_dom [OF mq1 l_in] by blast
  have ne: "?l \<noteq> a" "?l \<notin> set fs'" "?l \<notin> R"
    using l_in new a(2) by (auto simp: db_rep_def)
  define h' where "h' = h1\<lparr>msgs := (msgs h1)(a \<mapsto> ?item, ?l \<mapsto> l\<lparr>m_next := Some a\<rparr>)\<rparr>"
  define db' where "db' = db\<lparr>db_size := db_size db + int (length d), db_tail := Some a\<rparr>"
  have pool: "pool_inv mp' h'"
    using a(2,4) l by (subst pool_inv_cong [where h = h1]) (auto simp: h'_def db_rep_def)
  have tail: "db_tail db = Some ?l" "db_head db \<noteq> NULL"
    using rep nonempty mq_hd [of h "db_head db" qs] by (auto simp: db_rep_def last_ptr_def last_map)
  have "databuffer_push mem db mp h (Some b) (int (length d)) = Inr (db', mp', h')"
    using a size tail l ne by (cases n) (auto simp: databuffer_push_def db'_def h'_def)
  moreover have "mq h' (db_head db) (qs @ [(a, b, d)])"
    using mq1 nonempty a(2,6) data size(2) l new
    by (intro mq_snoc [where h = h1 and l = l]) (auto simp: h'_def db_rep_def)
  then have "db_rep R RB (qs @ [(a, b, d)]) fs' db' mp' h'"
    using a new seg data ne l pool unfolding db_rep_def
    by (auto simp: db'_def h'_def below_brk_def)
  moreover have "frame R RB h h'"
    using a(3,5) ne by (auto simp: frame_def h'_def)
  ultimately show ?thesis
    using a(6) by (intro exI [of _ fs'] exI [of _ db'] exI [of _ mp'] exI [of _ h'])
      (simp add: db'_def h'_def)
qed

lemma databuffer_push_rep:
  assumes rep: "db_rep R (insert b RB) qs fs db mp h" and mem: "\<forall>n. mem n"
    and data: "bufs h b = Some d" "b \<notin> RB"
    and size: "in_int (db_size db + int (length d))" "int (length d) \<le> INT_MAX"
  shows "\<exists>a fs' db' mp' h'. databuffer_push mem db mp h (Some b) (int (length d)) = Inr (db', mp', h') \<and>
    db_rep R RB (qs @ [(a, b, d)]) fs' db' mp' h' \<and> db_header db' = db_header db \<and>
    db_offset db' = db_offset db \<and> db_size db' = db_size db + int (length d) \<and>
    frame R RB h h' \<and> bufs h' = bufs h"
proof -
  obtain a fs' mp' h1 n where a: "take_message mem mp h = Inr (Some a, mp', h1)"
      "db_rep (insert a R) (insert b RB) qs fs' db mp' h1" "a \<notin> R" "msgs h1 a = Some n" "frame R RB h h1"
      "bufs h1 = bufs h"
    using take_message_rep [OF rep mem] by (auto simp: frame_def)
  show ?thesis
    using push_first [OF rep data size a] push_more [OF rep data size a] by (cases "qs = []") blast+
qed

section \<open>The buffer as a byte queue\<close>

type_synonym dstate = "databuffer \<times> messagepool \<times> dheap"

definition db_holds :: "addr set \<Rightarrow> addr set \<Rightarrow> dstate \<Rightarrow> byte list \<Rightarrow> bool" where
  "db_holds R RB s bs \<longleftrightarrow> (case s of (db, mp, h) \<Rightarrow>
     (\<exists>qs fs. db_rep R RB qs fs db mp h \<and> off_ok db qs \<and> unread db qs = bs) \<and>
     db_size db = int (length bs) \<and> db_size db \<le> INT_MAX)"

lemma db_holdsE:
  assumes "db_holds R RB (db, mp, h) bs"
  obtains qs fs where "db_rep R RB qs fs db mp h" and "off_ok db qs" and "unread db qs = bs"
    and "db_size db = int (length bs)" and "int (length bs) \<le> INT_MAX"
  using assms by (auto simp: db_holds_def)

lemma db_holdsI:
  assumes "db_rep R RB qs fs db mp h" and "off_ok db qs" and "unread db qs = bs"
    and "db_size db = int (length bs)" and "int (length bs) \<le> INT_MAX"
  shows "db_holds R RB (db, mp, h) bs"
  using assms by (auto simp: db_holds_def)

lemma db_holds_header [simp]: "db_holds R RB (db\<lparr>db_header := v\<rparr>, mp, h) bs = db_holds R RB (db, mp, h) bs"
  by (simp add: db_holds_def db_rep_def off_ok_def unread_def)

definition same_rest :: "addr set \<Rightarrow> addr set \<Rightarrow> dstate \<Rightarrow> dstate \<Rightarrow> bool" where
  "same_rest R RB s s' \<longleftrightarrow> frame R RB (snd (snd s)) (snd (snd s'))"

lemma databuffer_read_holds:
  assumes "db_holds R RB (db, mp, h) bs" and "0 < n" and "n \<le> length bs"
  shows "\<exists>db' mp' h'. databuffer_read db mp h (int n) = Inr (take n bs, db', mp', h') \<and>
    db_holds R RB (db', mp', h') (drop n bs) \<and> frame R RB h h' \<and> db_header db' = db_header db"
proof -
  obtain qs fs where rep: "db_rep R RB qs fs db mp h" "off_ok db qs" "unread db qs = bs"
      "db_size db = int (length bs)" "int (length bs) \<le> INT_MAX"
    using assms(1) by (rule db_holdsE)
  let ?db = "db\<lparr>db_size := int (length bs) - int n\<rparr>"
  have pre: "db_rep R RB qs fs ?db mp h" "off_ok ?db qs" "unread ?db qs = bs"
    using rep by (simp_all add: db_rep_def off_ok_def unread_def)
  have "qs \<noteq> []" using rep(3) assms(2,3) by (auto simp: unread_def)
  moreover have "length qs < Suc (brk h)" using db_rep_length [OF rep(1)] by simp
  ultimately obtain qs' fs' db' mp' h' where r:
    "read_loop (Suc (brk h)) ?db mp h (int n) [] = Inr (take n bs, db', mp', h')"
    "db_rep R RB qs' fs' db' mp' h'" "off_ok db' qs'" "unread db' qs' = drop n bs"
    "db_header db' = db_header db" "db_size db' = int (length bs) - int n" "frame R RB h h'"
    using read_loop_rep [OF pre(1,2), of "int n" "Suc (brk h)" "[]"] pre(3) assms(3) rep(5)
    by (auto simp del: read_loop.simps)
  have "in_int (int (length bs) - int n)"
    using assms(3) rep(5) by (auto simp: in_int_def INT_MIN_def)
  then have "databuffer_read db mp h (int n) = Inr (take n bs, db', mp', h')"
    using r(1) rep(4) assms(3) by (simp add: databuffer_read_def del: read_loop.simps)
  moreover have "db_holds R RB (db', mp', h') (drop n bs)"
    using r assms(3) rep(5) by (intro db_holdsI) auto
  ultimately show ?thesis using r by blast
qed

lemma databuffer_push_holds:
  assumes "db_holds R (insert b RB) (db, mp, h) bs" and "b \<notin> RB" and "bufs h b = Some d"
    and "int (length bs + length d) \<le> INT_MAX" and "\<forall>n. mem n"
  shows "\<exists>db' mp' h'. databuffer_push mem db mp h (Some b) (int (length d)) = Inr (db', mp', h') \<and>
    db_holds R RB (db', mp', h') (bs @ d) \<and> frame R RB h h' \<and> db_header db' = db_header db"
proof -
  obtain qs fs where rep: "db_rep R (insert b RB) qs fs db mp h" "off_ok db qs" "unread db qs = bs"
      "db_size db = int (length bs)" "int (length bs) \<le> INT_MAX"
    using assms(1) by (rule db_holdsE)
  have ints: "in_int (db_size db + int (length d))" "int (length d) \<le> INT_MAX"
    using assms(4) rep(4) by (auto simp: in_int_def INT_MIN_def)
  obtain a fs' db' mp' h' where p:
    "databuffer_push mem db mp h (Some b) (int (length d)) = Inr (db', mp', h')"
    "db_rep R RB (qs @ [(a, b, d)]) fs' db' mp' h'" "db_header db' = db_header db"
    "db_offset db' = db_offset db" "db_size db' = db_size db + int (length d)" "frame R RB h h'"
    using databuffer_push_rep [OF rep(1) assms(5,3,2) ints] by blast
  have off: "off_ok db' (qs @ [(a, b, d)])"
    using rep(2) p(4) by (auto simp: off_ok_def)
  have "nat (db_offset db) \<le> length (q_content qs)"
    using rep(2) by (cases qs) (auto simp: off_ok_def)
  then have "unread db' (qs @ [(a, b, d)]) = bs @ d"
    using rep(3) p(4) by (auto simp: unread_def)
  then have "db_holds R RB (db', mp', h') (bs @ d)"
    using p off rep(4) assms(4) by (intro db_holdsI) auto
  then show ?thesis using p by blast
qed

locale byte_queue =
  fixes holds :: "addr set \<Rightarrow> 's \<Rightarrow> byte list \<Rightarrow> bool"
    and block :: "'s \<Rightarrow> addr \<Rightarrow> byte list option"
    and same :: "addr set \<Rightarrow> 's \<Rightarrow> 's \<Rightarrow> bool"
    and push :: "'s \<Rightarrow> addr \<times> int \<Rightarrow> 's res"
    and read :: "'s \<Rightarrow> int \<Rightarrow> (byte list \<times> 's) res"
  assumes push_law: "holds (insert b B) s bs \<Longrightarrow> b \<notin> B \<Longrightarrow> block s b = Some d \<Longrightarrow>
      int (length bs + length d) \<le> INT_MAX \<Longrightarrow>
      \<exists>s'. push s (b, int (length d)) = Inr s' \<and> holds B s' (bs @ d) \<and> same B s s'"
    and read_law: "holds B s bs \<Longrightarrow> 0 < n \<Longrightarrow> n \<le> length bs \<Longrightarrow>
      \<exists>s'. read s (int n) = Inr (take n bs, s') \<and> holds B s' (drop n bs) \<and> same B s s'"
    and same_refl: "same B s s"
    and same_trans: "same B s s' \<Longrightarrow> same B s' s'' \<Longrightarrow> same B s s''"
    and same_less: "same B s s' \<Longrightarrow> B' \<subseteq> B \<Longrightarrow> same B' s s'"
    and same_block: "same B s s' \<Longrightarrow> b \<in> B \<Longrightarrow> block s' b = block s b"
begin

lemma push_all:
  assumes "holds (set (map fst ds) \<union> B) s bs" and "distinct (map fst ds)"
    and "set (map fst ds) \<inter> B = {}" and "\<And>b d. (b, d) \<in> set ds \<Longrightarrow> block s b = Some d"
    and "int (length bs + length (concat (map snd ds))) \<le> INT_MAX"
  shows "\<exists>s'. fold_res push s (map (\<lambda>(b, d). (b, int (length d))) ds) = Inr s' \<and>
    holds B s' (bs @ concat (map snd ds)) \<and> same B s s'"
  using assms
proof (induction ds arbitrary: s bs)
  case Nil
  then show ?case by (simp add: same_refl)
next
  case (Cons bd ds)
  obtain b d where bd: "bd = (b, d)" by (cases bd)
  let ?B = "set (map fst ds) \<union> B"
  have "b \<notin> ?B" using Cons.prems(2,3) bd by auto
  then obtain s1 where s1: "push s (b, int (length d)) = Inr s1" "holds ?B s1 (bs @ d)" "same ?B s s1"
    using push_law [of b ?B s bs d] Cons.prems bd by auto
  have "block s1 b' = Some d'" if "(b', d') \<in> set ds" for b' d'
    using that Cons.prems(4) same_block [OF s1(3), of b'] by force
  then obtain s' where "fold_res push s1 (map (\<lambda>(b, d). (b, int (length d))) ds) = Inr s'"
      "holds B s' ((bs @ d) @ concat (map snd ds))" "same B s1 s'"
    using Cons.IH [OF s1(2)] Cons.prems(2,3,5) bd by auto
  then show ?case
    using s1(1) same_trans [OF same_less [OF s1(3)]] bd by auto
qed

lemma read_read:
  assumes "holds B s bs" and "0 < m" and "0 < n" and "m + n \<le> length bs"
  shows "\<exists>xs ys s' s''. read s (int m) = Inr (xs, s') \<and> read s' (int n) = Inr (ys, s'') \<and>
    xs @ ys = take (m + n) bs \<and> holds B s'' (drop (m + n) bs) \<and> same B s s''"
proof -
  obtain s' where s': "read s (int m) = Inr (take m bs, s')" "holds B s' (drop m bs)" "same B s s'"
    using read_law [OF assms(1,2)] assms(4) by auto
  have "n \<le> length (drop m bs)" using assms(4) by simp
  then obtain s'' where "read s' (int n) = Inr (take n (drop m bs), s'')"
      "holds B s'' (drop n (drop m bs))" "same B s' s''"
    using read_law [OF s'(2) assms(3)] by blast
  then show ?thesis
    using s' same_trans [OF s'(3)] by (auto simp: take_add add.commute)
qed

end

abbreviation db_push :: "(nat \<Rightarrow> bool) \<Rightarrow> dstate \<Rightarrow> addr \<times> int \<Rightarrow> dstate res" where
  "db_push mem \<equiv> \<lambda>(db, mp, h) (b, n). databuffer_push mem db mp h (Some b) n"

interpretation dbq: byte_queue "\<lambda>B s bs. db_holds R B s bs \<and> (\<forall>n. mem n)" "\<lambda>(db, mp, h). bufs h"
    "same_rest R" "db_push mem" "\<lambda>(db, mp, h). databuffer_read db mp h"
  for R :: "addr set" and mem :: "nat \<Rightarrow> bool"
proof (unfold_locales, goal_cases)
  case (1 b B s bs d)
  then show ?case
    using databuffer_push_holds [of R b B "fst s" "fst (snd s)" "snd (snd s)" bs d mem]
    by (auto simp: same_rest_def split: prod.splits)
next
  case (2 B s bs n)
  then show ?case
    using databuffer_read_holds [of R B "fst s" "fst (snd s)" "snd (snd s)" bs n]
    by (auto simp: same_rest_def split: prod.splits)
qed (auto simp: same_rest_def frame_def)

section \<open>Big-endian headers\<close>

lemma or_shift: assumes "0 \<le> b" "b < 2^n" shows "push_bit n a OR b = a * 2 ^ n + (b::int)"
proof -
  have "take_bit n b = b" using assms by (simp add: take_bit_int_eq_self)
  then have "\<not> bit (push_bit n a) m \<or> \<not> bit b m" for m
    by (metis bit_push_bit_iff bit_take_bit_iff not_le)
  then have "push_bit n a OR b = push_bit n a + b" by (rule disjunctive_add [symmetric])
  then show ?thesis by (simp add: push_bit_eq_mult)
qed
lemma uint_byte: "uint (b::byte) < 256" "0 \<le> uint b"
  using uint_lt2p [of b] by simp_all
lemma uint_shift: assumes "n \<le> 24" shows "uint (push_bit n (ucast b) :: 32 word) = push_bit n (uint (b::byte))"
proof -
  have "uint b * 2^n < 256 * 2^24"
  proof -
    have "(2::int)^n \<le> 2^24" using assms by (rule power_increasing) simp
    then show ?thesis using uint_byte[of b] mult_mono[of "uint b" 255 "2^n" "2^24"] by simp
  qed
  then have "take_bit 32 (push_bit n (uint b)) = push_bit n (uint b)"
    using uint_byte[of b] by (simp add: take_bit_int_eq_self push_bit_eq_mult)
  moreover have "take_bit 32 (uint b) = uint b"
    using uint_byte[of b] by (simp add: take_bit_int_eq_self)
  ultimately show ?thesis
    by (simp add: unsigned_push_bit_eq unsigned_ucast_eq)
qed
lemma be4_uint: "uint (push_bit 24 (ucast b0) OR push_bit 16 (ucast b1) OR
     push_bit 8 (ucast b2) OR ucast b3 :: 32 word) = uint (b0::byte) * 16777216 + uint (b1::byte) * 65536 + uint (b2::byte) * 256 + uint (b3::byte)"
proof -
  note b = uint_byte[of b0] uint_byte[of b1] uint_byte[of b2] uint_byte[of b3]
  have u: "uint (ucast b3 :: 32 word) = uint b3"
    using uint_shift[of 0 b3] by simp
  have 1: "push_bit 8 (uint b2) OR uint b3 = uint b2 * 256 + uint b3"
    using b or_shift[of "uint b3" 8] by simp
  have 2: "push_bit 16 (uint b1) OR (uint b2 * 256 + uint b3) = uint b1 * 2^16 + (uint b2 * 256 + uint b3)"
    using b by (intro or_shift) auto
  have 3: "push_bit 24 (uint b0) OR (uint b1 * 2^16 + (uint b2 * 256 + uint b3)) = uint b0 * 2^24 + (uint b1 * 2^16 + (uint b2 * 256 + uint b3))"
    using b by (intro or_shift) auto
  show ?thesis
    using 1 2 3 by (simp add: unsigned_or_eq u uint_shift or.assoc)
qed


lemma sint_cases: "sint (x :: 32 word) = (if uint x < 2^31 then uint x else uint x - 2^32)"
proof -
  have r: "0 \<le> uint x" "uint x < 2^32" using uint_lt2p [of x] by simp_all
  have s: "sint x = (uint x + 2^31) mod 2^32 - 2^31"
    by (simp add: sint_uint signed_take_bit_eq_take_bit_shift take_bit_eq_mod)
  show ?thesis
  proof (cases "uint x < 2^31")
    case True
    then show ?thesis using r s by simp
  next
    case False
    then have "(uint x + 2^31) div 2^32 = 1"
      using r by (intro int_div_pos_eq [where r = "uint x - 2^31"]) simp_all
    then have "(uint x + 2^31) mod 2^32 = uint x + 2^31 - 2^32"
      by (simp only: minus_mult_div_eq_mod [symmetric])
    then show ?thesis using s False by simp
  qed
qed
definition be_value :: "byte list \<Rightarrow> int" where
  "be_value bs = foldl (\<lambda>v b. v * 256 + uint b) 0 bs"

definition as_int :: "int \<Rightarrow> int" where
  \<comment> \<open>an unsigned 32-bit value read as an \<^verbatim>\<open>int\<close>\<close>
  "as_int v = (if v < 2 ^ 31 then v else v - 2 ^ 32)"

lemma be4_value: "be4 b0 b1 b2 b3 = as_int (be_value [b0, b1, b2, b3])"
proof -
  have "uint (push_bit 24 (ucast b0) OR push_bit 16 (ucast b1) OR push_bit 8 (ucast b2) OR
      ucast b3 :: 32 word) = be_value [b0, b1, b2, b3]"
    by (simp add: be4_uint be_value_def)
  then show ?thesis by (simp only: be4_def sint_cases as_int_def)
qed

section \<open>Reading a header\<close>

lemma header_value_four:
  assumes "4 \<le> length bs"
  shows "header_value 4 (take 4 bs) = Inr (as_int (be_value (take 4 bs)))"
proof -
  obtain b0 b1 b2 b3 rest where "bs = b0 # b1 # b2 # b3 # rest"
    using assms by (metis Suc_le_length_iff numeral_eq_Suc pred_numeral_simps(2,3) semiring_norm(26,27) One_nat_def)
  then show ?thesis by (simp add: header_value_def be4_value)
qed

lemma header_value_defined:
  assumes "header_size = 2 \<or> header_size = 4" and "header_size \<le> int (length bs)"
  shows "\<exists>v. header_value header_size (take (nat header_size) bs) = Inr v"
proof -
  have "\<exists>b0 b1 bs'. bs = b0 # b1 # bs'"
    using assms by (cases bs; cases "tl bs") auto
  moreover have "\<exists>b0 b1 b2 b3 bs'. bs = b0 # b1 # b2 # b3 # bs'" if "header_size = 4"
    using assms(2) that by (cases bs; cases "tl bs"; cases "tl (tl bs)"; cases "tl (tl (tl bs))") auto
  ultimately show ?thesis
    using assms(1) by (auto simp: header_value_def numeral_2_eq_2 numeral_eq_Suc)
qed

lemma readheader_pending:
  assumes "db_header db \<noteq> 0"
  shows "databuffer_readheader db mp h header_size =
    Inr (if db_size db < db_header db then -1 else db_header db, db, mp, h)"
  using assms by (simp add: databuffer_readheader_def)

lemma readheader_short:
  assumes "db_header db = 0" and "db_size db < header_size"
  shows "databuffer_readheader db mp h header_size = Inr (-1, db, mp, h)"
  using assms by (simp add: databuffer_readheader_def)

lemma readheader_holds:
  assumes "db_holds R RB (db, mp, h) bs" and "db_header db = 0" and "header_size = 2 \<or> header_size = 4"
    and "header_size \<le> int (length bs)" and "header_value header_size (take (nat header_size) bs) = Inr v"
  shows "\<exists>db' mp' h'. databuffer_readheader db mp h header_size =
      Inr (if int (length bs) - header_size < v then -1 else v, db', mp', h') \<and>
    db_holds R RB (db', mp', h') (drop (nat header_size) bs) \<and> frame R RB h h' \<and> db_header db' = v"
proof -
  have "0 < nat header_size" "nat header_size \<le> length bs" using assms(3,4) by auto
  from databuffer_read_holds [OF assms(1) this] obtain db' mp' h' where
    r: "databuffer_read db mp h header_size = Inr (take (nat header_size) bs, db', mp', h')"
      "db_holds R RB (db', mp', h') (drop (nat header_size) bs)" "frame R RB h h'"
    using assms(3) by auto
  have size: "db_size db = int (length bs)" "db_size db' = int (length bs) - header_size"
    using assms(1,3,4) r(2) by (auto simp: db_holds_def)
  show ?thesis
    using r assms size
    by (intro exI [of _ "db'\<lparr>db_header := v\<rparr>"] exI [of _ mp'] exI [of _ h'])
      (auto simp: databuffer_readheader_def)
qed

section \<open>Clearing a buffer, freeing the pool\<close>

lemma clear_loop_rep:
  assumes "db_rep R RB qs fs db mp h" and "length qs < fuel"
  shows "\<exists>fs' db' mp' h'. clear_loop fuel db mp h = Inr (db', mp', h') \<and>
    db_rep R RB [] fs' db' mp' h' \<and> frame R RB h h' \<and>
    bufs h' = bufs h |` (- set (map q_buf qs)) \<and> pools h' = pools h"
  using assms
proof (induction fuel arbitrary: qs fs db mp h)
  case (Suc fuel)
  show ?case
  proof (cases qs)
    case Nil
    then show ?thesis
      using Suc.prems(1) by (auto simp: db_rep_def)
  next
    case (Cons q qs1)
    from return_message_rep [OF Suc.prems(1) [unfolded Cons]] obtain db' mp' h' where
      r: "return_message db mp h = Inr (db', mp', h')" "db_rep R RB qs1 (q_node q # fs) db' mp' h'"
        "frame R RB h h'" "bufs h' = (bufs h)(q_buf q := None)" "pools h' = pools h"
      by blast
    have "db_head db \<noteq> NULL"
      using Suc.prems(1) Cons by (simp add: db_rep_def)
    then have step: "clear_loop (Suc fuel) db mp h = clear_loop fuel db' mp' h'"
      using r(1) by simp
    obtain fs' db'' mp'' h'' where t: "clear_loop fuel db' mp' h' = Inr (db'', mp'', h'')"
        "db_rep R RB [] fs' db'' mp'' h''" "frame R RB h' h''"
        "bufs h'' = bufs h' |` (- set (map q_buf qs1))" "pools h'' = pools h'"
      using Suc.IH [OF r(2)] Suc.prems(2) Cons by auto
    have "bufs h'' = bufs h |` (- set (map q_buf qs))"
      using r(4) t(4) Cons by (simp add: restrict_map_def fun_eq_iff)
    then show ?thesis
      using step t r(5) frame_trans [OF r(3) t(3)] by metis
  qed
qed simp

lemma databuffer_clear_holds:
  assumes "db_rep R RB qs fs db mp h"
  shows "\<exists>mp' h'. databuffer_clear db mp h = Inr (databuffer_zero, mp', h') \<and>
    db_holds R RB (databuffer_zero, mp', h') [] \<and> frame R RB h h' \<and>
    bufs h' = bufs h |` (- set (map q_buf qs)) \<and> pools h' = pools h"
proof -
  have "length qs < Suc (brk h)" using db_rep_length [OF assms] by simp
  from clear_loop_rep [OF assms this] obtain fs' db' mp' h' where
    r: "clear_loop (Suc (brk h)) db mp h = Inr (db', mp', h')" "db_rep R RB [] fs' db' mp' h'"
      "frame R RB h h'" "bufs h' = bufs h |` (- set (map q_buf qs))" "pools h' = pools h"
    by blast
  have "db_rep R RB [] fs' databuffer_zero mp' h'"
    using r(2) by (simp add: db_rep_def databuffer_zero_def)
  then have "db_holds R RB (databuffer_zero, mp', h') []"
    by (rule db_holdsI) (simp_all add: off_ok_def unread_def databuffer_zero_def INT_MAX_def)
  then show ?thesis
    using r by (simp add: databuffer_clear_def del: clear_loop.simps)
qed

lemma free_pools_run:
  assumes "lseg (\<lambda>p. p) (pools h) p ps NULL" and "length ps < fuel"
  shows "free_pools fuel h p = Inr (h\<lparr>pools := pools h |` (- set ps),
    msgs := msgs h |` (- (\<Union>b \<in> set ps. {b..<b + MESSAGEPOOL}))\<rparr>)"
  using assms
proof (induction fuel arbitrary: h p ps)
  case (Suc fuel)
  show ?case
  proof (cases ps)
    case (Cons b ps1)
    then obtain nx where b: "p = Some b" "pools h b = Some nx" "lseg (\<lambda>p. p) (pools h) nx ps1 NULL"
      using Suc.prems(1) by auto
    let ?h = "h\<lparr>pools := (pools h)(b := None), msgs := msgs h |` (- {b..<b + MESSAGEPOOL})\<rparr>"
    have "b \<notin> set ps1" using lseg_distinct [OF Suc.prems(1)] Cons by simp
    then have seg: "lseg (\<lambda>p. p) (pools ?h) nx ps1 NULL"
      using b(3) by (subst lseg_cong [where m = "pools h"]) auto
    have eqs: "(pools h)(b := None) |` (- set ps1) = pools h |` (- insert b (set ps1))"
      "msgs h |` (- {b..<b + MESSAGEPOOL}) |` (- (\<Union>b \<in> set ps1. {b..<b + MESSAGEPOOL})) =
        msgs h |` (- (\<Union>b \<in> insert b (set ps1). {b..<b + MESSAGEPOOL}))"
      by (auto simp: restrict_map_def fun_eq_iff)
    have "free_pools fuel ?h nx = Inr (?h\<lparr>pools := pools ?h |` (- set ps1),
       msgs := msgs ?h |` (- (\<Union>b \<in> set ps1. {b..<b + MESSAGEPOOL}))\<rparr>)"
      using Suc.prems(2) Cons by (intro Suc.IH [OF seg]) simp
    then show ?thesis
      using b(1,2) eqs by (simp add: Cons)
  qed (use Suc.prems(1) in \<open>simp add: restrict_map_def fun_eq_iff\<close>)
qed simp

lemma messagepool_free_all:
  assumes "pool_inv mp h" and "below_brk h"
  shows "messagepool_free mp h =
    Inr (\<lparr>mp_pool = NULL, mp_freelist = NULL\<rparr>, h\<lparr>pools := Map.empty, msgs := Map.empty\<rparr>)"
proof -
  obtain ps where ps: "lseg (\<lambda>p. p) (pools h) (mp_pool mp) ps NULL" "dom (pools h) = set ps"
      "dom (msgs h) = (\<Union>b \<in> set ps. {b..<b + MESSAGEPOOL})"
    using assms(1) by (auto simp: pool_inv_def)
  have "set ps \<subseteq> {..<brk h}"
    using ps(2) assms(2) unfolding below_brk_def by (force simp: not_le [symmetric])
  then have "length ps < Suc (brk h)"
    using distinct_card [OF lseg_distinct [OF ps(1)]] card_mono [of "{..<brk h}" "set ps"] by simp
  moreover have "pools h |` (- set ps) = Map.empty"
    "msgs h |` (- (\<Union>b \<in> set ps. {b..<b + MESSAGEPOOL})) = Map.empty"
    using ps(2,3) by (auto simp: restrict_map_def fun_eq_iff dom_def set_eq_iff)
  ultimately show ?thesis
    using free_pools_run [OF ps(1)] by (cases mp) (simp add: messagepool_free_def del: free_pools.simps)
qed

definition no_pool :: messagepool where
  \<comment> \<open>a pool filled with zeros by \<^verbatim>\<open>memset\<close>\<close>
  "no_pool = \<lparr>mp_pool = NULL, mp_freelist = NULL\<rparr>"

definition start_heap :: "(addr \<rightharpoonup> byte list) \<Rightarrow> dheap" where
  \<comment> \<open>no pool block yet, and the given data blocks\<close>
  "start_heap d = \<lparr>msgs = Map.empty, pools = Map.empty, bufs = d, brk = 0\<rparr>"

lemma pool_inv_start [simp]: "pool_inv no_pool (start_heap d)" "below_brk (start_heap d)"
  by (simp_all add: pool_inv_def below_brk_def no_pool_def start_heap_def)

lemma start_heap_sel [simp]: "bufs (start_heap d) = d"
  by (simp add: start_heap_def)

lemma db_holds_start: "dom d \<subseteq> RB \<Longrightarrow> db_holds {} RB (databuffer_zero, no_pool, start_heap d) []"
  by (rule db_holdsI [where qs = "[]" and fs = "[]"])
    (auto simp: db_rep_def databuffer_zero_def off_ok_def unread_def INT_MAX_def below_brk_def
      pool_inv_def dom_def no_pool_def start_heap_def)

section \<open>Several buffers on one pool\<close>

definition nodes_of :: "qitem list list \<Rightarrow> nat \<Rightarrow> addr set" where
  \<comment> \<open>the nodes of every queue but one\<close>
  "nodes_of qss i = (\<Union>j \<in> {..<length qss} - {i}. set (map q_node (qss ! j)))"

definition blocks_of :: "qitem list list \<Rightarrow> nat \<Rightarrow> addr set" where
  "blocks_of qss i = (\<Union>j \<in> {..<length qss} - {i}. set (map q_buf (qss ! j)))"

definition buffer_ok :: "qitem list \<Rightarrow> databuffer \<Rightarrow> byte list \<Rightarrow> bool" where
  "buffer_ok qs db bs \<longleftrightarrow> off_ok db qs \<and> unread db qs = bs \<and> db_size db = int (length bs) \<and>
     int (length bs) \<le> INT_MAX"

definition buffers_rep :: "addr set \<Rightarrow> qitem list list \<Rightarrow> addr list \<Rightarrow> databuffer list \<Rightarrow>
    messagepool \<Rightarrow> dheap \<Rightarrow> byte list list \<Rightarrow> bool" where
  "buffers_rep RB qss fs dbs mp h bss \<longleftrightarrow>
     (\<forall>b d. bufs h b = Some d \<longrightarrow> b \<in> RB \<union> (\<Union>qs \<in> set qss. set (map q_buf qs))) \<and> length qss = length dbs \<and> length bss = length dbs \<and>
     lseg m_next (msgs h) (mp_freelist mp) fs NULL \<and> below_brk h \<and> pool_inv mp h \<and>
     (\<forall>i < length dbs. db_rep (nodes_of qss i) (RB \<union> blocks_of qss i) (qss ! i) fs (dbs ! i) mp h \<and>
        buffer_ok (qss ! i) (dbs ! i) (bss ! i))"

definition buffers_hold :: "addr set \<Rightarrow> databuffer list \<Rightarrow> messagepool \<Rightarrow> dheap \<Rightarrow> byte list list \<Rightarrow> bool" where
  \<comment> \<open>each buffer holds its bytes; no two share a node or a block, and none has a block of \<open>RB\<close>\<close>
  "buffers_hold RB dbs mp h bss \<longleftrightarrow> (\<exists>qss fs. buffers_rep RB qss fs dbs mp h bss)"

lemma db_rep_disjoint:
  assumes "db_rep R RB qs fs db mp h"
  shows "set (map q_node qs) \<inter> set fs = {}" and "set (map q_node qs) \<inter> R = {}"
    and "set fs \<inter> R = {}" and "set (map q_buf qs) \<inter> RB = {}" and "R \<subseteq> {..<brk h}"
  using assms by (auto simp: db_rep_def)

lemma db_rep_move:
  assumes old: "db_rep R RB qs fs db mp h" and new: "db_rep R' RB' qs' fs' db' mp' h'"
    and frame: "frame R' RB' h h'" and "set (map q_node qs) \<subseteq> R'" and "set (map q_buf qs) \<subseteq> RB'"
    and "S \<subseteq> R \<union> set (map q_node qs')" and "S \<inter> set (map q_node qs) = {}" and "S \<inter> set fs' = {}"
    and "T \<inter> set (map q_buf qs) = {}" and dom: "\<And>b d. bufs h' b = Some d \<Longrightarrow> b \<in> set (map q_buf qs) \<union> T"
  shows "db_rep S T qs fs' db mp' h'"
proof -
  have "mq h' (db_head db) qs"
    using old frame assms(4,5) by (subst mq_cong [where h = h]) (auto simp: db_rep_def frame_def)
  moreover have "set (map q_node qs') \<subseteq> {..<brk h'}"
    using new mq_dom [of h' "db_head db'" qs'] by (force simp: db_rep_def below_brk_def not_le [symmetric])
  moreover have "R \<subseteq> {..<brk h'}"
    using old frame by (auto simp: db_rep_def frame_def)
  moreover have "set (map q_node qs) \<inter> set fs' = {}"
    using new assms(4) by (auto simp: db_rep_def)
  moreover from calculation(2,3) have "S \<subseteq> {..<brk h'}"
    using assms(6) by blast
  ultimately show ?thesis
    using old new assms(7-9) dom unfolding db_rep_def by auto
qed

lemma nodes_of_update:
  "j < length qss \<Longrightarrow> j \<noteq> i \<Longrightarrow> nodes_of (qss[i := q]) j \<subseteq> nodes_of qss j \<union> set (map q_node q)"
  "nodes_of (qss[i := q]) i = nodes_of qss i"
  unfolding nodes_of_def by (auto simp del: set_map simp: nth_update_cases split: if_splits)

lemma blocks_of_update:
  "j < length qss \<Longrightarrow> j \<noteq> i \<Longrightarrow> blocks_of (qss[i := q]) j \<subseteq> blocks_of qss j \<union> set (map q_buf q)"
  "blocks_of (qss[i := q]) i = blocks_of qss i"
  unfolding blocks_of_def by (auto simp del: set_map simp: nth_update_cases split: if_splits)

lemma nodes_of_in: "j < length qss \<Longrightarrow> j \<noteq> i \<Longrightarrow> set (map q_node (qss ! j)) \<subseteq> nodes_of qss i"
  by (auto simp: nodes_of_def)

lemma blocks_of_in: "j < length qss \<Longrightarrow> j \<noteq> i \<Longrightarrow> set (map q_buf (qss ! j)) \<subseteq> blocks_of qss i"
  by (auto simp: blocks_of_def)

lemma blocks_of_all:
  "i < length qss \<Longrightarrow> set (map q_buf (qss ! i)) \<union> blocks_of qss i = (\<Union>qs \<in> set qss. set (map q_buf qs))"
  unfolding blocks_of_def set_conv_nth [of qss] by blast

lemma buffers_rep_update:
  assumes rep: "buffers_rep RB qss fs dbs mp h bss" and i: "i < length dbs" and sub: "RB' \<subseteq> RB"
    and new: "db_rep (nodes_of qss i) (RB' \<union> blocks_of qss i) qs' fs' db' mp' h'" "buffer_ok qs' db' bs'"
    and frame: "frame (nodes_of qss i) (RB' \<union> blocks_of qss i) h h'"
  shows "buffers_rep RB' (qss[i := qs']) fs' (dbs[i := db']) mp' h' (bss[i := bs'])"
proof -
  have len: "length qss = length dbs" "length bss = length dbs" using rep by (simp_all add: buffers_rep_def)
  have each: "db_rep (nodes_of qss j) (RB \<union> blocks_of qss j) (qss ! j) fs (dbs ! j) mp h"
      "buffer_ok (qss ! j) (dbs ! j) (bss ! j)" if "j < length dbs" for j
    using rep that by (auto simp: buffers_rep_def)
  have all_blocks: "b \<in> RB' \<union> (\<Union>qs \<in> set (qss[i := qs']). set (map q_buf qs))" if "bufs h' b = Some d" for b d
  proof -
    have "b \<in> set (map q_buf qs') \<union> (RB' \<union> blocks_of qss i)"
      using new(1) that unfolding db_rep_def by blast
    moreover have "set (map q_buf qs') \<union> blocks_of qss i = (\<Union>qs \<in> set (qss[i := qs']). set (map q_buf qs))"
      using blocks_of_all [of i "qss[i := qs']"] i len by (simp add: blocks_of_update(2) del: set_map)
    ultimately show ?thesis by blast
  qed
  have "db_rep (nodes_of (qss[i := qs']) j) (RB' \<union> blocks_of (qss[i := qs']) j)
      (qss ! j) fs' (dbs ! j) mp' h'" if j: "j < length dbs" "j \<noteq> i" for j
  proof (rule db_rep_move [OF each(1) new(1) frame])
    have j': "j < length qss" using j(1) len by simp
    note up = nodes_of_update(1) [OF j' j(2), of qs'] blocks_of_update(1) [OF j' j(2), of qs']
      and own = nodes_of_in [OF j' j(2)] blocks_of_in [OF j' j(2)]
    show "set (map q_node (qss ! j)) \<subseteq> nodes_of qss i"
      and "set (map q_buf (qss ! j)) \<subseteq> RB' \<union> blocks_of qss i" using own by auto
    show "nodes_of (qss[i := qs']) j \<subseteq> nodes_of qss j \<union> set (map q_node qs')" by (rule up)
    show "nodes_of (qss[i := qs']) j \<inter> set (map q_node (qss ! j)) = {}"
      using up(1) own(1) db_rep_disjoint(2) [OF each(1) [OF j(1)]] db_rep_disjoint(2) [OF new(1)] by blast
    show "(RB' \<union> blocks_of (qss[i := qs']) j) \<inter> set (map q_buf (qss ! j)) = {}"
      using up(2) own(2) db_rep_disjoint(4) [OF each(1) [OF j(1)]] db_rep_disjoint(4) [OF new(1)] sub by blast
    show "b \<in> set (map q_buf (qss ! j)) \<union> (RB' \<union> blocks_of (qss[i := qs']) j)" if "bufs h' b = Some d" for b d
      using all_blocks [OF that] blocks_of_all [of j "qss[i := qs']"] j j' by auto
    show "nodes_of (qss[i := qs']) j \<inter> set fs' = {}"
      using db_rep_disjoint(1,3) [OF new(1)] i len
      by (auto simp del: set_map simp: nodes_of_def nth_list_update disjoint_iff split: if_splits)
  qed (use j in simp)
  moreover from rep new each(2) i len this
  have "\<forall>j < length (dbs[i := db']). db_rep (nodes_of (qss[i := qs']) j) (RB' \<union> blocks_of (qss[i := qs']) j)
      (qss[i := qs'] ! j) fs' (dbs[i := db'] ! j) mp' h' \<and> buffer_ok (qss[i := qs'] ! j) (dbs[i := db'] ! j) (bss[i := bs'] ! j)"
    by (auto simp: nth_list_update nodes_of_update(2) blocks_of_update(2))
  moreover have "lseg m_next (msgs h') (mp_freelist mp') fs' NULL" "below_brk h'" "pool_inv mp' h'"
    using new(1) by (auto simp: db_rep_def)
  ultimately show ?thesis
    using all_blocks len unfolding buffers_rep_def by (simp del: set_map)
qed

lemma buffers_hold_focus:
  assumes "buffers_hold RB dbs mp h bss" and i: "i < length dbs"
  obtains R B where "B \<inter> RB = {}" and "db_holds R (RB \<union> B) (dbs ! i, mp, h) (bss ! i)"
    and "\<And>RB' s bs'. RB' \<subseteq> RB \<Longrightarrow> db_holds R (RB' \<union> B) s bs' \<Longrightarrow>
      frame R (RB' \<union> B) h (snd (snd s)) \<Longrightarrow>
      buffers_hold RB' (dbs[i := fst s]) (fst (snd s)) (snd (snd s)) (bss[i := bs'])"
proof -
  obtain qss fs where rep: "buffers_rep RB qss fs dbs mp h bss"
    using assms(1) by (auto simp: buffers_hold_def)
  have each: "db_rep (nodes_of qss j) (RB \<union> blocks_of qss j) (qss ! j) fs (dbs ! j) mp h"
      "buffer_ok (qss ! j) (dbs ! j) (bss ! j)" if "j < length dbs" for j
    using rep that by (auto simp: buffers_rep_def)
  have len: "length qss = length dbs" using rep by (simp add: buffers_rep_def)
  have "set (map q_buf (qss ! j)) \<inter> RB = {}" if "j < length qss" for j
    using db_rep_disjoint(4) [OF each(1) [of j]] that len by (simp add: Int_Un_distrib del: set_map)
  then have 1: "blocks_of qss i \<inter> RB = {}"
    unfolding blocks_of_def by blast
  have 2: "db_holds (nodes_of qss i) (RB \<union> blocks_of qss i) (dbs ! i, mp, h) (bss ! i)"
    using each [OF i] by (auto simp: db_holds_def buffer_ok_def)
  show thesis
  proof (rule that [OF 1 2])
    fix RB' s bs'
    assume sub: "RB' \<subseteq> RB" and new: "db_holds (nodes_of qss i) (RB' \<union> blocks_of qss i) s bs'"
      and fr: "frame (nodes_of qss i) (RB' \<union> blocks_of qss i) h (snd (snd s))"
    obtain db' mp' h' where s: "s = (db', mp', h')" by (cases s)
    obtain qs' fs' where "db_rep (nodes_of qss i) (RB' \<union> blocks_of qss i) qs' fs' db' mp' h'"
        "buffer_ok qs' db' bs'"
      using new by (auto simp: s db_holds_def buffer_ok_def)
    from buffers_rep_update [OF rep i sub this] fr
    show "buffers_hold RB' (dbs[i := fst s]) (fst (snd s)) (snd (snd s)) (bss[i := bs'])"
      by (auto simp: s buffers_hold_def)
  qed
qed

lemma buffers_hold_other_block:
  assumes "buffers_hold RB dbs mp h bss" and "b \<in> RB"
  shows "buffers_hold (RB - {b}) dbs mp (h\<lparr>bufs := (bufs h)(b := None)\<rparr>) bss"
proof -
  obtain qss fs where rep: "buffers_rep RB qss fs dbs mp h bss"
    using assms(1) by (auto simp: buffers_hold_def)
  let ?h = "h\<lparr>bufs := (bufs h)(b := None)\<rparr>"
  have "db_rep (nodes_of qss i) (RB - {b} \<union> blocks_of qss i) (qss ! i) fs (dbs ! i) mp ?h"
    if "db_rep (nodes_of qss i) (RB \<union> blocks_of qss i) (qss ! i) fs (dbs ! i) mp h" for i
  proof -
    have "b \<notin> set (map q_buf (qss ! i))" using db_rep_disjoint(4) [OF that] assms(2) by blast
    then have "mq ?h (db_head (dbs ! i)) (qss ! i)"
      using that unfolding set_map notin_image_iff
      by (subst mq_cong [where h = h]) (auto simp: db_rep_def)
    moreover have "pool_inv mp ?h" "below_brk ?h"
      using that by (auto simp: db_rep_def pool_inv_def below_brk_def)
    ultimately show ?thesis using that by (auto simp: db_rep_def)
  qed
  then have "buffers_rep (RB - {b}) qss fs dbs mp ?h bss"
    using rep by (auto simp: buffers_rep_def below_brk_def pool_inv_def)
  then show ?thesis by (auto simp: buffers_hold_def)
qed

lemma mq_bufs: "mq h p qs \<Longrightarrow> b \<in> set (map q_buf qs) \<Longrightarrow> bufs h b \<noteq> None"
  by (induction qs arbitrary: p) auto

lemma buffers_hold_new_block:
  assumes "buffers_hold RB dbs mp h bss" and "bufs h b = None"
  shows "buffers_hold (insert b RB) dbs mp (h\<lparr>bufs := (bufs h)(b \<mapsto> d)\<rparr>) bss"
proof -
  obtain qss fs where rep: "buffers_rep RB qss fs dbs mp h bss"
    using assms(1) by (auto simp: buffers_hold_def)
  let ?h = "h\<lparr>bufs := (bufs h)(b \<mapsto> d)\<rparr>"
  have "db_rep (nodes_of qss i) (insert b RB \<union> blocks_of qss i) (qss ! i) fs (dbs ! i) mp ?h"
    if "db_rep (nodes_of qss i) (RB \<union> blocks_of qss i) (qss ! i) fs (dbs ! i) mp h" for i
  proof -
    have b: "b \<notin> set (map q_buf (qss ! i))"
      using mq_bufs [of h "db_head (dbs ! i)" "qss ! i" b] that assms(2) by (auto simp: db_rep_def)
    then have "mq ?h (db_head (dbs ! i)) (qss ! i)"
      using that unfolding set_map notin_image_iff
      by (subst mq_cong [where h = h]) (auto simp: db_rep_def)
    moreover have "pool_inv mp ?h" "below_brk ?h"
      using that by (auto simp: db_rep_def pool_inv_def below_brk_def)
    ultimately show ?thesis using that b by (auto simp: db_rep_def)
  qed
  then have "buffers_rep (insert b RB) qss fs dbs mp ?h bss"
    using rep by (auto simp: buffers_rep_def below_brk_def pool_inv_def)
  then show ?thesis by (auto simp: buffers_hold_def)
qed

lemma buffers_hold_start:
  assumes "dom d \<subseteq> RB"
  shows "buffers_hold RB (replicate n databuffer_zero) no_pool (start_heap d) (replicate n [])"
proof -
  have "buffers_rep RB (replicate n []) [] (replicate n databuffer_zero) no_pool (start_heap d) (replicate n [])"
    using assms by (auto simp: buffers_rep_def buffer_ok_def db_rep_def nodes_of_def blocks_of_def off_ok_def
        unread_def databuffer_zero_def INT_MAX_def dom_def simp flip: no_pool_def)
      (simp_all add: no_pool_def)
  then show ?thesis by (auto simp: buffers_hold_def)
qed

section \<open>Properties\<close>

text \<open>C9. The buffer is a queue of bytes, however they were cut into blocks: after the blocks
  \<open>ds\<close> were pushed, a read of \<open>n\<close> bytes gives the first \<open>n\<close> bytes of what the buffer held and
  the blocks in order; the rest stays, other memory is untouched, and no fault happens.\<close>

theorem databuffer_fifo:
  assumes "db_holds R (set (map fst ds) \<union> RB) (db, mp, h) bs" and "\<forall>k. mem k"
    and "distinct (map fst ds)" and "set (map fst ds) \<inter> RB = {}"
    and "\<And>b d. (b, d) \<in> set ds \<Longrightarrow> bufs h b = Some d"
    and "int (length bs + length (concat (map snd ds))) \<le> INT_MAX"
    and "0 < n" and "n \<le> length bs + length (concat (map snd ds))"
  shows "\<exists>db1 mp1 h1 db2 mp2 h2.
    fold_res (db_push mem) (db, mp, h) (map (\<lambda>(b, d). (b, int (length d))) ds) = Inr (db1, mp1, h1) \<and>
    databuffer_read db1 mp1 h1 (int n) = Inr (take n (bs @ concat (map snd ds)), db2, mp2, h2) \<and>
    db_holds R RB (db2, mp2, h2) (drop n (bs @ concat (map snd ds))) \<and> frame R RB h h2"
proof -
  obtain db1 mp1 h1 where s1:
    "fold_res (db_push mem) (db, mp, h) (map (\<lambda>(b, d). (b, int (length d))) ds) = Inr (db1, mp1, h1)"
    "db_holds R RB (db1, mp1, h1) (bs @ concat (map snd ds))" "same_rest R RB (db, mp, h) (db1, mp1, h1)"
    using dbq.push_all [where mem = mem and R = R and B = RB and s = "(db, mp, h)" and bs = bs and ds = ds]
      assms by auto
  obtain db2 mp2 h2 where
    "databuffer_read db1 mp1 h1 (int n) = Inr (take n (bs @ concat (map snd ds)), db2, mp2, h2)"
    "db_holds R RB (db2, mp2, h2) (drop n (bs @ concat (map snd ds)))" "frame R RB h1 h2"
    using databuffer_read_holds [OF s1(2) assms(7)] assms(8) by auto
  moreover have "frame R RB h h1" using s1(3) by (simp add: same_rest_def)
  ultimately show ?thesis
    using s1(1) frame_trans by blast
qed

theorem databuffer_fifo_witness:
  "\<exists>db1 mp1 h1 db2 mp2 h2.
    fold_res (db_push (\<lambda>_. True)) (databuffer_zero, no_pool, start_heap [0 \<mapsto> [1, 2], 1 \<mapsto> [3, 4, 5]])
      [(0, 2), (1, 3)] = Inr (db1, mp1, h1) \<and>
    databuffer_read db1 mp1 h1 3 = Inr ([1, 2, 3], db2, mp2, h2)"
proof -
  have "\<exists>db1 mp1 h1 db2 mp2 h2.
    fold_res (db_push (\<lambda>_. True)) (databuffer_zero, no_pool, start_heap [0 \<mapsto> [1, 2], 1 \<mapsto> [3, 4, 5]])
      (map (\<lambda>(b, d). (b, int (length d))) [(0, [1, 2 :: byte]), (1, [3, 4, 5])]) = Inr (db1, mp1, h1) \<and>
    databuffer_read db1 mp1 h1 (int 3) =
      Inr (take 3 ([] @ concat (map snd [(0 :: addr, [1, 2]), (1, [3, 4, 5])])), db2, mp2, h2) \<and>
    db_holds {} {} (db2, mp2, h2) (drop 3 ([] @ concat (map snd [(0 :: addr, [1, 2]), (1, [3, 4, 5])]))) \<and>
    frame {} {} (start_heap [0 \<mapsto> [1, 2], 1 \<mapsto> [3, 4, 5]]) h2"
    by (rule databuffer_fifo [OF db_holds_start]) (auto simp: INT_MAX_def)
  then show ?thesis by (auto simp del: fold_res.simps)
qed

text \<open>C13. With no pending header and at least four bytes, \<open>databuffer_readheader\<close> takes the
  header off the queue and reads it big-endian, a value from \<open>2 ^ 31\<close> on as a negative
  \<^verbatim>\<open>int\<close>; it answers the header, or -1 while the body is not complete.  With fewer bytes it
  answers -1 and changes nothing.\<close>

theorem databuffer_readheader_decodes:
  assumes "db_holds R RB (db, mp, h) bs" and "db_header db = 0"
  shows "\<exists>r db' mp' h'. databuffer_readheader db mp h 4 = Inr (r, db', mp', h') \<and> frame R RB h h' \<and>
    (if length bs < 4 then r = -1 \<and> (db', mp', h') = (db, mp, h)
     else db_header db' = as_int (be_value (take 4 bs)) \<and>
       r = (if int (length bs) - 4 < db_header db' then -1 else db_header db') \<and>
       db_holds R RB (db', mp', h') (drop 4 bs))"
proof (cases "length bs < 4")
  case True
  then have "databuffer_readheader db mp h 4 = Inr (-1, db, mp, h)"
    using assms by (intro readheader_short) (auto simp: db_holds_def)
  then show ?thesis using True by simp
next
  case False
  then have "header_value 4 (take (nat 4) bs) = Inr (as_int (be_value (take 4 bs)))"
    using header_value_four [of bs] by simp
  from readheader_holds [OF assms _ _ this] False obtain db' mp' h' where
    "databuffer_readheader db mp h 4 = Inr (if int (length bs) - 4 < as_int (be_value (take 4 bs))
       then -1 else as_int (be_value (take 4 bs)), db', mp', h')"
    "db_holds R RB (db', mp', h') (drop 4 bs)" "frame R RB h h'"
    "db_header db' = as_int (be_value (take 4 bs))"
    by auto
  then show ?thesis
    using False by (intro exI [of _ db'] exI [of _ mp'] exI [of _ h'] exI) (rule conjI, assumption, simp)
qed

theorem databuffer_readheader_decodes_witness:
  "\<exists>db mp h db' mp' h'. db_holds {} {} (db, mp, h) [0, 0, 0, 2, 65, 66] \<and>
    databuffer_readheader db mp h 4 = Inr (2, db', mp', h') \<and> db_holds {} {} (db', mp', h') [65, 66]"
proof -
  let ?d = "[0, 0, 0, 2, 65, 66] :: byte list"
  obtain db mp h where d: "db_holds {} {} (db, mp, h) ?d" "db_header db = 0"
    using databuffer_push_holds [OF db_holds_start [of "[0 \<mapsto> ?d]" "insert 0 {}"], of ?d "\<lambda>_. True"]
    by (auto simp: INT_MAX_def databuffer_zero_def)
  have "as_int (be_value (take 4 ?d)) = 2" by (simp add: be_value_def as_int_def)
  with databuffer_readheader_decodes [OF d] obtain db' mp' h' where
    "databuffer_readheader db mp h 4 = Inr (2, db', mp', h')" "db_holds {} {} (db', mp', h') [65, 66]" by auto
  with d(1) show ?thesis by blast
qed

text \<open>Clearing a buffer frees the data blocks it owns, each once, and nothing else; its
  nodes are back on the free list, and the buffer is as new.\<close>

lemma databuffer_clear_frees:
  assumes "db_rep R RB qs fs db mp h"
  shows "\<exists>mp' h'. databuffer_clear db mp h = Inr (databuffer_zero, mp', h') \<and>
    db_holds R RB (databuffer_zero, mp', h') [] \<and> frame R RB h h' \<and>
    bufs h' = bufs h |` (- set (map q_buf qs)) \<and> dom (msgs h') = dom (msgs h)"
proof -
  obtain mp' h' where c: "databuffer_clear db mp h = Inr (databuffer_zero, mp', h')"
      "db_holds R RB (databuffer_zero, mp', h') []" "frame R RB h h'"
      "bufs h' = bufs h |` (- set (map q_buf qs))" "pools h' = pools h"
    using databuffer_clear_holds [OF assms] by blast
  have "pool_inv mp h" "pool_inv mp' h'"
    using assms c(2) by (auto simp: db_rep_def db_holds_def)
  then have "dom (msgs h') = dom (msgs h)"
    using c(5) by (simp add: pool_inv_dom)
  then show ?thesis using c(1-4) by blast
qed

lemma databuffer_clear_frees_witness:
  "\<exists>mp' h'. databuffer_clear databuffer_zero no_pool (start_heap [7 \<mapsto> [1]]) =
    Inr (databuffer_zero, mp', h') \<and> bufs h' = [7 \<mapsto> [1]]"
proof -
  have "db_rep {} {7} [] [] databuffer_zero no_pool (start_heap [7 \<mapsto> [1]])"
    by (simp add: db_rep_def databuffer_zero_def) (simp add: no_pool_def)
  from databuffer_clear_frees [OF this] show ?thesis by auto
qed

text \<open>Freeing the pool frees every pool block and with it every node, whatever buffers and
  free list they are on, and ends.\<close>

lemma messagepool_free_releases:
  assumes "pool_inv mp h" and "below_brk h"
  shows "messagepool_free mp h = Inr (no_pool, h\<lparr>pools := Map.empty, msgs := Map.empty\<rparr>)"
  using messagepool_free_all [OF assms] by (simp add: no_pool_def)

lemma messagepool_free_releases_witness:
  "messagepool_free no_pool (start_heap Map.empty) =
    Inr (no_pool, (start_heap Map.empty)\<lparr>pools := Map.empty, msgs := Map.empty\<rparr>)"
  by (rule messagepool_free_releases) simp_all

end
