(* ===== verification/Gate.thy ===== *)
theory Gate
  imports Hashid Databuffer
begin

unbundle bit_operations_syntax

text \<open>
  The gate service, \<^verbatim>\<open>service_gate.c\<close>: it accepts connections, cuts what they receive into
  packets and forwards each packet to the broker, to the agent of the connection or to the
  watchdog.  A handler takes the state \<open>gst\<close> (the gate structure, the memory of the receive
  buffers, and the trace of calls made to the framework so far) and returns it changed.  What
  the framework answers is the record \<open>env\<close>.  The socket id \<^verbatim>\<open>skynet_socket_connect\<close> returns is a function
  of its arguments and of the number of such calls before it, \<open>st_opened\<close>, since every call opens another socket;
  for the other functions one of the arguments is enough.  A pointer to a connection is its index.

  The values of \<^verbatim>\<open>PTYPE_*\<close> and \<^verbatim>\<open>SKYNET_SOCKET_TYPE_*\<close> are those of \<^verbatim>\<open>lualib/skynet.lua\<close>
  and \<^verbatim>\<open>lualib/skynet/socket.lua\<close>; the flag \<^verbatim>\<open>PTYPE_TAG_DONTCOPY\<close> is the
  field \<open>dontcopy\<close> of \<open>env\<close>.
\<close>

section \<open>Data\<close>

definition PTYPE_TEXT :: int where "PTYPE_TEXT = 0"
definition PTYPE_CLIENT :: int where "PTYPE_CLIENT = 3"
definition PTYPE_SOCKET :: int where "PTYPE_SOCKET = 6"

definition SOCKET_DATA :: int where "SOCKET_DATA = 1"
definition SOCKET_CONNECT :: int where "SOCKET_CONNECT = 2"
definition SOCKET_CLOSE :: int where "SOCKET_CLOSE = 3"
definition SOCKET_ACCEPT :: int where "SOCKET_ACCEPT = 4"
definition SOCKET_ERROR :: int where "SOCKET_ERROR = 5"
definition SOCKET_WARNING :: int where "SOCKET_WARNING = 7"

definition BACKLOG :: int where "BACKLOG = 32"

record connection =
  c_id :: int
  c_agent :: "32 word"
  c_client :: "32 word"
  c_remote_name :: "byte list"
  c_buffer :: databuffer

record gate =
  listen_id :: int
  watchdog :: "32 word"
  broker :: "32 word"
  client_tag :: int
  header_size :: int
  max_connection :: int
  g_hash :: hashid
  g_conn :: "connection list"
  g_mp :: messagepool
  g_bind :: "byte list"

datatype effect =
    Socket_close int
  | Socket_start int
  | Socket_listen "byte list" int int
  | Socket_connect "byte list" int
  | Socket_send int "byte list"
  | Send "32 word" "32 word" int int "byte list"  \<comment> \<open>source, destination, type, session, message\<close>
  | Queryname "byte list"
  | Callback
  | Log "byte list"

record gst =
  st_gate :: gate
  st_heap :: dheap
  st_out :: "effect list"
  st_opened :: nat   \<comment> \<open>calls of \<^verbatim>\<open>skynet_socket_connect\<close> so far\<close>

record env =
  mem :: "nat \<Rightarrow> bool"
  sock_listen :: "byte list \<Rightarrow> int \<Rightarrow> int \<Rightarrow> int"
  sock_connect :: "nat \<Rightarrow> byte list \<Rightarrow> int \<Rightarrow> int"
  queryname :: "byte list \<Rightarrow> 32 word"
  getenv :: "byte list \<Rightarrow> byte list option"
  dontcopy :: int

record socket_message =
  sm_type :: int
  sm_id :: int
  sm_ud :: int
  sm_buffer :: ptr
  sm_name :: "byte list"   \<comment> \<open>the bytes after the structure, \<^verbatim>\<open>message + 1\<close>\<close>

definition emit :: "effect \<Rightarrow> gst \<Rightarrow> gst" where
  "emit e st = st\<lparr>st_out := st_out st @ [e]\<rparr>"

definition upd_gate :: "(gate \<Rightarrow> gate) \<Rightarrow> gst \<Rightarrow> gst" where
  "upd_gate f st = st\<lparr>st_gate := f (st_gate st)\<rparr>"

definition zero_conn :: connection where
  "zero_conn = \<lparr>c_id = 0, c_agent = 0, c_client = 0, c_remote_name = replicate 32 0,
     c_buffer = databuffer_zero\<rparr>"

section \<open>Creation and release\<close>

definition gate_create :: "env \<Rightarrow> gate res" where
  "gate_create e =
     check (mem e 288) OutOfMemory (
     Inr \<lparr>listen_id = -1, watchdog = 0, broker = 0, client_tag = 0, header_size = 0,
          max_connection = 0,
          g_hash = \<lparr>hashmod = 0, cap = 0, count = 0, ids = [], hash = []\<rparr>,
          g_conn = [], g_mp = no_pool, g_bind = replicate 200 0\<rparr>)"

function close_conns :: "connection list \<Rightarrow> int \<Rightarrow> int \<Rightarrow> effect list res" where
  "close_conns cs i n =
     (if i < n
      then bind_res (arr_get cs i) (\<lambda>c.
           bind_res (close_conns cs (i + 1) n) (\<lambda>es.
           Inr ((if c_id c \<ge> 0 then [Socket_close (c_id c)] else []) @ es)))
      else Inr [])"
  by pat_completeness auto
termination
  by (relation "measure (\<lambda>(cs, i, n). nat (n - i))") auto

definition gate_release :: "gst \<Rightarrow> (dheap \<times> effect list) res" where
  \<comment> \<open>the gate structure and its arrays are gone; what is left is the memory of the buffers\<close>
  "gate_release st =
     (let g = st_gate st in
      bind_res (close_conns (g_conn g) 0 (max_connection g)) (\<lambda>es.
      bind_res (messagepool_free (g_mp g) (st_heap st)) (\<lambda>(mp, h).
      Inr (h, st_out st @ es @ (if listen_id g \<ge> 0 then [Socket_close (listen_id g)] else [])))))"

section \<open>Control messages\<close>

function parm_skip :: "byte list \<Rightarrow> int \<Rightarrow> int \<Rightarrow> int res" where
  "parm_skip msg sz command_sz =
     (if command_sz < sz
      then bind_res (arr_get msg command_sz) (\<lambda>b.
           if b \<noteq> 32 then Inr command_sz else parm_skip msg sz (command_sz + 1))
      else Inr command_sz)"
  by pat_completeness auto
termination
  by (relation "measure (\<lambda>(msg, sz, c). nat (sz - c))") auto

function parm_copy :: "byte list \<Rightarrow> int \<Rightarrow> int \<Rightarrow> int \<Rightarrow> byte list res" where
  "parm_copy msg sz command_sz i =
     (if i < sz
      then bind_res (arr_get msg i) (\<lambda>b.
           bind_res (arr_set msg (i - command_sz) b) (\<lambda>msg'.
           parm_copy msg' sz command_sz (i + 1)))
      else arr_set msg (i - command_sz) 0)"
  by pat_completeness auto
termination
  by (relation "measure (\<lambda>(msg, sz, c, i). nat (sz - i))") auto

definition parm :: "byte list \<Rightarrow> int \<Rightarrow> int \<Rightarrow> byte list res" where
  "parm msg sz command_sz =
     bind_res (parm_skip msg sz command_sz) (\<lambda>c. parm_copy msg sz c c)"

definition forward_agent :: "int \<Rightarrow> 32 word \<Rightarrow> 32 word \<Rightarrow> gst \<Rightarrow> gst res" where
  "forward_agent fd agentaddr clientaddr st =
     bind_res (hashid_lookup (g_hash (st_gate st)) fd) (\<lambda>id.
     let st = emit (Log (str ''_forward_agent id = '' @ dec id)) st in
     if id \<ge> 0
     then bind_res (arr_get (g_conn (st_gate st)) id) (\<lambda>agent.
          Inr (upd_gate (\<lambda>g. g\<lparr>g_conn := (g_conn g)[nat id :=
                 agent\<lparr>c_agent := agentaddr, c_client := clientaddr\<rparr>]\<rparr>) st))
     else Inr st)"

definition listen_on :: "env \<Rightarrow> byte list \<Rightarrow> int \<Rightarrow> byte list \<Rightarrow> gst \<Rightarrow> (int \<times> byte list \<times> gst) res" where
  "listen_on e host port listen_addr st =
     (let fd = sock_listen e host port BACKLOG;
          st = upd_gate (\<lambda>g. g\<lparr>listen_id := fd\<rparr>) (emit (Socket_listen host port BACKLOG) st) in
      if fd < 0 then Inr (1, listen_addr, st)
      else bind_res (c_str listen_addr 0) (\<lambda>s.
        Inr (0, listen_addr,
             emit (Log (str ''start listen address '' @ s)) (emit (Socket_start fd) st))))"

definition start_listen :: "env \<Rightarrow> byte list \<Rightarrow> gst \<Rightarrow> (int \<times> byte list \<times> gst) res" where
  \<comment> \<open>the status, the address array (its colon is overwritten) and the state\<close>
  "start_listen e listen_addr st =
     bind_res (c_str listen_addr 0) (\<lambda>s.
     case strchr s 58 of
       None \<Rightarrow>
         (let port = to_int (strtol 10 s) in
          if port \<le> 0
          then Inr (1, listen_addr, emit (Log (str ''Invalid gate address '' @ s)) st)
          else listen_on e [] port listen_addr st)
     | Some k \<Rightarrow>
         (let port = to_int (strtol 10 (drop (k + 1) s)) in
          if port \<le> 0
          then Inr (1, listen_addr, emit (Log (str ''Invalid gate address '' @ s)) st)
          else listen_on e (take k s) port (listen_addr[k := 0]) st))"

definition ctrl_kick :: "byte list \<Rightarrow> int \<Rightarrow> int \<Rightarrow> gst \<Rightarrow> gst res" where
  "ctrl_kick tmp sz i st =
     bind_res (parm tmp sz i) (\<lambda>tmp.
     bind_res (c_str tmp 0) (\<lambda>command.
     let uid = to_int (strtol 10 command) in
     bind_res (hashid_lookup (g_hash (st_gate st)) uid) (\<lambda>id.
     Inr (if id \<ge> 0 then emit (Socket_close uid) st else st))))"

definition ctrl_forward :: "byte list \<Rightarrow> int \<Rightarrow> int \<Rightarrow> gst \<Rightarrow> gst res" where
  "ctrl_forward tmp sz i st =
     (let st = emit (Log (str ''forward i  = '' @ dec i)) st in
      bind_res (parm tmp sz i) (\<lambda>tmp.
      bind_res (strsep tmp (Some 0) 32) (\<lambda>(idstr, tmp, client).
      if client = None then Inr st
      else bind_res (c_str tmp (the idstr)) (\<lambda>s.
      let id = to_int (strtol 10 s);
          st = emit (Log (str ''forward id  = '' @ dec id)) st in
      bind_res (strsep tmp client 32) (\<lambda>(agent, tmp, client).
      if client = None then Inr st
      else bind_res (c_str tmp (the agent + 1)) (\<lambda>s.
      let agent_handle = word_of_int (strtoul 16 s);
          st = emit (Log (str ''forward agent_handle = '' @ udec agent_handle)) st in
      bind_res (c_str tmp (the client + 1)) (\<lambda>s.
      let client_handle = word_of_int (strtoul 16 s);
          st = emit (Log (str ''forward client_handle = '' @ udec client_handle)) st in
      forward_agent id agent_handle client_handle st)))))))"

definition ctrl_broker :: "env \<Rightarrow> byte list \<Rightarrow> int \<Rightarrow> int \<Rightarrow> gst \<Rightarrow> gst res" where
  "ctrl_broker e tmp sz i st =
     bind_res (parm tmp sz i) (\<lambda>tmp.
     bind_res (c_str tmp 0) (\<lambda>command.
     Inr (upd_gate (\<lambda>g. g\<lparr>broker := queryname e command\<rparr>) (emit (Queryname command) st))))"

definition ctrl_start :: "byte list \<Rightarrow> int \<Rightarrow> int \<Rightarrow> gst \<Rightarrow> gst res" where
  "ctrl_start tmp sz i st =
     bind_res (parm tmp sz i) (\<lambda>tmp.
     bind_res (c_str tmp 0) (\<lambda>command.
     let uid = to_int (strtol 10 command) in
     bind_res (hashid_lookup (g_hash (st_gate st)) uid) (\<lambda>id.
     Inr (if id \<ge> 0 then emit (Socket_start uid) st else st))))"

definition ctrl_close :: "gst \<Rightarrow> gst" where
  "ctrl_close st =
     (if listen_id (st_gate st) \<ge> 0
      then upd_gate (\<lambda>g. g\<lparr>listen_id := -1\<rparr>) (emit (Socket_close (listen_id (st_gate st))) st)
      else st)"

function skip_spaces :: "byte list \<Rightarrow> int \<Rightarrow> int res" where
  \<comment> \<open>\<^verbatim>\<open>while (*p != 0 && *p == ' ') ++p\<close>\<close>
  "skip_spaces arr p =
     (if p < 0 \<or> int (length arr) \<le> p then Inl OutOfBounds
      else if arr ! nat p \<noteq> 0 \<and> arr ! nat p = 32 then skip_spaces arr (p + 1) else Inr p)"
  by pat_completeness auto
termination
  by (relation "measure (\<lambda>(arr, p). nat (int (length arr) - p))") auto

function copy_word :: "nat \<Rightarrow> byte list \<Rightarrow> int \<Rightarrow> byte list \<Rightarrow> (byte list \<times> int) res" where
  \<comment> \<open>\<^verbatim>\<open>while (*p != 0 && *p != ' ') buf[i++] = *p++; buf[i] = 0\<close> into a \<^verbatim>\<open>buf\<close> of \<open>n\<close> bytes\<close>
  "copy_word n arr p buf =
     (if p < 0 \<or> int (length arr) \<le> p then Inl OutOfBounds
      else check (length buf < n) OutOfBounds (
        if arr ! nat p \<noteq> 0 \<and> arr ! nat p \<noteq> 32
        then copy_word n arr (p + 1) (buf @ [arr ! nat p])
        else Inr (buf, p)))"
  by pat_completeness auto
termination
  by (relation "measure (\<lambda>(n, arr, p, buf). nat (int (length arr) - p))") auto

definition ctrl_connect :: "env \<Rightarrow> byte list \<Rightarrow> int \<Rightarrow> 32 word \<Rightarrow> gst \<Rightarrow> gst res" where
  "ctrl_connect e tmp i source st =
     bind_res (skip_spaces tmp (i + 1)) (\<lambda>p.
     bind_res (copy_word 100 tmp p []) (\<lambda>(ip, p).
     bind_res (skip_spaces tmp p) (\<lambda>p.
     bind_res (copy_word 50 tmp p []) (\<lambda>(port, p).
     let iport = atoi port in
     if hashid_full (g_hash (st_gate st)) then Inr st
     else let fd = sock_connect e (st_opened st) ip iport;
              st = emit (Socket_connect ip iport) (st\<lparr>st_opened := st_opened st + 1\<rparr>) in
          bind_res (hashid_insert (g_hash (st_gate st)) fd) (\<lambda>(index, hi).
          bind_res (forward_agent fd source 0 (upd_gate (\<lambda>g. g\<lparr>g_hash := hi\<rparr>) st)) (\<lambda>st.
          Inr (emit (Log (str ''connect to '' @ ip @ str '' port '' @ dec iport)) st)))))))"

definition ctrl_listen :: "env \<Rightarrow> gst \<Rightarrow> gst res" where
  "ctrl_listen e st =
     bind_res (start_listen e (g_bind (st_gate st)) st) (\<lambda>(r, addr, st).
     Inr (upd_gate (\<lambda>g. g\<lparr>g_bind := addr\<rparr>) st))"

definition ctrl :: "env \<Rightarrow> byte list \<Rightarrow> 32 word \<Rightarrow> gst \<Rightarrow> gst res" where
  "ctrl e msg source st =
     check (int (length msg) < INT_MAX) OutOfBounds (
     let sz = int (length msg);
         tmp = msg @ [0];
         n = length (takeWhile (\<lambda>b. b \<noteq> 32) msg);
         i = int n in
     if sz = 0 then Inr st
     else
     bind_res (memcmp_eq tmp (str ''kick'' @ [0]) n) (\<lambda>is_kick.
     if is_kick then ctrl_kick tmp sz i st else
     bind_res (memcmp_eq tmp (str ''forward'' @ [0]) n) (\<lambda>is_forward.
     if is_forward then ctrl_forward tmp sz i st else
     bind_res (memcmp_eq tmp (str ''broker'' @ [0]) n) (\<lambda>is_broker.
     if is_broker then ctrl_broker e tmp sz i st else
     bind_res (memcmp_eq tmp (str ''start'' @ [0]) n) (\<lambda>is_start.
     if is_start then ctrl_start tmp sz i st else
     bind_res (memcmp_eq tmp (str ''close'' @ [0]) n) (\<lambda>is_close.
     if is_close then Inr (ctrl_close st) else
     bind_res (memcmp_eq tmp (str ''connect'' @ [0]) n) (\<lambda>is_connect.
     if is_connect then ctrl_connect e tmp i source st else
     bind_res (memcmp_eq tmp (str ''listen'' @ [0]) n) (\<lambda>is_listen.
     if is_listen then ctrl_listen e st else
     bind_res (c_str tmp 0) (\<lambda>command.
     Inr (emit (Log (str ''[gate] Unkown command : '' @ command)) st))))))))))"

section \<open>Socket messages\<close>

definition report :: "byte list \<Rightarrow> gst \<Rightarrow> gst res" where
  \<comment> \<open>\<open>data\<close> is the formatted text; \<^verbatim>\<open>tmp\<close> and \<^verbatim>\<open>str\<close> have 1024 bytes\<close>
  "report data st =
     (if watchdog (st_gate st) = 0 then Inr st
      else check (4 + length data \<le> 1024) OutOfBounds (
        Inr (emit (Send 0 (watchdog (st_gate st)) PTYPE_TEXT 0 ([0, 0, 0, 19] @ data)) st)))"

definition conn_read :: "nat \<Rightarrow> int \<Rightarrow> gst \<Rightarrow> (byte list \<times> gst) res" where
  \<comment> \<open>\<^verbatim>\<open>databuffer_read(&c->buffer, &g->mp, _, size)\<close>\<close>
  "conn_read c psize st =
     (let g = st_gate st in
      bind_res (databuffer_read (c_buffer (g_conn g ! c)) (g_mp g) (st_heap st) psize) (\<lambda>(bs, db, mp, h).
      Inr (bs, st\<lparr>st_heap := h, st_gate := g\<lparr>g_mp := mp,
             g_conn := (g_conn g)[c := (g_conn g ! c)\<lparr>c_buffer := db\<rparr>]\<rparr>\<rparr>)))"

definition forward :: "env \<Rightarrow> nat \<Rightarrow> int \<Rightarrow> gst \<Rightarrow> gst res" where
  "forward e c psize st =
     (let g = st_gate st; tag = client_tag g OR dontcopy e in
      if broker g \<noteq> 0
      then check (mem e (size_t psize)) OutOfMemory (
           bind_res (conn_read c psize st) (\<lambda>(temp, st).
           Inr (emit (Send 0 (broker g) tag 0 temp) st)))
      else if c_agent (g_conn g ! c) \<noteq> 0
      then check (mem e (size_t psize)) OutOfMemory (
           bind_res (conn_read c psize st) (\<lambda>(temp, st).
           Inr (emit (Send (c_client (g_conn g ! c)) (c_agent (g_conn g ! c)) tag 0 temp) st)))
      else if watchdog g \<noteq> 0
      then bind_res (c_int (psize + 32)) (\<lambda>n.
           check (mem e (size_t n)) OutOfMemory (
           bind_res (conn_read c psize st) (\<lambda>(temp, st).
           Inr (emit (Send 0 (watchdog g) tag 0 (dec (c_id (g_conn g ! c)) @ [32] @ temp)) st))))
      else Inr st)"

definition conn_buffer :: "nat \<Rightarrow> databuffer \<times> messagepool \<times> dheap \<Rightarrow> gst \<Rightarrow> gst" where
  \<comment> \<open>the state after an operation on the buffer of a connection\<close>
  "conn_buffer c s st = (case s of (db, mp, h) \<Rightarrow>
     st\<lparr>st_heap := h, st_gate := (st_gate st)\<lparr>g_mp := mp,
       g_conn := (g_conn (st_gate st))[c := (g_conn (st_gate st) ! c)\<lparr>c_buffer := db\<rparr>]\<rparr>\<rparr>)"

fun dispatch_loop :: "nat \<Rightarrow> env \<Rightarrow> nat \<Rightarrow> int \<Rightarrow> gst \<Rightarrow> gst res" where
  "dispatch_loop 0 e c fd st = Inl Diverges"
| "dispatch_loop (Suc fuel) e c fd st =
     bind_res (databuffer_readheader (c_buffer (g_conn (st_gate st) ! c)) (g_mp (st_gate st))
        (st_heap st) (header_size (st_gate st))) (\<lambda>(psize, s).
     let st = conn_buffer c s st in
     if psize < 0 then Inr st
     else if psize > 0
     then if psize \<ge> 0x1000000
          then bind_res (databuffer_clear (c_buffer (g_conn (st_gate st) ! c)) (g_mp (st_gate st))
                 (st_heap st)) (\<lambda>s.
               Inr (emit (Log (str ''Recv socket message > 16M''))
                 (emit (Socket_close fd) (conn_buffer c s st))))
          else bind_res (forward e c psize st) (\<lambda>st.
               dispatch_loop fuel e c fd
                 (conn_buffer c (databuffer_reset (c_buffer (g_conn (st_gate st) ! c)),
                    g_mp (st_gate st), st_heap st) st))
     else dispatch_loop fuel e c fd st)"

definition dispatch_message :: "env \<Rightarrow> nat \<Rightarrow> int \<Rightarrow> ptr \<Rightarrow> int \<Rightarrow> gst \<Rightarrow> gst res" where
  "dispatch_message e c fd data sz st =
     (let g = st_gate st in
      bind_res (databuffer_push (mem e) (c_buffer (g_conn g ! c)) (g_mp g) (st_heap st) data sz) (\<lambda>s.
      let st = conn_buffer c s st in
      dispatch_loop (Suc (nat (db_size (c_buffer (g_conn (st_gate st) ! c))))) e c fd st))"

section \<open>Handlers\<close>

definition on_data :: "env \<Rightarrow> socket_message \<Rightarrow> gst \<Rightarrow> gst res" where
  "on_data e message st =
     bind_res (hashid_lookup (g_hash (st_gate st)) (sm_id message)) (\<lambda>id.
     if id \<ge> 0
     then check (nat id < length (g_conn (st_gate st))) OutOfBounds (
          dispatch_message e (nat id) (sm_id message) (sm_buffer message) (sm_ud message) st)
     else let st = emit (Socket_close (sm_id message)) st in
          bind_res (dealloc (bufs (st_heap st)) (sm_buffer message)) (\<lambda>bs.
          Inr (st\<lparr>st_heap := (st_heap st)\<lparr>bufs := bs\<rparr>\<rparr>)))"

definition on_connect :: "socket_message \<Rightarrow> gst \<Rightarrow> gst res" where
  \<comment> \<open>\<^verbatim>\<open>htonl(19)\<close> on a little-endian machine is 0x13000000\<close>
  "on_connect message st =
     (if sm_id message = listen_id (st_gate st) then Inr (emit (Log (str ''listen ok'')) st)
      else bind_res (hashid_lookup (g_hash (st_gate st)) (sm_id message)) (\<lambda>id.
        if id < 0 then Inr (emit (Socket_close (sm_id message)) st)
        else bind_res (arr_get (g_conn (st_gate st)) id) (\<lambda>c.
          let sendline = take 99 (udec 0x13000000 @ str '' connected '' @ dec (sm_id message)) in
          Inr (emit (Send 0 (c_agent c) PTYPE_TEXT 0 sendline) st))))"

definition on_close :: "socket_message \<Rightarrow> gst \<Rightarrow> gst res" where
  "on_close message st =
     bind_res (hashid_remove (g_hash (st_gate st)) (sm_id message)) (\<lambda>(id, hi).
     let st = upd_gate (\<lambda>g. g\<lparr>g_hash := hi\<rparr>) st in
     if id \<ge> 0
     then bind_res (arr_get (g_conn (st_gate st)) id) (\<lambda>c.
          let st = emit (Log (str ''socket close: '' @ dec (c_id c) @ str '', msg id:'' @ dec (sm_id message))) st in
          bind_res (databuffer_clear (c_buffer c) (g_mp (st_gate st)) (st_heap st)) (\<lambda>(db, mp, h).
          report (str ''gate close '' @ dec (sm_id message) @ [32] @ udec (c_agent c))
            (st\<lparr>st_heap := h, st_gate := (st_gate st)\<lparr>g_mp := mp,
               g_conn := (g_conn (st_gate st))[nat id := zero_conn\<lparr>c_id := -1\<rparr>]\<rparr>\<rparr>)))
     else Inr st)"

definition set_name :: "byte list \<Rightarrow> byte list \<Rightarrow> byte list" where
  \<comment> \<open>the name field of 32 bytes after the copy of at most 31 bytes and the terminating zero\<close>
  "set_name old name = (let n = take 31 name in n @ [0] @ drop (Suc (length n)) old)"

definition on_accept :: "socket_message \<Rightarrow> gst \<Rightarrow> gst res" where
  "on_accept message st =
     check (listen_id (st_gate st) = sm_id message) AssertFail (
     if hashid_full (g_hash (st_gate st)) then Inr (emit (Socket_close (sm_ud message)) st)
     else bind_res (hashid_insert (g_hash (st_gate st)) (sm_ud message)) (\<lambda>(id, hi).
          let st = upd_gate (\<lambda>g. g\<lparr>g_hash := hi\<rparr>) st in
          bind_res (arr_get (g_conn (st_gate st)) id) (\<lambda>c.
          let c = c\<lparr>c_id := sm_ud message, c_remote_name := set_name (c_remote_name c) (sm_name message)\<rparr>;
              st = upd_gate (\<lambda>g. g\<lparr>g_conn := (g_conn g)[nat id := c]\<rparr>) st in
          bind_res (c_str (c_remote_name c) 0) (\<lambda>name.
          bind_res (report (str ''gate accept '' @ dec (c_id c) @ [32] @ name) st) (\<lambda>st.
          Inr (emit (Log (str ''socket open: '' @ dec (c_id c))) st))))))"

definition on_warning :: "socket_message \<Rightarrow> gst \<Rightarrow> gst" where
  "on_warning message st =
     emit (Log (str ''fd ('' @ dec (sm_id message) @ str '') send buffer ('' @ dec (sm_ud message) @ str '')K'')) st"

definition dispatch_socket_message :: "env \<Rightarrow> socket_message \<Rightarrow> gst \<Rightarrow> gst res" where
  "dispatch_socket_message e message st =
     (if sm_type message = SOCKET_DATA then on_data e message st
      else if sm_type message = SOCKET_CONNECT then on_connect message st
      else if sm_type message = SOCKET_CLOSE \<or> sm_type message = SOCKET_ERROR then on_close message st
      else if sm_type message = SOCKET_ACCEPT then on_accept message st
      else if sm_type message = SOCKET_WARNING then Inr (on_warning message st)
      else Inr st)"

definition on_client :: "32 word \<Rightarrow> byte list \<Rightarrow> gst \<Rightarrow> (int \<times> gst) res" where
  \<comment> \<open>the last four bytes are the id of the socket, little-endian\<close>
  "on_client source msg st =
     (if length msg \<le> 4
      then Inr (0, emit (Log (str ''Invalid client message from '' @ hex source)) st)
      else let idbuf = drop (length msg - 4) msg;
               uid = ucast (idbuf ! 0) OR push_bit 8 (ucast (idbuf ! 1)) OR
                 push_bit 16 (ucast (idbuf ! 2)) OR push_bit 24 (ucast (idbuf ! 3)) :: 32 word;
               st = emit (Log (str ''uid is '' @ dec (sint uid))) st in
           bind_res (hashid_lookup (g_hash (st_gate st)) (sint uid)) (\<lambda>id.
           if id \<ge> 0
           then Inr (1, emit (Socket_send (sint uid) (take (length msg - 4) msg))
                  (emit (Log (str ''gate accept client msg uid = '' @ dec (sint uid))) st))
           else Inr (0, emit (Log (str ''Invalid client id '' @ dec (sint uid) @ str '' from '' @ hex source)) st)))"

definition cb :: "env \<Rightarrow> int \<Rightarrow> 32 word \<Rightarrow> byte list \<Rightarrow> socket_message \<Rightarrow> gst \<Rightarrow> (int \<times> gst) res" where
  \<comment> \<open>the message memory as bytes and, for \<^verbatim>\<open>PTYPE_SOCKET\<close>, as the socket structure\<close>
  "cb e type source msg message st =
     (if type = PTYPE_TEXT then bind_res (ctrl e msg source st) (\<lambda>st. Inr (0, st))
      else if type = PTYPE_CLIENT then on_client source msg st
      else if type = PTYPE_SOCKET then bind_res (dispatch_socket_message e message st) (\<lambda>st. Inr (0, st))
      else Inr (0, st))"

section \<open>Initialisation\<close>

definition scan_binding :: "byte list \<Rightarrow> (byte list \<times> 32 word) res" where
  \<comment> \<open>\<^verbatim>\<open>sscanf(parm, "%s %u", binding, &watchdog)\<close>; both are used whether they were stored or not\<close>
  "scan_binding s =
     (let s = dropWhile isspace s;
          w = takeWhile (\<lambda>b. \<not> isspace b) s;
          r = dropWhile isspace (drop (length w) s);
          d = (case r of b # bs \<Rightarrow> if b = 45 \<or> b = 43 then bs else r | [] \<Rightarrow> []) in
      check (w \<noteq> []) Uninitialised (
      check (d \<noteq> [] \<and> 48 \<le> hd d \<and> hd d \<le> 57) Uninitialised (
      Inr (w, word_of_int (strtoul 10 r)))))"

definition gate_init :: "env \<Rightarrow> byte list option \<Rightarrow> gst \<Rightarrow> (int \<times> gst) res" where
  \<comment> \<open>bytes of \<^verbatim>\<open>binding\<close> that are never read are zero here\<close>
  "gate_init e p st =
     (case p of
        None \<Rightarrow> Inr (1, st)
      | Some p \<Rightarrow>
          let sz = length p + 1 in
          bind_res (scan_binding p) (\<lambda>(w, wd).
          let binding = w @ replicate (sz - length w) 0;
              st = upd_gate (\<lambda>g. g\<lparr>watchdog := wd\<rparr>) st in
          (case getenv e (str ''max_online'') of
             None \<Rightarrow> Inl NullDeref
           | Some mo \<Rightarrow>
               let mx = atoi mo in
               bind_res (hashid_init (mem e) mx) (\<lambda>hi.
               check (mem e (size_t (mx * 80))) OutOfMemory (
               let st = emit Callback (upd_gate (\<lambda>g. g\<lparr>g_hash := hi,
                     g_conn := map (\<lambda>c. c\<lparr>c_id := -1\<rparr>) (replicate (nat mx) zero_conn),
                     max_connection := mx, client_tag := PTYPE_CLIENT, header_size := 4\<rparr>) st) in
               if hd w = 33 then Inr (0, st)
               else check (sz \<le> 200) OutOfBounds (
                 bind_res (start_listen e binding
                   (upd_gate (\<lambda>g. g\<lparr>g_bind := binding @ drop sz (g_bind g)\<rparr>) st)) (\<lambda>(r, a, st).
                 Inr (r, st))))))))"

declare parm_skip.simps [simp del] parm_copy.simps [simp del] skip_spaces.simps [simp del]
  copy_word.simps [simp del] close_conns.simps [simp del] dispatch_loop.simps [simp del]

end
