(* ===== verification/Framing.thy ===== *)
theory Framing
  imports Gate
begin

text \<open>
  What the gate does with the bytes of one connection.  \<open>frames\<close> is the reference: the packets
  of a byte stream, each a four-byte big-endian length and that many bytes, and the rest of
  the stream that is not a complete packet.  \<open>dispatch_loop_frames\<close> shows that the receive
  loop of \<^verbatim>\<open>dispatch_message\<close> sends exactly these packets, in order, and ends;
  \<open>frames_append\<close> that it does not matter where the stream was cut.
\<close>

section \<open>The reference\<close>

function frames :: "byte list \<Rightarrow> byte list list \<times> byte list" where
  "frames bs =
     (if length bs < 4 then ([], bs)
      else let v = as_int (be_value (take 4 bs)); body = drop 4 bs in
        if v < 0 \<or> 0x1000000 \<le> v \<or> int (length body) < v then ([], bs)
        else if v = 0 then frames body
        else let (ps, r) = frames (drop (nat v) body) in (take (nat v) body # ps, r))"
  by pat_completeness auto
termination
  by (relation "measure length") auto

declare frames.simps [simp del]

definition too_big :: "byte list \<Rightarrow> bool" where
  \<comment> \<open>the stream starts with a complete packet of 16M or more\<close>
  "too_big s \<longleftrightarrow> 4 \<le> length s \<and>
     (let v = as_int (be_value (take 4 s)) in 0x1000000 \<le> v \<and> v \<le> int (length s) - 4)"

lemma frames_short: "length bs < 4 \<Longrightarrow> frames bs = ([], bs)"
  by (subst frames.simps) simp

lemma frames_step:
  assumes "4 \<le> length bs" and "v = as_int (be_value (take 4 bs))"
  shows "v < 0 \<or> 0x1000000 \<le> v \<or> int (length bs) - 4 < v \<Longrightarrow> frames bs = ([], bs)"
    and "v = 0 \<Longrightarrow> frames bs = frames (drop 4 bs)"
    and "0 < v \<Longrightarrow> v < 0x1000000 \<Longrightarrow> v \<le> int (length bs) - 4 \<Longrightarrow>
      frames bs = (take (nat v) (drop 4 bs) # fst (frames (drop (nat v + 4) bs)),
                   snd (frames (drop (nat v + 4) bs)))"
  using assms by (subst frames.simps, auto simp: Let_def split: prod.splits)+

lemma frames_rest:
  assumes "frames bs = (ps, r)"
  shows "frames r = ([], r)"
  using assms
proof (induction bs arbitrary: ps r rule: frames.induct)
  case (1 bs)
  show ?case
  proof (cases "length bs < 4")
    case True
    then show ?thesis using 1(3) frames_short by auto
  next
    case False
    define v where "v = as_int (be_value (take 4 bs))"
    consider "v < 0 \<or> 0x1000000 \<le> v \<or> int (length bs) - 4 < v" | "v = 0" "int (length bs) - 4 \<ge> v"
      | "0 < v" "v < 0x1000000" "v \<le> int (length bs) - 4" by linarith
    then show ?thesis
    proof cases
      case 1
      then show ?thesis using \<open>frames bs = (ps, r)\<close> frames_step(1) [of bs v] False v_def by auto
    next
      case 2
      then show ?thesis
        using 1(1) [OF False refl refl] 1(3) frames_step(2) [of bs v] False
        by (simp add: v_def)
    next
      case 3
      have "frames r = ([], r)" if "frames (drop (nat v) (drop 4 bs)) = (qs, r)" for qs
        using 1(2) [OF False refl refl] that 3 by (auto simp: v_def)
      then show ?thesis
        using 1(3) frames_step(3) [OF _ v_def 3] False by (cases "frames (drop (nat v) (drop 4 bs))")
          (auto simp: add.commute)
    qed
  qed
qed

lemma frames_shorter: "length (snd (frames bs)) \<le> length bs"
proof (induction bs rule: frames.induct)
  case (1 bs)
  define v where "v = as_int (be_value (take 4 bs))"
  show ?case
  proof (cases "length bs < 4")
    case True
    then show ?thesis by (simp add: frames_short)
  next
    case False
    then consider "v < 0 \<or> 0x1000000 \<le> v \<or> int (length bs) - 4 < v" | "v = 0" |
      "0 < v" "v < 0x1000000" "v \<le> int (length bs) - 4" by linarith
    then show ?thesis
    proof cases
      case 1
      then show ?thesis using frames_step(1) [of bs v] False v_def by simp
    next
      case 2
      then show ?thesis
        using "1.IH"(1) [OF False refl refl] frames_step(2) [of bs v] False v_def by simp
    next
      case 3
      then have "length (snd (frames (drop (nat v) (drop 4 bs)))) \<le> length (drop (nat v) (drop 4 bs))"
        using "1.IH"(2) [OF False refl refl] False v_def by simp
      then show ?thesis using frames_step(3) [OF _ v_def 3] False by simp
    qed
  qed
qed

lemma frames_append:
  "frames (xs @ ys) = (fst (frames xs) @ fst (frames (snd (frames xs) @ ys)),
     snd (frames (snd (frames xs) @ ys)))"
proof (induction xs rule: frames.induct)
  case (1 xs)
  show ?case
  proof (cases "length xs < 4")
    case True
    then show ?thesis by (simp add: frames_short)
  next
    case False
    define v where "v = as_int (be_value (take 4 xs))"
    have v': "v = as_int (be_value (take 4 (xs @ ys)))" using False by (simp add: v_def)
    consider (stop) "v < 0 \<or> 0x1000000 \<le> v \<or> int (length xs) - 4 < v"
      | (zero) "v = 0" "v \<le> int (length xs) - 4"
      | (pkt) "0 < v" "v < 0x1000000" "v \<le> int (length xs) - 4" by linarith
    then show ?thesis
    proof cases
      case stop
      then show ?thesis using frames_step(1) [of xs v] False v_def by simp
    next
      case zero
      have "frames (drop 4 xs @ ys) = (fst (frames (drop 4 xs)) @ fst (frames (snd (frames (drop 4 xs)) @ ys)),
          snd (frames (snd (frames (drop 4 xs)) @ ys)))"
        using 1(1) [OF False refl refl] zero False by (simp add: v_def [symmetric])
      then show ?thesis
        using frames_step(2) [OF _ v_def] frames_step(2) [OF _ v'] zero False by simp
    next
      case pkt
      let ?t = "drop (nat v + 4) xs"
      have len: "nat v + 4 \<le> length xs" using pkt False by linarith
      have IH: "frames (?t @ ys) = (fst (frames ?t) @ fst (frames (snd (frames ?t) @ ys)),
          snd (frames (snd (frames ?t) @ ys)))"
        using 1(2) [OF False refl refl] pkt False by (simp add: v_def [symmetric] add.commute)
      have "frames (xs @ ys) = (take (nat v) (drop 4 (xs @ ys)) # fst (frames (drop (nat v + 4) (xs @ ys))),
          snd (frames (drop (nat v + 4) (xs @ ys))))"
        using frames_step(3) [OF _ v'] pkt False by simp
      moreover have "drop (nat v + 4) (xs @ ys) = ?t @ ys"
        "take (nat v) (drop 4 (xs @ ys)) = take (nat v) (drop 4 xs)"
        using len by simp_all
      ultimately show ?thesis
        using frames_step(3) [OF _ v_def pkt] False IH by simp
    qed
  qed
qed

section \<open>The buffer of a connection\<close>

definition conn_at :: "nat \<Rightarrow> gst \<Rightarrow> dstate" where
  "conn_at c st = (c_buffer (g_conn (st_gate st) ! c), g_mp (st_gate st), st_heap st)"

definition send_of :: "env \<Rightarrow> nat \<Rightarrow> gst \<Rightarrow> byte list \<Rightarrow> effect" where
  \<comment> \<open>where a packet of a connection goes: the broker, else the agent, else the watchdog\<close>
  "send_of e c st p =
     (let g = st_gate st; k = g_conn g ! c; tag = or (client_tag g) (dontcopy e) in
      if broker g \<noteq> 0 then Send 0 (broker g) tag 0 p
      else if c_agent k \<noteq> 0 then Send (c_client k) (c_agent k) tag 0 p
      else Send 0 (watchdog g) tag 0 (dec (c_id k) @ [32] @ p))"

definition has_receiver :: "nat \<Rightarrow> gst \<Rightarrow> bool" where
  "has_receiver c st \<longleftrightarrow> broker (st_gate st) \<noteq> 0 \<or> c_agent (g_conn (st_gate st) ! c) \<noteq> 0 \<or>
     watchdog (st_gate st) \<noteq> 0"

lemma conn_buffer_gate [simp]:
  "listen_id (st_gate (conn_buffer c s st)) = listen_id (st_gate st)"
  "watchdog (st_gate (conn_buffer c s st)) = watchdog (st_gate st)"
  "broker (st_gate (conn_buffer c s st)) = broker (st_gate st)"
  "client_tag (st_gate (conn_buffer c s st)) = client_tag (st_gate st)"
  "header_size (st_gate (conn_buffer c s st)) = header_size (st_gate st)"
  "max_connection (st_gate (conn_buffer c s st)) = max_connection (st_gate st)"
  "g_hash (st_gate (conn_buffer c s st)) = g_hash (st_gate st)"
  "g_bind (st_gate (conn_buffer c s st)) = g_bind (st_gate st)"
  "st_out (conn_buffer c s st) = st_out st"
  "st_opened (conn_buffer c s st) = st_opened st"
  "length (g_conn (st_gate (conn_buffer c s st))) = length (g_conn (st_gate st))"
  by (cases s; simp add: conn_buffer_def)+

lemma conn_buffer_conn:
  "g_conn (st_gate (conn_buffer c (db, mp, h) st)) =
     (g_conn (st_gate st))[c := (g_conn (st_gate st) ! c)\<lparr>c_buffer := db\<rparr>]"
  "g_mp (st_gate (conn_buffer c (db, mp, h) st)) = mp"
  "st_heap (conn_buffer c (db, mp, h) st) = h"
  by (simp_all add: conn_buffer_def)

lemma conn_at_conn_buffer [simp]:
  "c < length (g_conn (st_gate st)) \<Longrightarrow> conn_at c (conn_buffer c s st) = s"
  by (cases s) (simp add: conn_at_def conn_buffer_conn)

lemma conn_buffer_twice [simp]:
  "c < length (g_conn (st_gate st)) \<Longrightarrow> conn_buffer c s (conn_buffer c s' st) = conn_buffer c s st"
  by (cases s; cases s') (simp add: conn_buffer_def)

lemma conn_buffer_out [simp]:
  "conn_buffer c s (st\<lparr>st_out := es\<rparr>) = (conn_buffer c s st)\<lparr>st_out := es\<rparr>"
  by (cases s) (simp add: conn_buffer_def)

lemma conn_buffer_no_out: "(conn_buffer c s st)\<lparr>st_out := st_out st\<rparr> = conn_buffer c s st"
  by (cases s; cases st) (simp add: conn_buffer_def)

lemma conn_buffer_same: "conn_buffer c (conn_at c st) st = st"
  by (simp add: conn_buffer_def conn_at_def)

lemma send_of_conn_buffer [simp]:
  "c < length (g_conn (st_gate st)) \<Longrightarrow> send_of e c (conn_buffer c s st) = send_of e c st"
  "c < length (g_conn (st_gate st)) \<Longrightarrow> has_receiver c (conn_buffer c s st) = has_receiver c st"
  by (cases s, simp add: send_of_def has_receiver_def conn_buffer_def Let_def fun_eq_iff)+

lemma conn_at_out [simp]:
  "conn_at c (st\<lparr>st_out := es\<rparr>) = conn_at c st"
  "send_of e c (st\<lparr>st_out := es\<rparr>) = send_of e c st"
  "has_receiver c (st\<lparr>st_out := es\<rparr>) = has_receiver c st"
  by (simp_all add: conn_at_def send_of_def has_receiver_def fun_eq_iff)

lemma conn_read_holds:
  assumes "db_holds R RB (conn_at c st) bs" and "0 < n" and "n \<le> length bs"
  shows "\<exists>s. conn_read c (int n) st = Inr (take n bs, conn_buffer c s st) \<and>
    db_holds R RB s (drop n bs) \<and> frame R RB (st_heap st) (snd (snd s)) \<and>
    db_header (fst s) = db_header (fst (conn_at c st))"
proof -
  obtain db mp h where at: "conn_at c st = (db, mp, h)" by (cases "conn_at c st")
  obtain db' mp' h' where "databuffer_read db mp h (int n) = Inr (take n bs, db', mp', h')"
      "db_holds R RB (db', mp', h') (drop n bs)" "frame R RB h h'" "db_header db' = db_header db"
    using databuffer_read_holds [OF assms(1) [unfolded at] assms(2,3)] by blast
  then show ?thesis
    using at by (intro exI [of _ "(db', mp', h')"]) (auto simp: conn_read_def conn_at_def conn_buffer_def Let_def)
qed

lemma forward_holds:
  assumes "db_holds R RB (conn_at c st) bs" and "0 < n" and "n \<le> length bs" and "int n < 0x1000000"
    and "has_receiver c st" and "\<forall>k. mem e k"
  shows "\<exists>s. forward e c (int n) st = Inr (emit (send_of e c st (take n bs)) (conn_buffer c s st)) \<and>
    db_holds R RB s (drop n bs) \<and> frame R RB (st_heap st) (snd (snd s))"
proof -
  obtain s where s: "conn_read c (int n) st = Inr (take n bs, conn_buffer c s st)"
      "db_holds R RB s (drop n bs)" "frame R RB (st_heap st) (snd (snd s))"
    using conn_read_holds [OF assms(1-3)] by blast
  have "in_int (int n + 32)" using assms(4) by auto
  then have "forward e c (int n) st = Inr (emit (send_of e c st (take n bs)) (conn_buffer c s st))"
    using s(1) assms(5,6) by (auto simp: forward_def send_of_def has_receiver_def Let_def)
  then show ?thesis using s by blast
qed

definition pending :: "int \<Rightarrow> byte list \<Rightarrow> byte list \<Rightarrow> bool" where
  \<comment> \<open>the stream of a connection: the header that was read, if any, and the bytes in the buffer\<close>
  "pending v bs s \<longleftrightarrow> (if v = 0 then s = bs
     else 4 \<le> length s \<and> v = as_int (be_value (take 4 s)) \<and> bs = drop 4 s)"

lemma readheader_stream:
  assumes "db_holds R RB (db, mp, h) bs" and "pending (db_header db) bs s"
  shows "length s < 4 \<Longrightarrow> databuffer_readheader db mp h 4 = Inr (-1, db, mp, h)"
    and "4 \<le> length s \<Longrightarrow> v = as_int (be_value (take 4 s)) \<Longrightarrow>
      \<exists>d. databuffer_readheader db mp h 4 = Inr (if int (length s) - 4 < v then -1 else v, d) \<and>
        db_holds R RB d (drop 4 s) \<and> frame R RB h (snd (snd d)) \<and> db_header (fst d) = v \<and>
        length s - 4 \<le> length bs \<and> (v = 0 \<longrightarrow> length s - 4 < length bs)"
proof -
  have size: "db_size db = int (length bs)" using assms(1) by (simp add: db_holds_def)
  show "databuffer_readheader db mp h 4 = Inr (-1, db, mp, h)" if "length s < 4"
    using that assms(2) size by (intro readheader_short) (auto simp: pending_def split: if_splits)
  assume s: "4 \<le> length s" and v: "v = as_int (be_value (take 4 s))"
  show "\<exists>d. databuffer_readheader db mp h 4 = Inr (if int (length s) - 4 < v then -1 else v, d) \<and>
        db_holds R RB d (drop 4 s) \<and> frame R RB h (snd (snd d)) \<and> db_header (fst d) = v \<and>
        length s - 4 \<le> length bs \<and> (v = 0 \<longrightarrow> length s - 4 < length bs)"
  proof (cases "db_header db = 0")
    case True
    then have "s = bs" using assms(2) by (simp add: pending_def)
    moreover have "header_value 4 (take (nat 4) bs) = Inr v"
      using header_value_four [of bs] s v \<open>s = bs\<close> by simp
    ultimately show ?thesis
      using readheader_holds [OF assms(1) True _ _ \<open>header_value 4 _ = _\<close>] s by auto
  next
    case False
    then have "db_header db = v" "bs = drop 4 s" using assms(2) v by (simp_all add: pending_def)
    then show ?thesis
      using readheader_pending [OF False, of mp h 4] assms(1) size s False
      by (intro exI [of _ "(db, mp, h)"]) (simp add: of_nat_diff)
  qed
qed

section \<open>The receive loop\<close>

definition overflow_out :: "int \<Rightarrow> byte list \<Rightarrow> effect list" where
  "overflow_out fd r = (if too_big r then [Socket_close fd, Log (str ''Recv socket message > 16M'')] else [])"

definition rest_of :: "byte list \<Rightarrow> byte list" where
  "rest_of r = (if too_big r then [] else r)"

lemma conn_buffer_at:
  assumes "c < length (g_conn (st_gate st))"
  shows "c_buffer (g_conn (st_gate (conn_buffer c d st)) ! c) = fst d"
    and "g_mp (st_gate (conn_buffer c d st)) = fst (snd d)"
    and "st_heap (conn_buffer c d st) = snd (snd d)"
  using conn_at_conn_buffer [OF assms, of d] by (metis conn_at_def fst_conv snd_conv)+

abbreviation after_header :: "nat \<Rightarrow> env \<Rightarrow> nat \<Rightarrow> int \<Rightarrow> gst \<Rightarrow> int \<Rightarrow> databuffer \<times> messagepool \<times> dheap \<Rightarrow> gst res" where
  \<comment> \<open>the rest of an iteration, after \<open>databuffer_readheader\<close> answered \<open>n\<close>\<close>
  "after_header fuel e c fd st n d \<equiv>
    (if n < 0 then Inr (conn_buffer c d st) else if n = 0 then dispatch_loop fuel e c fd (conn_buffer c d st)
     else if n \<ge> 0x1000000
     then bind_res (databuffer_clear (fst d) (fst (snd d)) (snd (snd d))) (\<lambda>s.
       Inr ((conn_buffer c s st)\<lparr>st_out := st_out st @
         [Socket_close fd, Log (str ''Recv socket message > 16M'')]\<rparr>))
     else bind_res (forward e c n (conn_buffer c d st)) (\<lambda>st2.
       dispatch_loop fuel e c fd
         (conn_buffer c (databuffer_reset (fst (conn_at c st2)), snd (conn_at c st2)) st2)))"

lemma dispatch_loop_step:
  assumes "c < length (g_conn (st_gate st))" and "conn_at c st = (db, mp, h)"
    and "databuffer_readheader db mp h (header_size (st_gate st)) = Inr (n, d)"
  shows "dispatch_loop (Suc fuel) e c fd st = after_header fuel e c fd st n d"
  using assms
  by (simp add: dispatch_loop.simps conn_at_def Let_def emit_def conn_buffer_at)

abbreviation loop_ok :: "addr set \<Rightarrow> addr set \<Rightarrow> nat \<Rightarrow> env \<Rightarrow> nat \<Rightarrow> int \<Rightarrow> gst \<Rightarrow> byte list \<Rightarrow> bool" where
  \<comment> \<open>the loop sends the packets of the stream and keeps the rest\<close>
  "loop_ok R RB fuel e c fd st s \<equiv> \<exists>d bs'. dispatch_loop fuel e c fd st =
      Inr ((conn_buffer c d st)\<lparr>st_out := st_out st @ map (send_of e c st) (fst (frames s)) @
        overflow_out fd (snd (frames s))\<rparr>) \<and>
    db_holds R RB d bs' \<and> frame R RB (st_heap st) (snd (snd d)) \<and>
    pending (db_header (fst d)) bs' (rest_of (snd (frames s)))"

abbreviation loop_at :: "addr set \<Rightarrow> addr set \<Rightarrow> env \<Rightarrow> nat \<Rightarrow> gst \<Rightarrow> byte list \<Rightarrow> byte list \<Rightarrow> bool" where
  \<comment> \<open>the connection has a receiver, its buffer holds \<open>bs\<close>, and \<open>s\<close> is the stream still to be cut\<close>
  "loop_at R RB e c st bs s \<equiv> c < length (g_conn (st_gate st)) \<and> db_holds R RB (conn_at c st) bs \<and>
    pending (db_header (fst (conn_at c st))) bs s \<and> header_size (st_gate st) = 4 \<and> (\<forall>k. mem e k) \<and> has_receiver c st"

lemma dispatch_read:
  assumes "loop_at R RB e c st bs s" and "4 \<le> length s" and "v = as_int (be_value (take 4 s))"
  obtains d where "db_holds R RB d (drop 4 s)" and "frame R RB (st_heap st) (snd (snd d))" and "db_header (fst d) = v"
    and "length s - 4 \<le> length bs" and "v = 0 \<longrightarrow> length s - 4 < length bs"
    and "dispatch_loop (Suc fuel) e c fd st = after_header fuel e c fd st (if int (length s) - 4 < v then -1 else v) d"
proof -
  obtain db mp h where at: "conn_at c st = (db, mp, h)" by (cases "conn_at c st")
  have c: "c < length (g_conn (st_gate st))" and hs: "header_size (st_gate st) = 4"
    and holds: "db_holds R RB (db, mp, h) bs" and pend: "pending (db_header db) bs s"
    using assms(1) at by simp_all
  obtain d where d: "databuffer_readheader db mp h 4 = Inr (if int (length s) - 4 < v then -1 else v, d)"
      "db_holds R RB d (drop 4 s)" "frame R RB h (snd (snd d))" "db_header (fst d) = v"
      "length s - 4 \<le> length bs" "v = 0 \<longrightarrow> length s - 4 < length bs"
    using readheader_stream(2) [OF holds pend assms(2,3)] by blast
  have "st_heap st = h" using at by (simp add: conn_at_def)
  moreover have "dispatch_loop (Suc fuel) e c fd st = after_header fuel e c fd st (if int (length s) - 4 < v then -1 else v) d"
    by (rule dispatch_loop_step [OF c at]) (simp only: hs d(1))
  ultimately show thesis using d(2-6) by (intro that [of d]) simp_all
qed

lemma dispatch_short:
  assumes "loop_at R RB e c st bs s" and "length s < 4"
  shows "loop_ok R RB (Suc fuel) e c fd st s"
proof -
  obtain db mp h where st: "conn_at c st = (db, mp, h)" by (cases "conn_at c st")
  then have "dispatch_loop (Suc fuel) e c fd st = Inr st"
    using dispatch_loop_step [OF _ st] readheader_stream(1) [of R RB db mp h bs s] assms conn_buffer_same [of c st]
    by simp
  moreover have "\<not> too_big s" using assms(2) by (simp add: too_big_def)
  ultimately show ?thesis
    using assms conn_buffer_same [of c st] st
    by (intro exI [of _ "(db, mp, h)"] exI [of _ bs]) (simp add: frames_short overflow_out_def rest_of_def conn_at_def)
qed

lemma dispatch_ends:
  assumes at: "loop_at R RB e c st bs s" and len: "4 \<le> length s"
    and v: "v = as_int (be_value (take 4 s))" "v < 0 \<or> int (length s) - 4 < v \<or> 0x1000000 \<le> v"
  shows "loop_ok R RB (Suc fuel) e c fd st s"
proof -
  have rest: "frames s = ([], s)" using frames_step(1) [OF len v(1)] v(2) by auto
  obtain d where d: "db_holds R RB d (drop 4 s)" "frame R RB (st_heap st) (snd (snd d))" "db_header (fst d) = v"
    and run: "dispatch_loop (Suc fuel) e c fd st = after_header fuel e c fd st (if int (length s) - 4 < v then -1 else v) d"
    by (rule dispatch_read [OF at len v(1)])
  show ?thesis
  proof (cases "too_big s")
    case True
    then have big: "0x1000000 \<le> v" "v \<le> int (length s) - 4" using v(1) by (auto simp: too_big_def Let_def)
    obtain qs fs where "db_rep R RB qs fs (fst d) (fst (snd d)) (snd (snd d))"
      using d(1) by (auto simp: db_holds_def split: prod.splits)
    from databuffer_clear_holds [OF this] obtain mp' h' where
      clear: "databuffer_clear (fst d) (fst (snd d)) (snd (snd d)) = Inr (databuffer_zero, mp', h')"
        "db_holds R RB (databuffer_zero, mp', h') []" "frame R RB (snd (snd d)) h'"
      by blast
    then show ?thesis
      using run rest True big frame_trans [OF d(2) clear(3)]
      by (intro exI [of _ "(databuffer_zero, mp', h')"] exI [of _ "[]"])
        (simp add: overflow_out_def rest_of_def pending_def databuffer_zero_def)
  next
    case False
    then have small: "v < 0 \<or> int (length s) - 4 < v" using v len by (auto simp: too_big_def Let_def)
    then have "dispatch_loop (Suc fuel) e c fd st = Inr (conn_buffer c d st)" using run by auto
    moreover have "pending v (drop 4 s) s" using small len v(1) by (auto simp: pending_def)
    ultimately show ?thesis
      using rest False d by (intro exI [of _ d] exI [of _ "drop 4 s"]) (simp add: overflow_out_def rest_of_def)
  qed
qed

lemma dispatch_goes:
  assumes at: "loop_at R RB e c st bs s" and len: "4 \<le> length s"
    and v: "v = as_int (be_value (take 4 s))" "0 \<le> v" "v < 0x1000000" "v \<le> int (length s) - 4"
  obtains d ps s' where "dispatch_loop (Suc fuel) e c fd st =
      dispatch_loop fuel e c fd ((conn_buffer c d st)\<lparr>st_out := st_out st @ map (send_of e c st) ps\<rparr>)"
    and "frames s = (ps @ fst (frames s'), snd (frames s'))" and "frame R RB (st_heap st) (snd (snd d))"
    and "db_holds R RB d s'" and "pending (db_header (fst d)) s' s'" and "length s' < length bs"
proof -
  have c: "c < length (g_conn (st_gate st))" using at by simp
  obtain d where d: "db_holds R RB d (drop 4 s)" "frame R RB (st_heap st) (snd (snd d))" "db_header (fst d) = v"
      "length s - 4 \<le> length bs" "v = 0 \<longrightarrow> length s - 4 < length bs"
    and run: "dispatch_loop (Suc fuel) e c fd st = after_header fuel e c fd st (if int (length s) - 4 < v then -1 else v) d"
    by (rule dispatch_read [OF at len v(1)])
  show thesis
  proof (cases "v = 0")
    case True
    then show thesis
      using run v d c frames_step(2) [OF len v(1)]
      by (intro that [of "[]" d "drop 4 s"]) (simp_all add: pending_def conn_buffer_no_out)
  next
    case False
    let ?n = "nat v" and ?r = "drop (nat v + 4) s"
    have "db_holds R RB (conn_at c (conn_buffer c d st)) (drop 4 s)" "?n \<le> length (drop 4 s)" using d(1) c v len by simp_all
    from forward_holds [OF this(1) _ this(2), of e] obtain t where t: "forward e c v (conn_buffer c d st) =
          Inr (emit (send_of e c st (take ?n (drop 4 s))) (conn_buffer c t st))"
        "db_holds R RB t ?r" "frame R RB (snd (snd d)) (snd (snd t))"
      using v False at by (auto simp: conn_buffer_at add.commute)
    let ?t = "(databuffer_reset (fst t), snd t)"
    have "db_holds R RB ?t ?r" using t(2) by (cases t) (simp add: databuffer_reset_def)
    then show thesis
      using run v False t c d(4) len frame_trans [OF d(2) t(3)] frames_step(3) [OF len v(1)]
      by (intro that [of "[take ?n (drop 4 s)]" ?t ?r]) (simp_all add: pending_def databuffer_reset_def emit_def)
  qed
qed

lemma dispatch_loop_frames:
  "loop_at R RB e c st bs s \<Longrightarrow> length bs < fuel \<Longrightarrow> loop_ok R RB fuel e c fd st s"
proof (induction fuel arbitrary: st bs s)
  case (Suc fuel)
  define v where "v = as_int (be_value (take 4 s))"
  consider (short) "length s < 4" | (ends) "4 \<le> length s" "v < 0 \<or> int (length s) - 4 < v \<or> 0x1000000 \<le> v"
    | (go) "4 \<le> length s" "0 \<le> v" "v < 0x1000000" "v \<le> int (length s) - 4" by linarith
  then show ?case
  proof cases
    case short
    then show ?thesis by (rule dispatch_short [OF Suc.prems(1)])
  next
    case ends
    show ?thesis by (rule dispatch_ends [OF Suc.prems(1) ends(1) v_def ends(2)])
  next
    case go
    obtain d ps s' where d: "dispatch_loop (Suc fuel) e c fd st =
        dispatch_loop fuel e c fd ((conn_buffer c d st)\<lparr>st_out := st_out st @ map (send_of e c st) ps\<rparr>)"
      "frames s = (ps @ fst (frames s'), snd (frames s'))" "frame R RB (st_heap st) (snd (snd d))"
      "db_holds R RB d s'" "pending (db_header (fst d)) s' s'" "length s' < length bs"
      by (rule dispatch_goes [OF Suc.prems(1) go(1) v_def go(2-4)])
    let ?st = "(conn_buffer c d st)\<lparr>st_out := st_out st @ map (send_of e c st) ps\<rparr>"
    have "loop_at R RB e c ?st s' s'" "length s' < fuel" using Suc.prems d(4-6) by simp_all
    from Suc.IH [OF this] obtain t bs' where t: "dispatch_loop fuel e c fd ?st =
        Inr ((conn_buffer c t st)\<lparr>st_out := st_out ?st @ map (send_of e c st) (fst (frames s')) @
          overflow_out fd (snd (frames s'))\<rparr>)"
      "db_holds R RB t bs'" "frame R RB (snd (snd d)) (snd (snd t))"
      "pending (db_header (fst t)) bs' (rest_of (snd (frames s')))"
      using Suc.prems(1) by (auto simp: conn_buffer_at)
    then show ?thesis
      using d(1,2) frame_trans [OF d(3) t(3)] by (intro exI [of _ t] exI [of _ bs']) simp
  qed
qed simp

lemma pending_append: "pending v bs s \<Longrightarrow> pending v (bs @ d) (s @ d)"
  by (auto simp: pending_def split: if_splits)

lemma dispatch_message_frames:
  assumes c: "c < length (g_conn (st_gate st))" and holds: "db_holds R (insert b RB) (conn_at c st) bs"
    and b: "b \<notin> RB" "bufs (st_heap st) b = Some d" "int (length bs + length d) \<le> INT_MAX"
    and "pending (db_header (fst (conn_at c st))) bs s" and "header_size (st_gate st) = 4"
    and "\<forall>k. mem e k" and "has_receiver c st"
  shows "\<exists>t bs'. dispatch_message e c fd (Some b) (int (length d)) st =
      Inr ((conn_buffer c t st)\<lparr>st_out := st_out st @ map (send_of e c st) (fst (frames (s @ d))) @
        overflow_out fd (snd (frames (s @ d)))\<rparr>) \<and>
    db_holds R RB t bs' \<and> frame R RB (st_heap st) (snd (snd t)) \<and>
    pending (db_header (fst t)) bs' (rest_of (snd (frames (s @ d))))"
proof -
  obtain db mp h where at: "conn_at c st = (db, mp, h)" by (cases "conn_at c st")
  have sel: "c_buffer (g_conn (st_gate st) ! c) = db" "g_mp (st_gate st) = mp" "st_heap st = h"
    using at by (simp_all add: conn_at_def)
  obtain db1 mp1 h1 where p: "databuffer_push (mem e) db mp h (Some b) (int (length d)) = Inr (db1, mp1, h1)"
      "db_holds R RB (db1, mp1, h1) (bs @ d)" "frame R RB h h1" "db_header db1 = db_header db"
    using databuffer_push_holds [OF holds [unfolded at] b(1) _ b(3) assms(8)] b(2) sel(3) by auto
  let ?st = "conn_buffer c (db1, mp1, h1) st" and ?fuel = "Suc (nat (db_size db1))"
  have "length (bs @ d) < ?fuel" using p(2) by (simp add: db_holds_def)
  then have "loop_ok R RB ?fuel e c fd ?st (s @ d)"
    using c p assms(6-9) at pending_append [of "db_header db" bs s d]
    by (intro dispatch_loop_frames [where bs = "bs @ d"]) simp_all
  moreover have "dispatch_message e c fd (Some b) (int (length d)) st = dispatch_loop ?fuel e c fd ?st"
    using p(1) c by (simp add: dispatch_message_def sel conn_buffer_at Let_def)
  ultimately show ?thesis
    using c frame_trans [OF p(3)] sel(3) by (simp add: conn_buffer_at) blast
qed

end
