(* ===== verification/Gate_State.thy ===== *)
theory Gate_State
  imports Framing
begin

text \<open>
  The invariant of the whole gate and what its handlers do.  \<open>gate_holds RB st ss\<close>: the id
  table is well formed and as large as the connection array; connection \<open>i\<close> has received and
  not yet forwarded the bytes \<open>ss ! i\<close>; the receive buffers share one pool without sharing a
  node or a block; a slot that no id has is as it was at the start, so a connection that gets
  it inherits nothing; and the blocks of \<open>RB\<close> belong to nobody in the gate.
\<close>

section \<open>The invariant\<close>

abbreviation free_conn :: connection where
  "free_conn \<equiv> zero_conn\<lparr>c_id := -1\<rparr>"

definition streams :: "gst \<Rightarrow> byte list list \<Rightarrow> byte list list \<Rightarrow> bool" where
  "streams st bss ss \<longleftrightarrow> length ss = length (g_conn (st_gate st)) \<and>
     (\<forall>i < length ss. pending (db_header (c_buffer (g_conn (st_gate st) ! i))) (bss ! i) (ss ! i))"

definition table_ok :: "gate \<Rightarrow> bool" where
  "table_ok g \<longleftrightarrow> hashid_inv (g_hash g) \<and> cap (g_hash g) = int (length (g_conn g)) \<and>
     max_connection g = int (length (g_conn g)) \<and> header_size g = 4 \<and>
     (\<forall>c \<in> set (g_conn g). length (c_remote_name c) = 32) \<and>
     length (g_bind g) = 200 \<and> 0 \<in> set (g_bind g) \<and>
     (\<forall>i < length (g_conn g). i \<notin> ran (slot_of (g_hash g)) \<longrightarrow> g_conn g ! i = free_conn)"

definition gate_holds :: "addr set \<Rightarrow> gst \<Rightarrow> byte list list \<Rightarrow> bool" where
  "gate_holds RB st ss \<longleftrightarrow> table_ok (st_gate st) \<and>
     (\<exists>bss. buffers_hold RB (map c_buffer (g_conn (st_gate st))) (g_mp (st_gate st)) (st_heap st) bss \<and>
        streams st bss ss)"

abbreviation settings :: "gst \<Rightarrow> 32 word \<times> 32 word \<times> int \<times> int \<times> byte list \<times> nat" where
  \<comment> \<open>what only control messages change\<close>
  "settings st \<equiv> (watchdog (st_gate st), broker (st_gate st), client_tag (st_gate st), listen_id (st_gate st),
     g_bind (st_gate st), st_opened st)"

lemma gate_holdsE:
  assumes "gate_holds RB st ss"
  obtains bss where "table_ok (st_gate st)" and "streams st bss ss"
    and "buffers_hold RB (map c_buffer (g_conn (st_gate st))) (g_mp (st_gate st)) (st_heap st) bss"
  using assms by (auto simp: gate_holds_def)

lemma gate_holds_table:
  assumes "gate_holds RB st ss"
  shows "hashid_inv (g_hash (st_gate st))" and "cap (g_hash (st_gate st)) = int (length (g_conn (st_gate st)))"
    and "header_size (st_gate st) = 4" and "length ss = length (g_conn (st_gate st))"
    and "\<And>i. i < length (g_conn (st_gate st)) \<Longrightarrow> length (c_remote_name (g_conn (st_gate st) ! i)) = 32"
  using assms by (auto simp: gate_holds_def table_ok_def streams_def)

lemma gate_holds_emit [simp]: "gate_holds RB (emit x st) ss = gate_holds RB st ss"
  by (simp add: gate_holds_def streams_def emit_def)

lemma gate_holds_out [simp]: "gate_holds RB (st\<lparr>st_out := es\<rparr>) ss = gate_holds RB st ss"
  by (simp add: gate_holds_def streams_def)

lemma gate_holds_opened [simp]: "gate_holds RB (st\<lparr>st_opened := n\<rparr>) ss = gate_holds RB st ss"
  by (simp add: gate_holds_def streams_def)

lemma emit_sel [simp]:
  "st_gate (emit x st) = st_gate st" "st_heap (emit x st) = st_heap st" "st_out (emit x st) = st_out st @ [x]"
  "st_opened (emit x st) = st_opened st"
  by (simp_all add: emit_def)

lemma upd_gate_sel [simp]:
  "st_gate (upd_gate f st) = f (st_gate st)" "st_heap (upd_gate f st) = st_heap st"
  "st_out (upd_gate f st) = st_out st" "st_opened (upd_gate f st) = st_opened st"
  by (simp_all add: upd_gate_def)

lemma slot_in_range:
  assumes "gate_holds RB st ss" and "slot_of (g_hash (st_gate st)) x = Some c"
  shows "c < length (g_conn (st_gate st))"
  using hid.slot_bound [OF gate_holds_table(1) [OF assms(1)] assms(2)] gate_holds_table(2) [OF assms(1)]
  by simp

lemma lookup_slot:
  assumes "gate_holds RB st ss"
  shows "hashid_lookup (g_hash (st_gate st)) x =
    Inr (case slot_of (g_hash (st_gate st)) x of None \<Rightarrow> -1 | Some i \<Rightarrow> int i)"
  by (rule hid.lookup_law [OF gate_holds_table(1) [OF assms]])

lemma table_ok_update:
  assumes "table_ok g" and "g_conn g' = (g_conn g)[c := k]" and "c < length (g_conn g)"
    and "length (c_remote_name k) = 32" and "c \<in> ran (slot_of (g_hash g)) \<or> k = free_conn"
    and "g_hash g' = g_hash g" and "max_connection g' = max_connection g"
    and "header_size g' = header_size g" and "g_bind g' = g_bind g"
  shows "table_ok g'"
proof -
  have "length (c_remote_name x) = 32" if "x \<in> set ((g_conn g)[c := k])" for x
    using that set_update_subset_insert [of "g_conn g" c k] assms(1,4) by (auto simp: table_ok_def)
  moreover have "(g_conn g)[c := k] ! i = free_conn"
    if "i < length (g_conn g)" "i \<notin> ran (slot_of (g_hash g))" for i
    using that assms(1,3,5) by (auto simp: table_ok_def nth_list_update)
  ultimately show ?thesis
    using assms by (simp add: table_ok_def)
qed

lemma gate_holds_focus:
  \<comment> \<open>one connection's buffer may be worked on alone\<close>
  assumes "gate_holds RB st ss" and c: "c < length (g_conn (st_gate st))"
    and used: "c \<in> ran (slot_of (g_hash (st_gate st)))"
  obtains R B bs where "B \<inter> RB = {}" and "db_holds R (RB \<union> B) (conn_at c st) bs"
    and "pending (db_header (fst (conn_at c st))) bs (ss ! c)"
    and "\<And>RB' t bs' s'. RB' \<subseteq> RB \<Longrightarrow> db_holds R (RB' \<union> B) t bs' \<Longrightarrow>
      frame R (RB' \<union> B) (st_heap st) (snd (snd t)) \<Longrightarrow> pending (db_header (fst t)) bs' s' \<Longrightarrow>
      gate_holds RB' (conn_buffer c t st) (ss[c := s'])"
proof -
  let ?g = "st_gate st"
  obtain bss where tab: "table_ok ?g" and str: "streams st bss ss"
    and bufs: "buffers_hold RB (map c_buffer (g_conn ?g)) (g_mp ?g) (st_heap st) bss"
    using assms(1) by (rule gate_holdsE)
  have len: "c < length (map c_buffer (g_conn ?g))" using c by simp
  have bss: "length bss = length (g_conn ?g)"
    using bufs by (auto simp: buffers_hold_def buffers_rep_def)
  obtain R B where B: "B \<inter> RB = {}"
    and at: "db_holds R (RB \<union> B) (map c_buffer (g_conn ?g) ! c, g_mp ?g, st_heap st) (bss ! c)"
    and put: "\<And>RB' s bs'. RB' \<subseteq> RB \<Longrightarrow> db_holds R (RB' \<union> B) s bs' \<Longrightarrow>
      frame R (RB' \<union> B) (st_heap st) (snd (snd s)) \<Longrightarrow>
      buffers_hold RB' ((map c_buffer (g_conn ?g))[c := fst s]) (fst (snd s)) (snd (snd s)) (bss[c := bs'])"
    by (rule buffers_hold_focus [OF bufs len]) (rule that)
  show thesis
  proof (rule that [OF B])
    show "db_holds R (RB \<union> B) (conn_at c st) (bss ! c)" using at c by (simp add: conn_at_def)
    show "pending (db_header (fst (conn_at c st))) (bss ! c) (ss ! c)"
      using str c by (simp add: streams_def conn_at_def)
    fix RB' t bs' s'
    assume new: "RB' \<subseteq> RB" "db_holds R (RB' \<union> B) t bs'" "frame R (RB' \<union> B) (st_heap st) (snd (snd t))"
      and pend: "pending (db_header (fst t)) bs' s'"
    have conn: "g_conn (st_gate (conn_buffer c t st)) = (g_conn ?g)[c := (g_conn ?g ! c)\<lparr>c_buffer := fst t\<rparr>]"
      by (cases t) (simp add: conn_buffer_conn)
    have "buffers_hold RB' (map c_buffer (g_conn (st_gate (conn_buffer c t st))))
        (g_mp (st_gate (conn_buffer c t st))) (st_heap (conn_buffer c t st)) (bss[c := bs'])"
      using put [OF new] c by (simp add: conn map_update conn_buffer_at)
    moreover have "streams (conn_buffer c t st) (bss[c := bs']) (ss[c := s'])"
      using str pend bss by (auto simp: streams_def conn nth_update_cases)
    moreover have "table_ok (st_gate (conn_buffer c t st))"
      using tab used c by (intro table_ok_update [OF tab conn c]) (simp_all add: table_ok_def)
    ultimately show "gate_holds RB' (conn_buffer c t st) (ss[c := s'])"
      by (auto simp: gate_holds_def)
  qed
qed

section \<open>Data\<close>

lemma on_data_known:
  assumes inv: "gate_holds (insert b RB) st ss" and "b \<notin> RB"
    and slot: "slot_of (g_hash (st_gate st)) (sm_id m) = Some c"
    and m: "sm_buffer m = Some b" "bufs (st_heap st) b = Some d" "sm_ud m = int (length d)"
    and size: "db_size (c_buffer (g_conn (st_gate st) ! c)) + int (length d) \<le> INT_MAX"
    and env: "\<forall>k. mem e k" and rcv: "has_receiver c st"
  shows "\<exists>t. on_data e m st = Inr ((conn_buffer c t st)\<lparr>st_out := st_out st @
      map (send_of e c st) (fst (frames (ss ! c @ d))) @ overflow_out (sm_id m) (snd (frames (ss ! c @ d)))\<rparr>) \<and>
    gate_holds RB (conn_buffer c t st) (ss[c := rest_of (snd (frames (ss ! c @ d)))])"
proof -
  have c: "c < length (g_conn (st_gate st))" by (rule slot_in_range [OF inv slot])
  have used: "c \<in> ran (slot_of (g_hash (st_gate st)))" using slot by (auto simp: ran_def)
  obtain R B bs where f: "B \<inter> insert b RB = {}" "db_holds R (insert b RB \<union> B) (conn_at c st) bs"
      "pending (db_header (fst (conn_at c st))) bs (ss ! c)"
    and put: "\<And>RB' t bs' s'. RB' \<subseteq> insert b RB \<Longrightarrow> db_holds R (RB' \<union> B) t bs' \<Longrightarrow>
      frame R (RB' \<union> B) (st_heap st) (snd (snd t)) \<Longrightarrow> pending (db_header (fst t)) bs' s' \<Longrightarrow>
      gate_holds RB' (conn_buffer c t st) (ss[c := s'])"
    by (rule gate_holds_focus [OF inv c used]) blast
  have size': "int (length bs + length d) \<le> INT_MAX"
    using size f(2) by (simp add: db_holds_def conn_at_def)
  have holds: "db_holds R (insert b (RB \<union> B)) (conn_at c st) bs" and b: "b \<notin> RB \<union> B"
    using f(1,2) \<open>b \<notin> RB\<close> by auto
  obtain t bs' where t: "dispatch_message e c (sm_id m) (Some b) (int (length d)) st =
      Inr ((conn_buffer c t st)\<lparr>st_out := st_out st @ map (send_of e c st) (fst (frames (ss ! c @ d))) @
        overflow_out (sm_id m) (snd (frames (ss ! c @ d)))\<rparr>)"
      "db_holds R (RB \<union> B) t bs'" "frame R (RB \<union> B) (st_heap st) (snd (snd t))"
      "pending (db_header (fst t)) bs' (rest_of (snd (frames (ss ! c @ d))))"
    using dispatch_message_frames [OF c holds b m(2) size' f(3) gate_holds_table(3) [OF inv] env rcv] by blast
  have "on_data e m st = dispatch_message e c (sm_id m) (Some b) (int (length d)) st"
    using lookup_slot [OF inv, of "sm_id m"] slot c m by (simp add: on_data_def)
  moreover have "gate_holds RB (conn_buffer c t st) (ss[c := rest_of (snd (frames (ss ! c @ d)))])"
    using put [OF subset_insertI t(2-4)] .
  ultimately show ?thesis using t(1) by (intro exI [of _ t]) simp
qed

lemma on_data_unknown:
  assumes inv: "gate_holds (insert b RB) st ss" and "b \<notin> RB"
    and slot: "slot_of (g_hash (st_gate st)) (sm_id m) = None"
    and m: "sm_buffer m = Some b" "bufs (st_heap st) b = Some d"
  shows "\<exists>st'. on_data e m st = Inr st' \<and> gate_holds RB st' ss \<and> st_gate st' = st_gate st \<and>
    bufs (st_heap st') = (bufs (st_heap st))(b := None) \<and> st_opened st' = st_opened st \<and>
    st_out st' = st_out st @ [Socket_close (sm_id m)]"
proof -
  let ?st = "st\<lparr>st_heap := (st_heap st)\<lparr>bufs := (bufs (st_heap st))(b := None)\<rparr>\<rparr>"
  have "on_data e m st = Inr (?st\<lparr>st_out := st_out st @ [Socket_close (sm_id m)]\<rparr>)"
    using lookup_slot [OF inv, of "sm_id m"] slot m by (simp add: on_data_def emit_def)
  moreover have "gate_holds RB ?st ss"
    using inv buffers_hold_other_block [of "insert b RB" _ _ "st_heap st" _ b] \<open>b \<notin> RB\<close>
    by (auto simp: gate_holds_def streams_def)
  ultimately show ?thesis by simp
qed

lemma gate_holds_new_block:
  assumes "gate_holds RB st ss" and "bufs (st_heap st) b = None"
  shows "gate_holds (insert b RB) (st\<lparr>st_heap := (st_heap st)\<lparr>bufs := (bufs (st_heap st))(b \<mapsto> d)\<rparr>\<rparr>) ss"
proof -
  obtain bss where "table_ok (st_gate st)" "streams st bss ss"
    "buffers_hold RB (map c_buffer (g_conn (st_gate st))) (g_mp (st_gate st)) (st_heap st) bss"
    using assms(1) by (rule gate_holdsE)
  then show ?thesis
    using buffers_hold_new_block [of RB _ _ "st_heap st" bss b d] assms(2) unfolding gate_holds_def
    by (intro conjI exI [of _ bss]) (simp_all add: streams_def)
qed

section \<open>Changes that leave the buffers alone\<close>

lemma gate_holds_gate:
  assumes "gate_holds RB st ss" and "table_ok (st_gate st')"
    and "map c_buffer (g_conn (st_gate st')) = map c_buffer (g_conn (st_gate st))"
    and "g_mp (st_gate st') = g_mp (st_gate st)" and "st_heap st' = st_heap st"
  shows "gate_holds RB st' ss"
proof -
  have "length (g_conn (st_gate st')) = length (g_conn (st_gate st))"
    using assms(3) by (metis length_map)
  moreover from this have "c_buffer (g_conn (st_gate st') ! i) = c_buffer (g_conn (st_gate st) ! i)"
    if "i < length (g_conn (st_gate st))" for i
    using assms(3) that by (metis nth_map)
  ultimately have "streams st' bss ss = streams st bss ss" for bss
    by (auto simp: streams_def)
  then show ?thesis using assms by (auto simp: gate_holds_def)
qed

lemma map_buffer_update:
  "c_buffer k = c_buffer (cs ! c) \<Longrightarrow> map c_buffer (cs[c := k]) = map c_buffer cs"
  by (cases "c < length cs") (simp_all add: map_update list_update_same_conv list_update_beyond)

lemma table_ok_hash:
  \<comment> \<open>a new table and a new connection in one slot\<close>
  assumes "table_ok g" and "hashid_inv hi" and "cap hi = cap (g_hash g)"
    and "c < length (g_conn g)" and "length (c_remote_name k) = 32"
    and "\<And>i. i < length (g_conn g) \<Longrightarrow> i \<notin> ran (slot_of hi) \<Longrightarrow>
      (if i = c then k = free_conn else i \<notin> ran (slot_of (g_hash g)))"
  shows "table_ok (g\<lparr>g_hash := hi, g_conn := (g_conn g)[c := k]\<rparr>)"
proof -
  have "length (c_remote_name x) = 32" if "x \<in> set ((g_conn g)[c := k])" for x
    using that set_update_subset_insert [of "g_conn g" c k] assms(1,5) by (auto simp: table_ok_def)
  moreover have "(g_conn g)[c := k] ! i = free_conn" if "i < length (g_conn g)" "i \<notin> ran (slot_of hi)" for i
    using assms(6) [OF that] that assms(1) by (auto simp: table_ok_def nth_update_cases split: if_splits)
  ultimately show ?thesis
    using assms(1-3) by (simp add: table_ok_def)
qed

lemma free_slot_stream:
  assumes "gate_holds RB st ss" and "i < length (g_conn (st_gate st))"
    and "i \<notin> ran (slot_of (g_hash (st_gate st)))"
  shows "ss ! i = []"
proof -
  obtain bss where o: "table_ok (st_gate st)" "streams st bss ss"
    "buffers_hold RB (map c_buffer (g_conn (st_gate st))) (g_mp (st_gate st)) (st_heap st) bss"
    using assms(1) by (rule gate_holdsE)
  then have "c_buffer (g_conn (st_gate st) ! i) = databuffer_zero"
    using assms(2,3) by (simp add: table_ok_def zero_conn_def)
  moreover have "db_size (c_buffer (g_conn (st_gate st) ! i)) = int (length (bss ! i))"
    using o(3) assms(2) by (auto simp: buffers_hold_def buffers_rep_def buffer_ok_def)
  ultimately show ?thesis
    using o(2) assms(2) by (auto simp: streams_def pending_def databuffer_zero_def)
qed

section \<open>Closing\<close>

lemma report_ok:
  "length data \<le> 1020 \<Longrightarrow> report data st = Inr (st\<lparr>st_out := st_out st @
     (if watchdog (st_gate st) = 0 then []
      else [Send 0 (watchdog (st_gate st)) PTYPE_TEXT 0 ([0, 0, 0, 19] @ data)])\<rparr>)"
  by (simp add: report_def emit_def)

definition reported :: "gst \<Rightarrow> byte list \<Rightarrow> effect list" where
  "reported st data = (if watchdog (st_gate st) = 0 then []
     else [Send 0 (watchdog (st_gate st)) PTYPE_TEXT 0 ([0, 0, 0, 19] @ data)])"

lemma clear_conn:
  assumes "gate_holds RB st ss" and "c < length (g_conn (st_gate st))"
    and "c \<in> ran (slot_of (g_hash (st_gate st)))"
  shows "\<exists>mp' h'. databuffer_clear (c_buffer (g_conn (st_gate st) ! c)) (g_mp (st_gate st)) (st_heap st) =
      Inr (databuffer_zero, mp', h') \<and>
    gate_holds RB (conn_buffer c (databuffer_zero, mp', h') st) (ss[c := []])"
proof -
  obtain R B bs where f: "db_holds R (RB \<union> B) (conn_at c st) bs"
    and put: "\<And>RB' t bs' s'. RB' \<subseteq> RB \<Longrightarrow> db_holds R (RB' \<union> B) t bs' \<Longrightarrow>
      frame R (RB' \<union> B) (st_heap st) (snd (snd t)) \<Longrightarrow> pending (db_header (fst t)) bs' s' \<Longrightarrow>
      gate_holds RB' (conn_buffer c t st) (ss[c := s'])"
    by (rule gate_holds_focus [OF assms]) blast
  obtain qs fs where "db_rep R (RB \<union> B) qs fs (c_buffer (g_conn (st_gate st) ! c)) (g_mp (st_gate st)) (st_heap st)"
    using f by (auto simp: db_holds_def conn_at_def)
  from databuffer_clear_holds [OF this] obtain mp' h' where
    "databuffer_clear (c_buffer (g_conn (st_gate st) ! c)) (g_mp (st_gate st)) (st_heap st) =
      Inr (databuffer_zero, mp', h')"
    "db_holds R (RB \<union> B) (databuffer_zero, mp', h') []" "frame R (RB \<union> B) (st_heap st) h'"
    by blast
  then show ?thesis
    using put [of RB "(databuffer_zero, mp', h')" "[]" "[]"]
    by (auto simp: pending_def databuffer_zero_def)
qed

lemma ran_remove:
  assumes "m x = Some c" and "i \<notin> ran (m(x := None))" and "i \<noteq> c"
  shows "i \<notin> ran m"
proof
  assume "i \<in> ran m"
  then obtain y where y: "m y = Some i" by (auto simp: ran_def)
  then have "(m(x := None)) y = Some i" using assms(1,3) by auto
  then show False using assms(2) ranI by metis
qed

lemma ran_insert_slot:
  assumes "m x = None" and "i \<notin> ran (m(x \<mapsto> c))"
  shows "i \<notin> ran m" and "i \<noteq> c"
  using assms by simp_all

lemma on_close_known:
  assumes inv: "gate_holds RB st ss" and slot: "slot_of (g_hash (st_gate st)) (sm_id m) = Some c"
    and id: "in_int (sm_id m)"
  shows "\<exists>st'. on_close m st = Inr st' \<and> gate_holds RB st' (ss[c := []]) \<and>
    slot_of (g_hash (st_gate st')) = (slot_of (g_hash (st_gate st)))(sm_id m := None) \<and>
    g_conn (st_gate st') = (g_conn (st_gate st))[c := free_conn] \<and>
    settings st' = settings st \<and>
    st_out st' = st_out st @
      [Log (str ''socket close: '' @ dec (c_id (g_conn (st_gate st) ! c)) @ str '', msg id:'' @ dec (sm_id m))] @
      reported st (str ''gate close '' @ dec (sm_id m) @ [32] @ udec (c_agent (g_conn (st_gate st) ! c)))"
proof -
  let ?g = "st_gate st" and ?x = "sm_id m"
  let ?log = "Log (str ''socket close: '' @ dec (c_id (g_conn ?g ! c)) @ str '', msg id:'' @ dec ?x)"
  let ?txt = "str ''gate close '' @ dec ?x @ [32] @ udec (c_agent (g_conn ?g ! c))"
  have c: "c < length (g_conn ?g)" by (rule slot_in_range [OF inv slot])
  have used: "c \<in> ran (slot_of (g_hash ?g))" using slot by (auto simp: ran_def)
  obtain hi where hi: "hashid_remove (g_hash ?g) ?x = Inr (int c, hi)" "hashid_inv hi"
      "slot_of hi = (slot_of (g_hash ?g))(?x := None)" "cap hi = cap (g_hash ?g)"
    using hashid_remove_slot [OF gate_holds_table(1) [OF inv], of ?x] slot by auto
  obtain mp' h' where cl: "databuffer_clear (c_buffer (g_conn ?g ! c)) (g_mp ?g) (st_heap st) =
      Inr (databuffer_zero, mp', h')"
      "gate_holds RB (conn_buffer c (databuffer_zero, mp', h') st) (ss[c := []])"
    using clear_conn [OF inv c used] by blast
  define g' where "g' = ?g\<lparr>g_mp := mp', g_hash := hi, g_conn := (g_conn ?g)[c := free_conn]\<rparr>"
  have "length ?txt \<le> 1020"
    using dec_length [OF id] udec_length [of "c_agent (g_conn ?g ! c)"] by (simp add: str_def)
  then have run: "on_close m st = Inr (st\<lparr>st_heap := h', st_gate := g',
      st_out := st_out st @ [?log] @ reported st ?txt\<rparr>)"
    using hi(1) c cl(1)
    by (simp add: on_close_def Let_def report_ok g'_def reported_def upd_gate_def emit_def)
  have "table_ok ?g" using inv by (simp add: gate_holds_def)
  then have "table_ok (?g\<lparr>g_hash := hi, g_conn := (g_conn ?g)[c := free_conn]\<rparr>)"
    using hi c ran_remove [of "slot_of (g_hash ?g)", OF slot] by (intro table_ok_hash) (auto simp: zero_conn_def)
  then have "table_ok g'" by (simp add: table_ok_def g'_def)
  then have "gate_holds RB (st\<lparr>st_heap := h', st_gate := g',
      st_out := st_out st @ [?log] @ reported st ?txt\<rparr>) (ss[c := []])"
    using c by (intro gate_holds_gate [OF cl(2)])
      (simp_all add: g'_def conn_buffer_conn zero_conn_def map_update)
  then show ?thesis
    using run hi(3) by (simp add: g'_def)
qed

lemma on_close_unknown:
  assumes inv: "gate_holds RB st ss" and slot: "slot_of (g_hash (st_gate st)) (sm_id m) = None"
  shows "\<exists>hi. on_close m st = Inr (upd_gate (\<lambda>g. g\<lparr>g_hash := hi\<rparr>) st) \<and> slot_of hi = slot_of (g_hash (st_gate st)) \<and>
    gate_holds RB (upd_gate (\<lambda>g. g\<lparr>g_hash := hi\<rparr>) st) ss"
proof -
  obtain hi where hi: "hashid_remove (g_hash (st_gate st)) (sm_id m) = Inr (-1, hi)" "hashid_inv hi"
      "slot_of hi = slot_of (g_hash (st_gate st))" "cap hi = cap (g_hash (st_gate st))"
    using hashid_remove_slot [OF gate_holds_table(1) [OF inv], of "sm_id m"] slot by (auto simp: fun_upd_idem)
  have "gate_holds RB (upd_gate (\<lambda>g. g\<lparr>g_hash := hi\<rparr>) st) ss"
    using hi inv by (intro gate_holds_gate [OF inv]) (simp_all add: gate_holds_def table_ok_def)
  then show ?thesis using hi by (auto simp: on_close_def)
qed

section \<open>Accepting\<close>

lemma set_name_ok:
  assumes "length old = 32"
  shows "length (set_name old name) = 32"
    and "c_str (set_name old name) 0 = Inr (takeWhile (\<lambda>b. b \<noteq> 0) (take 31 name))"
proof -
  show "length (set_name old name) = 32" using assms by (simp add: set_name_def Let_def)
  have "takeWhile (\<lambda>b. b \<noteq> 0) (xs @ 0 # ys) = takeWhile (\<lambda>b. b \<noteq> (0 :: byte)) xs" for xs ys
    by (induction xs) auto
  then show "c_str (set_name old name) 0 = Inr (takeWhile (\<lambda>b. b \<noteq> 0) (take 31 name))"
    by (simp add: c_str_def set_name_def Let_def)
qed

lemma on_accept_ok:
  assumes inv: "gate_holds RB st ss" and "sm_id m = listen_id (st_gate st)"
    and new: "slot_of (g_hash (st_gate st)) (sm_ud m) = None" "0 \<le> sm_ud m"
      "sm_ud m + int (length (g_conn (st_gate st))) \<le> INT_MAX"
    and room: "\<not> hashid_full (g_hash (st_gate st))"
  shows "\<exists>c st'. on_accept m st = Inr st' \<and> gate_holds RB st' ss \<and> ss ! c = [] \<and>
    c < length (g_conn (st_gate st)) \<and> c \<notin> ran (slot_of (g_hash (st_gate st))) \<and>
    slot_of (g_hash (st_gate st')) = (slot_of (g_hash (st_gate st)))(sm_ud m \<mapsto> c) \<and>
    g_conn (st_gate st') = (g_conn (st_gate st))[c := free_conn\<lparr>c_id := sm_ud m,
      c_remote_name := set_name (replicate 32 0) (sm_name m)\<rparr>] \<and>
    settings st' = settings st \<and>
    st_out st' = st_out st @ reported st (str ''gate accept '' @ dec (sm_ud m) @ [32] @
      takeWhile (\<lambda>b. b \<noteq> 0) (take 31 (sm_name m))) @ [Log (str ''socket open: '' @ dec (sm_ud m))]"
proof -
  let ?g = "st_gate st" and ?x = "sm_ud m"
  let ?name = "takeWhile (\<lambda>b. b \<noteq> 0) (take 31 (sm_name m))"
  let ?txt = "str ''gate accept '' @ dec ?x @ [32] @ ?name"
  have "insertable (g_hash ?g) ?x"
    using new gate_holds_table(2) [OF inv] by (simp add: insertable_def)
  then obtain c hi where hi: "hashid_insert (g_hash ?g) ?x = Inr (int c, hi)" "hashid_inv hi"
      "c < length (g_conn ?g)" "c \<notin> ran (slot_of (g_hash ?g))" "slot_of hi = (slot_of (g_hash ?g))(?x \<mapsto> c)"
      "nat (cap hi) = length (g_conn ?g)"
    using hid.insert_law [OF gate_holds_table(1) [OF inv] _ new(1) room] gate_holds_table(2) [OF inv] by auto
  have tab: "table_ok ?g" using inv by (simp add: gate_holds_def)
  have conn: "g_conn ?g ! c = free_conn" using tab hi(3,4) by (simp add: table_ok_def)
  define k where "k = free_conn\<lparr>c_id := ?x, c_remote_name := set_name (replicate 32 0) (sm_name m)\<rparr>"
  define g' where "g' = ?g\<lparr>g_hash := hi, g_conn := (g_conn ?g)[c := k]\<rparr>"
  have "in_int ?x" using new by (auto simp: in_int_def INT_MIN_def)
  moreover have "length ?name \<le> 31"
    by (rule order_trans [OF length_takeWhile_le]) simp
  ultimately have "length ?txt \<le> 1020"
    using dec_length [of ?x] by (simp add: str_def)
  then have run: "on_accept m st = Inr (st\<lparr>st_gate := g',
      st_out := st_out st @ reported st ?txt @ [Log (str ''socket open: '' @ dec ?x)]\<rparr>)"
    using hi(1,3) assms(2) room conn set_name_ok(2) [of "replicate 32 0" "sm_name m"]
    by (simp add: on_accept_def Let_def report_ok g'_def k_def reported_def upd_gate_def emit_def zero_conn_def)
  have "cap hi = cap (g_hash ?g)"
    using hi(6) gate_holds_table(2) [OF inv] hash_shape_cap(1) [OF hashid_invD(1) [OF hi(2)]] by simp
  then have "table_ok g'"
    unfolding g'_def using hi set_name_ok(1) [of "replicate 32 0" "sm_name m"]
      ran_insert_slot [of "slot_of (g_hash ?g)", OF new(1)]
    by (intro table_ok_hash [OF tab]) (auto simp: k_def)
  then have "gate_holds RB (st\<lparr>st_gate := g',
      st_out := st_out st @ reported st ?txt @ [Log (str ''socket open: '' @ dec ?x)]\<rparr>) ss"
    using conn by (intro gate_holds_gate [OF inv]) (simp_all add: g'_def map_buffer_update k_def zero_conn_def)
  then show ?thesis
    using run hi(3-5) free_slot_stream [OF inv hi(3,4)] by (auto simp: g'_def k_def)
qed

lemma on_accept_full:
  assumes "sm_id m = listen_id (st_gate st)" and "hashid_full (g_hash (st_gate st))"
  shows "on_accept m st = Inr (emit (Socket_close (sm_ud m)) st)"
  using assms by (simp add: on_accept_def)

section \<open>Connecting\<close>

lemma on_connect_ok:
  assumes "gate_holds RB st ss"
  shows "on_connect m st = Inr (emit
    (if sm_id m = listen_id (st_gate st) then Log (str ''listen ok'')
     else case slot_of (g_hash (st_gate st)) (sm_id m) of
       None \<Rightarrow> Socket_close (sm_id m)
     | Some c \<Rightarrow> Send 0 (c_agent (g_conn (st_gate st) ! c)) PTYPE_TEXT 0
         (take 99 (udec 0x13000000 @ str '' connected '' @ dec (sm_id m)))) st)"
  using lookup_slot [OF assms, of "sm_id m"] slot_in_range [OF assms, of "sm_id m"]
  by (auto simp: on_connect_def split: option.splits)

lemma forward_agent_ok:
  assumes inv: "gate_holds RB st ss"
  shows "\<exists>st'. forward_agent fd a c st = Inr st' \<and> gate_holds RB st' ss \<and>
    g_hash (st_gate st') = g_hash (st_gate st) \<and> settings st' = settings st \<and>
    g_conn (st_gate st') = (case slot_of (g_hash (st_gate st)) fd of
        None \<Rightarrow> g_conn (st_gate st)
      | Some i \<Rightarrow> (g_conn (st_gate st))[i := (g_conn (st_gate st) ! i)\<lparr>c_agent := a, c_client := c\<rparr>]) \<and>
    (\<exists>t. st_out st' = st_out st @ [Log t])"
proof (cases "slot_of (g_hash (st_gate st)) fd")
  case None
  then show ?thesis using inv lookup_slot [OF inv, of fd] by (simp add: forward_agent_def Let_def)
next
  case (Some i)
  have i: "i < length (g_conn (st_gate st))" by (rule slot_in_range [OF inv Some])
  have used: "i \<in> ran (slot_of (g_hash (st_gate st)))" using Some by (auto simp: ran_def)
  let ?k = "(g_conn (st_gate st) ! i)\<lparr>c_agent := a, c_client := c\<rparr>"
  let ?st = "upd_gate (\<lambda>g. g\<lparr>g_conn := (g_conn g)[i := ?k]\<rparr>)
    (emit (Log (str ''_forward_agent id = '' @ dec (int i))) st)"
  have "forward_agent fd a c st = Inr ?st"
    using lookup_slot [OF inv, of fd] Some i by (simp add: forward_agent_def Let_def upd_gate_def)
  moreover have tab: "table_ok (st_gate st)" using inv by (simp add: gate_holds_def)
  have "table_ok (st_gate ?st)"
    using i used gate_holds_table(5) [OF inv i]
    by (intro table_ok_update [OF tab, of _ i ?k]) simp_all
  then have "gate_holds RB ?st ss"
    by (intro gate_holds_gate [OF inv]) (simp_all add: map_buffer_update)
  ultimately show ?thesis by (intro exI [of _ ?st]) (simp add: Some)
qed

section \<open>Control messages keep the invariant\<close>

definition kept :: "addr set \<Rightarrow> byte list list \<Rightarrow> gst \<Rightarrow> gst \<Rightarrow> bool" where
  "kept RB ss st st' \<longleftrightarrow> gate_holds RB st' ss \<and> watchdog (st_gate st') = watchdog (st_gate st)"

definition connect_ok :: "env \<Rightarrow> gst \<Rightarrow> bool" where
  \<comment> \<open>the next socket the framework opens has an id that is not in use, small enough for the table\<close>
  "connect_ok e st \<longleftrightarrow> (\<forall>ip port. insertable (g_hash (st_gate st)) (sock_connect e (st_opened st) ip port) \<and>
     slot_of (g_hash (st_gate st)) (sock_connect e (st_opened st) ip port) = None)"

lemma kept_refl: "gate_holds RB st ss \<Longrightarrow> kept RB ss st st"
  by (simp add: kept_def)

lemma kept_emit [simp]:
  "kept RB ss (emit x st) st' = kept RB ss st st'" "kept RB ss st (emit x st') = kept RB ss st st'"
  by (simp_all add: kept_def)

lemma kept_trans: "kept RB ss st st' \<Longrightarrow> kept RB ss st' st'' \<Longrightarrow> kept RB ss st st''"
  by (simp add: kept_def)

lemma gate_holds_field:
  assumes "gate_holds RB st ss"
  shows "gate_holds RB (upd_gate (\<lambda>g. g\<lparr>listen_id := x\<rparr>) st) ss"
    and "gate_holds RB (upd_gate (\<lambda>g. g\<lparr>broker := y\<rparr>) st) ss"
    and "length z = 200 \<Longrightarrow> 0 \<in> set z \<Longrightarrow> gate_holds RB (upd_gate (\<lambda>g. g\<lparr>g_bind := z\<rparr>) st) ss"
  using assms by (simp_all add: gate_holds_def table_ok_def streams_def)

lemma forward_agent_kept:
  assumes "forward_agent fd a c st = Inr st'" and "gate_holds RB st ss"
  shows "kept RB ss st st'"
  using forward_agent_ok [OF assms(2), of fd a c] assms(1) by (auto simp: kept_def)

lemma ctrl_forward_kept:
  assumes "ctrl_forward tmp sz i st = Inr st'" and "gate_holds RB st ss"
  shows "kept RB ss st st'"
  using assms
  by (auto simp: ctrl_forward_def Let_def kept_refl split: prod.splits if_splits
      dest!: forward_agent_kept [where RB = RB and ss = ss])

lemma start_listen_kept:
  assumes "start_listen e arr st = Inr (r, arr', st')" and inv: "gate_holds RB st ss"
  shows "kept RB ss st st' \<and> g_bind (st_gate st') = g_bind (st_gate st) \<and>
    g_hash (st_gate st') = g_hash (st_gate st) \<and> length arr' = length arr \<and> (0 \<in> set arr \<longrightarrow> 0 \<in> set arr')"
proof -
  have on: "kept RB ss st st2 \<and> g_bind (st_gate st2) = g_bind (st_gate st) \<and>
      g_hash (st_gate st2) = g_hash (st_gate st) \<and> arr2 = arr1"
    if "listen_on e host port arr1 st = Inr (r, arr2, st2)" for host port arr1 arr2 st2
    using that gate_holds_field(1) [of RB "emit (Socket_listen host port BACKLOG) st" ss "sock_listen e host port BACKLOG"] inv
    by (auto simp: listen_on_def Let_def kept_def split: if_splits)
  have mem: "0 \<in> set arr \<Longrightarrow> 0 \<in> set (arr[k := 0])" for k
    by (cases "k < length arr") (simp_all add: set_update_memI list_update_beyond)
  show ?thesis
    using assms(1) inv mem by (auto simp: start_listen_def Let_def kept_refl split: option.splits if_splits dest!: on)
qed

lemma ctrl_listen_kept:
  assumes "ctrl_listen e st = Inr st'" and inv: "gate_holds RB st ss"
  shows "kept RB ss st st'"
proof -
  obtain r arr st1 where s: "start_listen e (g_bind (st_gate st)) st = Inr (r, arr, st1)"
      "st' = upd_gate (\<lambda>g. g\<lparr>g_bind := arr\<rparr>) st1"
    using assms(1) by (auto simp: ctrl_listen_def)
  have "length (g_bind (st_gate st)) = 200" "0 \<in> set (g_bind (st_gate st))"
    using inv by (simp_all add: gate_holds_def table_ok_def)
  then show ?thesis
    using start_listen_kept [OF s(1) inv] gate_holds_field(3) [of RB st1 ss arr] s(2) by (auto simp: kept_def)
qed

lemma ctrl_connect_kept:
  assumes "ctrl_connect e tmp i source st = Inr st'" and inv: "gate_holds RB st ss" and "connect_ok e st"
  shows "kept RB ss st st'"
proof (cases "hashid_full (g_hash (st_gate st))")
  case True
  then show ?thesis using assms(1) inv by (auto simp: ctrl_connect_def Let_def kept_refl)
next
  case False
  then obtain ip iport c hi st2 t where s: "hashid_insert (g_hash (st_gate st)) (sock_connect e (st_opened st) ip iport) = Inr (c, hi)"
      "forward_agent (sock_connect e (st_opened st) ip iport) source 0
         (upd_gate (\<lambda>g. g\<lparr>g_hash := hi\<rparr>) (emit (Socket_connect ip iport) (st\<lparr>st_opened := st_opened st + 1\<rparr>))) = Inr st2"
      "st' = emit t st2"
    using assms(1) by (auto simp: ctrl_connect_def Let_def)
  let ?x = "sock_connect e (st_opened st) ip iport"
  have new: "insertable (g_hash (st_gate st)) ?x" "slot_of (g_hash (st_gate st)) ?x = None"
    using assms(3) by (simp_all add: connect_ok_def)
  obtain k where k: "hashid_inv hi" "slot_of hi = (slot_of (g_hash (st_gate st)))(?x \<mapsto> k)"
      "nat (cap hi) = nat (cap (g_hash (st_gate st)))"
    using hid.insert_law [OF gate_holds_table(1) [OF inv] new False] s(1) by auto
  have tab: "table_ok (st_gate st)" using inv by (simp add: gate_holds_def)
  have "cap hi = cap (g_hash (st_gate st))"
    using k(3) gate_holds_table(2) [OF inv] hash_shape_cap(1) [OF hashid_invD(1) [OF k(1)]] by simp
  moreover have "i \<notin> ran (slot_of (g_hash (st_gate st)))" if "i \<notin> ran (slot_of hi)" for i
    using that new(2) k(2) by auto
  ultimately have "table_ok ((st_gate st)\<lparr>g_hash := hi\<rparr>)"
    using tab k(1) by (auto simp: table_ok_def)
  then have "gate_holds RB (upd_gate (\<lambda>g. g\<lparr>g_hash := hi\<rparr>) (emit (Socket_connect ip iport) (st\<lparr>st_opened := st_opened st + 1\<rparr>))) ss"
    by (intro gate_holds_gate [OF inv]) simp_all
  from forward_agent_kept [OF s(2) this] show ?thesis
    using s(3) by (simp add: kept_def)
qed

lemma ctrl_kept:
  assumes "ctrl e msg source st = Inr st'" and inv: "gate_holds RB st ss" and "connect_ok e st"
  shows "kept RB ss st st'"
proof -
  have kick: "kept RB ss st st'" if "ctrl_kick tmp sz i st = Inr st'" for tmp sz i
    using that inv by (auto simp: ctrl_kick_def Let_def kept_def)
  have start: "kept RB ss st st'" if "ctrl_start tmp sz i st = Inr st'" for tmp sz i
    using that inv by (auto simp: ctrl_start_def Let_def kept_def)
  have broker: "kept RB ss st st'" if "ctrl_broker e tmp sz i st = Inr st'" for tmp sz i
    using that gate_holds_field(2) [of RB "emit x st" ss for x] inv by (auto simp: ctrl_broker_def kept_def)
  have close: "kept RB ss st (ctrl_close st)"
    using gate_holds_field(1) [of RB "emit x st" ss for x] inv by (auto simp: ctrl_close_def kept_def)
  show ?thesis
    using assms(1) kick start broker close ctrl_forward_kept [OF _ inv] ctrl_listen_kept [OF _ inv]
      ctrl_connect_kept [OF _ inv assms(3)] kept_refl [OF inv]
    by (auto simp: ctrl_def Let_def check_Inr_iff split: if_splits)
qed

end
