(* ===== verification/Gate_Run.thy ===== *)
theory Gate_Run
  imports Gate_State
begin

text \<open>
  Runs of the gate: what \<open>gate_init\<close> sets up, the steps the callback makes on the messages the
  framework delivers (\<open>gate_step\<close>), and the invariant in every reachable state.  What the framework promises is in the premises of the
  steps: a data message owns a block that is not yet in use and has the length it announces,
  and a new socket has an id that is not in the table.
\<close>

section \<open>Starting\<close>

definition created :: gate where
  "created = \<lparr>listen_id = -1, watchdog = 0, broker = 0, client_tag = 0, header_size = 0,
     max_connection = 0, g_hash = \<lparr>hashmod = 0, cap = 0, count = 0, ids = [], hash = []\<rparr>,
     g_conn = [], g_mp = no_pool, g_bind = replicate 200 0\<rparr>"

definition start_st :: gst where
  \<comment> \<open>after \<open>gate_create\<close>\<close>
  "start_st = \<lparr>st_gate = created, st_heap = start_heap Map.empty, st_out = [], st_opened = 0\<rparr>"

lemma gate_create_created: "mem e 288 \<Longrightarrow> gate_create e = Inr created"
  by (simp add: gate_create_def created_def)

lemma listen_on_ok:
  assumes "0 \<in> set arr"
  shows "\<exists>r st'. listen_on e host port arr st = Inr (r, arr, st') \<and>
    (sock_listen e host port BACKLOG \<ge> 0 \<longrightarrow> r = 0)"
  using assms by (auto simp: listen_on_def Let_def c_str_def)

lemma start_listen_ok:
  assumes "0 \<in> set arr"
  shows "\<exists>r arr' st'. start_listen e arr st = Inr (r, arr', st')"
proof -
  have "0 \<in> set (arr[k := 0])" for k
    using assms by (cases "k < length arr") (simp_all add: set_update_memI list_update_beyond)
  then show ?thesis
    using assms listen_on_ok [of arr e "[]"] listen_on_ok [of "arr[k := 0]" e h for k h]
    by (fastforce simp: start_listen_def c_str_def Let_def split: option.splits)
qed

abbreviation listens :: "env \<Rightarrow> gst \<Rightarrow> bool" where
  \<comment> \<open>the listening socket is none or one the framework gave\<close>
  "listens e st \<equiv> listen_id (st_gate st) = -1 \<or> (\<exists>host port. listen_id (st_gate st) = sock_listen e host port BACKLOG)"

lemma listen_on_id:
  "listen_on e host port arr st = Inr (r, arr', st') \<Longrightarrow>
    client_tag (st_gate st') = client_tag (st_gate st) \<and> listen_id (st_gate st') = sock_listen e host port BACKLOG \<and>
    st_opened st' = st_opened st"
  by (auto simp: listen_on_def Let_def upd_gate_def emit_def split: if_splits)

lemma start_listen_id:
  assumes "start_listen e arr st = Inr (r, arr', st')" and "listens e st"
  shows "client_tag (st_gate st') = client_tag (st_gate st) \<and> listens e st' \<and> st_opened st' = st_opened st"
proof -
  obtain s where "c_str arr 0 = Inr s" using assms(1) by (cases "c_str arr 0") (auto simp: start_listen_def)
  with assms(1) consider l where "st' = emit (Log l) st" | host port a where "listen_on e host port a st = Inr (r, arr', st')"
    by (auto simp: start_listen_def Let_def split: option.splits if_splits)
  then show ?thesis using assms(2) by cases (simp_all add: emit_def, metis listen_on_id)
qed

definition init_gate :: "hashid \<Rightarrow> nat \<Rightarrow> 32 word \<Rightarrow> gate" where
  "init_gate hi n wd = created\<lparr>watchdog := wd, g_hash := hi, g_conn := replicate n free_conn,
     max_connection := int n, client_tag := PTYPE_CLIENT, header_size := 4\<rparr>"

lemma init_gate_holds:
  assumes "hashid_inv hi" and "cap hi = int n"
  shows "gate_holds {} \<lparr>st_gate = init_gate hi n wd, st_heap = start_heap Map.empty, st_out = es, st_opened = 0\<rparr>
    (replicate n [])"
proof -
  have "table_ok (init_gate hi n wd)"
    using assms by (auto simp: table_ok_def init_gate_def created_def zero_conn_def)
  moreover have "map c_buffer (g_conn (init_gate hi n wd)) = replicate n databuffer_zero"
    "g_mp (init_gate hi n wd) = no_pool"
    by (simp_all add: init_gate_def created_def zero_conn_def)
  moreover have "streams \<lparr>st_gate = init_gate hi n wd, st_heap = start_heap Map.empty, st_out = es, st_opened = 0\<rparr>
      (replicate n []) (replicate n [])"
    by (simp add: streams_def init_gate_def zero_conn_def databuffer_zero_def pending_def)
  ultimately show ?thesis
    using buffers_hold_start [of Map.empty "{}" n] by (auto simp: gate_holds_def)
qed

lemma isspace_blank: "isspace 32"
  by (simp add: isspace_def)

lemma scan_binding_ok:
  assumes "w \<noteq> []" and "\<And>b. b \<in> set w \<Longrightarrow> \<not> isspace b"
  shows "scan_binding (w @ [32] @ udec wd) = Inr (w, wd)"
proof -
  obtain b bs where d: "udec wd = b # bs" "48 \<le> b" "b \<le> 57"
    using digits10_digit [of _ "unat wd"] by (cases "udec wd") (auto simp: udec_def)
  have nsp: "\<not> isspace b" "b \<noteq> 45" "b \<noteq> 43"
    using d(2,3) order_trans [OF d(2), of 13] by (auto simp: isspace_def)
  have "dropWhile isspace (w @ [32] @ udec wd) = w @ [32] @ udec wd"
    using assms by (cases w) auto
  moreover have "takeWhile (\<lambda>b. \<not> isspace b) (w @ [32] @ udec wd) = w"
    using assms(2) by (simp add: isspace_def takeWhile_append2)
  moreover have "dropWhile isspace ([32] @ udec wd) = udec wd"
    using d(1) nsp(1) isspace_blank by simp
  moreover have "strtoul 10 (udec wd) = uint wd"
  proof -
    have "read_number 10 (udec wd) = (False, uint wd)"
      using read_digits_dec [of "unat wd"] d(1) nsp
      by (simp add: read_number_def udec_def del: read_digits.simps)
    moreover have "uint wd < 2 ^ 64" using uint_lt2p [of wd] by simp
    ultimately show ?thesis by (simp add: strtoul_def)
  qed
  ultimately show ?thesis
    using assms(1) d nsp by (simp add: scan_binding_def Let_def)
qed

lemma gate_init_ok:
  assumes env: "\<forall>k. mem e k" "getenv e (str ''max_online'') = Some mo" "0 \<le> atoi mo" "atoi mo \<le> 2 ^ 30"
    and w: "w \<noteq> []" "\<And>b. b \<in> set w \<Longrightarrow> \<not> isspace b" "length w + length (udec wd) \<le> 198"
  shows "\<exists>r st'. gate_init e (Some (w @ [32] @ udec wd)) start_st = Inr (r, st') \<and>
    gate_holds {} st' (replicate (nat (atoi mo)) []) \<and> watchdog (st_gate st') = wd \<and>
    slot_of (g_hash (st_gate st')) = Map.empty \<and> client_tag (st_gate st') = PTYPE_CLIENT \<and> listens e st' \<and> st_opened st' = 0"
proof -
  let ?n = "nat (atoi mo)" and ?p = "w @ [32] @ udec wd"
  obtain hi where hi: "hashid_init (mem e) (atoi mo) = Inr hi" "hashid_inv hi" "slot_of hi = Map.empty"
      "cap hi = int ?n"
    using hashid_init_table [OF env(3,4,1)] env(3) by auto
  let ?st = "\<lparr>st_gate = init_gate hi ?n wd, st_heap = start_heap Map.empty, st_out = [Callback], st_opened = 0\<rparr>"
  have st: "emit Callback (upd_gate (\<lambda>g. g\<lparr>g_hash := hi,
        g_conn := map (\<lambda>c. c\<lparr>c_id := -1\<rparr>) (replicate ?n zero_conn),
        max_connection := atoi mo, client_tag := PTYPE_CLIENT, header_size := 4\<rparr>)
        (upd_gate (\<lambda>g. g\<lparr>watchdog := wd\<rparr>) start_st)) = ?st"
    using env(3) by (simp add: upd_gate_def emit_def start_st_def init_gate_def created_def)
  define arr where "arr = w @ replicate (Suc (length ?p) - length w) 0"
  define st1 where "st1 = upd_gate (\<lambda>g. g\<lparr>g_bind := arr @ drop (Suc (length ?p)) (g_bind g)\<rparr>) ?st"
  have holds: "gate_holds {} ?st (replicate ?n [])" by (rule init_gate_holds [OF hi(2,4)])
  show ?thesis
  proof (cases "hd w = 33")
    case True
    have "gate_init e (Some ?p) start_st = Inr (0, ?st)"
      using env scan_binding_ok [OF w(1,2), of wd] hi(1) True st by (simp add: gate_init_def Let_def)
    then show ?thesis using holds hi(3) by (simp add: init_gate_def created_def)
  next
    case False
    have arr: "0 \<in> set arr" "length (arr @ drop (Suc (length ?p)) (replicate 200 (0::byte))) = 200"
      using w(3) by (auto simp: arr_def)
    have "st1 = upd_gate (\<lambda>g. g\<lparr>g_bind := arr @ drop (Suc (length ?p)) (replicate 200 0)\<rparr>) ?st"
      by (simp add: st1_def upd_gate_def init_gate_def created_def)
    then have holds1: "gate_holds {} st1 (replicate ?n [])"
      using arr gate_holds_field(3) [OF holds] by simp
    obtain r arr' st2 where l: "start_listen e arr st1 = Inr (r, arr', st2)"
      using start_listen_ok [OF arr(1)] by blast
    have "gate_init e (Some ?p) start_st = Inr (r, st2)"
      using env scan_binding_ok [OF w(1,2), of wd] hi(1) False st l w(3)
      by (simp add: gate_init_def Let_def arr_def st1_def)
    moreover have "client_tag (st_gate st2) = PTYPE_CLIENT \<and> listens e st2 \<and> st_opened st2 = 0"
      using start_listen_id [OF l] by (simp add: st1_def init_gate_def created_def upd_gate_def)
    ultimately show ?thesis
      using start_listen_kept [OF l holds1] hi(3) by (auto simp: kept_def st1_def init_gate_def)
  qed
qed

section \<open>Steps\<close>

definition with_block :: "addr \<Rightarrow> byte list \<Rightarrow> gst \<Rightarrow> gst" where
  "with_block b d st = st\<lparr>st_heap := (st_heap st)\<lparr>bufs := (bufs (st_heap st))(b \<mapsto> d)\<rparr>\<rparr>"

definition data_message :: "int \<Rightarrow> addr \<Rightarrow> byte list \<Rightarrow> socket_message" where
  "data_message fd b d = \<lparr>sm_type = SOCKET_DATA, sm_id = fd, sm_ud = int (length d),
     sm_buffer = Some b, sm_name = []\<rparr>"

definition data_ok :: "gst \<Rightarrow> int \<Rightarrow> addr \<Rightarrow> byte list \<Rightarrow> bool" where
  \<comment> \<open>a fresh block, and the buffer of the connection stays within the range of \<^verbatim>\<open>int\<close>\<close>
  "data_ok st fd b d \<longleftrightarrow> bufs (st_heap st) b = None \<and>
     (case slot_of (g_hash (st_gate st)) fd of None \<Rightarrow> True
      | Some c \<Rightarrow> db_size (c_buffer (g_conn (st_gate st) ! c)) + int (length d) \<le> INT_MAX)"

definition socket_ok :: "gst \<Rightarrow> socket_message \<Rightarrow> bool" where
  \<comment> \<open>a legal message other than data\<close>
  "socket_ok st m \<longleftrightarrow> sm_type m \<noteq> SOCKET_DATA \<and> in_int (sm_id m) \<and>
     (sm_type m = SOCKET_ACCEPT \<longrightarrow> sm_id m = listen_id (st_gate st) \<and>
        insertable (g_hash (st_gate st)) (sm_ud m) \<and> slot_of (g_hash (st_gate st)) (sm_ud m) = None)"

inductive gate_step :: "env \<Rightarrow> gst \<Rightarrow> gst \<Rightarrow> bool" for e where
  recv_data: "data_ok st fd b d \<Longrightarrow>
    cb e PTYPE_SOCKET 0 [] (data_message fd b d) (with_block b d st) = Inr (r, st') \<Longrightarrow> gate_step e st st'"
| recv_socket: "socket_ok st m \<Longrightarrow> cb e PTYPE_SOCKET 0 [] m st = Inr (r, st') \<Longrightarrow> gate_step e st st'"
| recv_text: "connect_ok e st \<Longrightarrow> cb e PTYPE_TEXT source msg m st = Inr (r, st') \<Longrightarrow> gate_step e st st'"
| recv_client: "cb e PTYPE_CLIENT source msg m st = Inr (r, st') \<Longrightarrow> gate_step e st st'"

definition ready :: "gst \<Rightarrow> byte list list \<Rightarrow> bool" where
  "ready st ss \<longleftrightarrow> gate_holds {} st ss \<and> watchdog (st_gate st) \<noteq> 0"

lemma ready_out: "ready (st\<lparr>st_out := es\<rparr>) ss = ready st ss"
  by (simp add: ready_def)

lemma insertable_iff:
  "gate_holds RB st ss \<Longrightarrow> insertable (g_hash (st_gate st)) x \<longleftrightarrow>
     0 \<le> x \<and> x + int (length (g_conn (st_gate st))) \<le> INT_MAX"
  using gate_holds_table(2) [of RB st ss] by (simp add: insertable_def)

lemma cb_data: "cb e PTYPE_SOCKET src msg (data_message fd b d) st =
    bind_res (on_data e (data_message fd b d) st) (\<lambda>st. Inr (0, st))"
  by (simp add: cb_def dispatch_socket_message_def PTYPE_SOCKET_def PTYPE_TEXT_def PTYPE_CLIENT_def
      data_message_def)

lemma with_block_holds:
  assumes "ready st ss" and "bufs (st_heap st) b = None"
  shows "gate_holds {b} (with_block b d st) ss"
  using gate_holds_new_block [of "{}" st ss b d] assms by (simp add: ready_def with_block_def)

lemma with_block_sel [simp]:
  "st_gate (with_block b d st) = st_gate st" "st_out (with_block b d st) = st_out st"
  "st_opened (with_block b d st) = st_opened st"
  "bufs (st_heap (with_block b d st)) b = Some d"
  by (simp_all add: with_block_def)

lemma send_of_with_block [simp]: "send_of e c (with_block b d st) = send_of e c st"
  by (simp add: send_of_def fun_eq_iff)

lemma data_step_known:
  assumes "ready st ss" and env: "\<forall>k. mem e k" and ok: "data_ok st fd b d"
    and slot: "slot_of (g_hash (st_gate st)) fd = Some c"
  shows "\<exists>t. cb e PTYPE_SOCKET 0 [] (data_message fd b d) (with_block b d st) =
      Inr (0, (conn_buffer c t (with_block b d st))\<lparr>st_out := st_out st @
        map (send_of e c st) (fst (frames (ss ! c @ d))) @ overflow_out fd (snd (frames (ss ! c @ d)))\<rparr>) \<and>
    ready (conn_buffer c t (with_block b d st)) (ss[c := rest_of (snd (frames (ss ! c @ d)))])"
proof -
  have inv: "gate_holds {b} (with_block b d st) ss"
    using with_block_holds [OF assms(1)] ok by (simp add: data_ok_def)
  have wd: "watchdog (st_gate st) \<noteq> 0" using assms(1) by (simp add: ready_def)
  obtain t where "on_data e (data_message fd b d) (with_block b d st) =
      Inr ((conn_buffer c t (with_block b d st))\<lparr>st_out := st_out st @
        map (send_of e c st) (fst (frames (ss ! c @ d))) @ overflow_out fd (snd (frames (ss ! c @ d)))\<rparr>)"
      "gate_holds {} (conn_buffer c t (with_block b d st)) (ss[c := rest_of (snd (frames (ss ! c @ d)))])"
    using on_data_known [OF inv, of "data_message fd b d" c d e] slot ok env wd
    by (auto simp: data_message_def data_ok_def has_receiver_def)
  then show ?thesis
    using wd by (intro exI [of _ t]) (simp add: cb_data ready_def)
qed

lemma data_step:
  assumes "ready st ss" and "\<forall>k. mem e k" and "data_ok st fd b d"
  shows "\<exists>st' ss'. cb e PTYPE_SOCKET 0 [] (data_message fd b d) (with_block b d st) = Inr (0, st') \<and>
    ready st' ss'"
proof (cases "slot_of (g_hash (st_gate st)) fd")
  case None
  have "gate_holds {b} (with_block b d st) ss"
    using with_block_holds [OF assms(1)] assms(3) by (simp add: data_ok_def)
  then obtain st' where "on_data e (data_message fd b d) (with_block b d st) = Inr st'" "gate_holds {} st' ss"
      "st_gate st' = st_gate st"
    using on_data_unknown [of b "{}" "with_block b d st" ss "data_message fd b d" d e] None
    by (auto simp: data_message_def)
  then show ?thesis using assms(1) by (intro exI [of _ st'] exI [of _ ss]) (simp add: cb_data ready_def)
next
  case (Some c)
  from data_step_known [OF assms this] obtain t where
    t: "cb e PTYPE_SOCKET 0 [] (data_message fd b d) (with_block b d st) =
      Inr (0, (conn_buffer c t (with_block b d st))\<lparr>st_out := st_out st @
        map (send_of e c st) (fst (frames (ss ! c @ d))) @ overflow_out fd (snd (frames (ss ! c @ d)))\<rparr>)"
    "ready (conn_buffer c t (with_block b d st)) (ss[c := rest_of (snd (frames (ss ! c @ d)))])" by blast
  then show ?thesis by (metis ready_out)
qed

lemma socket_step:
  assumes "ready st ss" and ok: "socket_ok st m"
  shows "\<exists>st' ss'. cb e PTYPE_SOCKET 0 [] m st = Inr (0, st') \<and> ready st' ss'"
proof -
  have inv: "gate_holds {} st ss" and wd: "watchdog (st_gate st) \<noteq> 0" using assms(1) by (simp_all add: ready_def)
  have id: "in_int (sm_id m)" "sm_type m \<noteq> SOCKET_DATA" using ok by (simp_all add: socket_ok_def)
  have close: "\<exists>st' ss'. on_close m st = Inr st' \<and> ready st' ss'"
  proof (cases "slot_of (g_hash (st_gate st)) (sm_id m)")
    case None
    then show ?thesis using on_close_unknown [OF inv None] wd by (auto simp: ready_def)
  next
    case (Some c)
    then show ?thesis using on_close_known [OF inv Some id(1)] wd by (auto simp: ready_def)
  qed
  have accept: "\<exists>st' ss'. on_accept m st = Inr st' \<and> ready st' ss'" if "sm_type m = SOCKET_ACCEPT"
  proof (cases "hashid_full (g_hash (st_gate st))")
    case True
    then show ?thesis using on_accept_full [of m st] ok that inv wd by (auto simp: socket_ok_def ready_def)
  next
    case False
    then show ?thesis
      using on_accept_ok [OF inv _ _ _ _ False, of m] ok that wd insertable_iff [OF inv, of "sm_ud m"]
      by (auto simp: socket_ok_def ready_def)
  qed
  have "\<exists>st' ss'. dispatch_socket_message e m st = Inr st' \<and> ready st' ss'"
    using close accept on_connect_ok [OF inv, of m] inv wd id(2)
    by (auto simp: dispatch_socket_message_def on_warning_def ready_def)
  then show ?thesis
    by (auto simp: cb_def PTYPE_SOCKET_def PTYPE_TEXT_def PTYPE_CLIENT_def)
qed

lemma on_client_ok:
  assumes "gate_holds RB st ss"
  shows "\<exists>r es. on_client source msg st = Inr (r, st\<lparr>st_out := st_out st @ es\<rparr>)"
  using lookup_slot [OF assms] by (auto simp: on_client_def Let_def emit_def)

lemma gate_step_ready:
  assumes "gate_step e st st'" and "ready st ss" and env: "\<forall>k. mem e k"
  shows "\<exists>ss'. ready st' ss'"
  using assms(1)
proof (cases rule: gate_step.cases)
  case (recv_data fd b d r)
  then show ?thesis using data_step [OF assms(2) env] by fastforce
next
  case (recv_socket m r)
  then show ?thesis using socket_step [OF assms(2), of m e] by auto
next
  case (recv_text source msg m r)
  then show ?thesis
    using ctrl_kept [of e msg source st _ "{}" ss] assms(2) by (auto simp: cb_def ready_def kept_def)
next
  case (recv_client source msg m r)
  then show ?thesis
    using on_client_ok [of "{}" st ss source msg] assms(2)
    by (auto simp: cb_def PTYPE_CLIENT_def PTYPE_TEXT_def ready_def)
qed

lemma gate_steps_ready:
  assumes "(gate_step e)\<^sup>*\<^sup>* st st'" and "ready st ss" and "\<forall>k. mem e k"
  shows "\<exists>ss'. ready st' ss'"
  using assms(1,2)
proof (induction arbitrary: ss rule: converse_rtranclp_induct)
  case (step st st1)
  then show ?case using gate_step_ready [OF step.hyps(1) step.prems assms(3)] by blast
qed blast

section \<open>Sequences of data messages\<close>

inductive received :: "env \<Rightarrow> int \<Rightarrow> gst \<Rightarrow> byte list list \<Rightarrow> gst \<Rightarrow> bool" for e fd where
  \<comment> \<open>the blocks \<open>ds\<close> arrive on one socket, one message each\<close>
  none: "received e fd st [] st"
| some: "data_ok st fd b d \<Longrightarrow>
    cb e PTYPE_SOCKET 0 [] (data_message fd b d) (with_block b d st) = Inr (r, st1) \<Longrightarrow>
    received e fd st1 ds st' \<Longrightarrow> received e fd st (d # ds) st'"

inductive_simps received_Nil [simp]: "received e fd st [] st'"

lemma received_snoc:
  "received e fd st ds st1 \<Longrightarrow> data_ok st1 fd b d \<Longrightarrow>
    cb e PTYPE_SOCKET 0 [] (data_message fd b d) (with_block b d st1) = Inr (r, st2) \<Longrightarrow> received e fd st (ds @ [d]) st2"
  by (induction rule: received.induct) (auto intro: received.intros)

lemma received_frames:
  assumes "received e fd st ds st'" and "ready st ss" and env: "\<forall>k. mem e k"
    and "slot_of (g_hash (st_gate st)) fd = Some c" and "c < length ss"
    and "\<And>n. \<not> too_big (snd (frames (ss ! c @ concat (take n ds))))"
    and "frames (ss ! c) = ([], ss ! c)"
  shows "st_out st' = st_out st @ map (send_of e c st) (fst (frames (ss ! c @ concat ds))) \<and>
    ready st' (ss[c := snd (frames (ss ! c @ concat ds))]) \<and> g_hash (st_gate st') = g_hash (st_gate st)"
  using assms
proof (induction arbitrary: ss rule: received.induct)
  case (none st)
  then show ?case by simp
next
  case (some st b d r st1 ds st')
  let ?f = "frames (ss ! c @ d)"
  have big: "\<not> too_big (snd ?f)" using some.prems(5) [of 1] by simp
  then obtain t where t: "cb e PTYPE_SOCKET 0 [] (data_message fd b d) (with_block b d st) =
      Inr (0, (conn_buffer c t (with_block b d st))\<lparr>st_out := st_out st @ map (send_of e c st) (fst ?f)\<rparr>)"
      "ready (conn_buffer c t (with_block b d st)) (ss[c := snd ?f])"
    using data_step_known [OF some.prems(1) env some.hyps(1) some.prems(3)]
    by (auto simp: overflow_out_def rest_of_def)
  let ?st = "(conn_buffer c t (with_block b d st))\<lparr>st_out := st_out st @ map (send_of e c st) (fst ?f)\<rparr>"
  have st1: "st1 = ?st" using t(1) some.hyps(2) by simp
  have c: "c < length (g_conn (st_gate st))"
    using some.prems(1,4) gate_holds_table(4) by (auto simp: ready_def)
  have app: "frames (ss ! c @ d @ x) = (fst ?f @ fst (frames (snd ?f @ x)), snd (frames (snd ?f @ x)))" for x
    using frames_append [of "ss ! c @ d" x] by simp
  have "\<not> too_big (snd (frames (snd ?f @ concat (take n ds))))" for n
    using some.prems(5) [of "Suc n"] app [of "concat (take n ds)"] by simp
  moreover have "frames (snd ?f) = ([], snd ?f)" by (rule frames_rest [of "ss ! c @ d" "fst ?f"]) simp
  ultimately have "st_out st' = st_out ?st @ map (send_of e c ?st) (fst (frames (snd ?f @ concat ds))) \<and>
      ready st' (ss[c := snd ?f, c := snd (frames (snd ?f @ concat ds))]) \<and> g_hash (st_gate st') = g_hash (st_gate ?st)"
    using some.IH [of "ss[c := snd ?f]"] t(2) some.prems c by (simp add: st1 ready_out)
  moreover have "send_of e c ?st = send_of e c st" using c by simp
  ultimately show ?case using app [of "concat ds"] by simp
qed

section \<open>Release\<close>

lemma close_conns_eq:
  "i \<le> length cs \<Longrightarrow> close_conns cs (int i) (int (length cs)) =
     Inr (map (Socket_close \<circ> c_id) (filter (\<lambda>c. 0 \<le> c_id c) (drop i cs)))"
proof (induction "length cs - i" arbitrary: i)
  case 0
  then show ?case by (subst close_conns.simps) simp
next
  case (Suc k)
  then have i: "i < length cs" by simp
  then have "close_conns cs (int i + 1) (int (length cs)) =
      Inr (map (Socket_close \<circ> c_id) (filter (\<lambda>c. 0 \<le> c_id c) (drop (Suc i) cs)))"
    using Suc(1) [of "Suc i"] Suc(2) by (simp add: add.commute)
  moreover have "drop i cs = cs ! i # drop (Suc i) cs" using i by (simp add: Cons_nth_drop_Suc)
  ultimately show ?case using i by (subst close_conns.simps) simp
qed

section \<open>A state for the examples\<close>

definition demo_env :: env where
  "demo_env = \<lparr>mem = \<lambda>_. True, sock_listen = \<lambda>_ _ _. 3, sock_connect = \<lambda>n _ _. 9 + int n,
     queryname = \<lambda>_. 0, getenv = \<lambda>_. Some (str ''1''), dontcopy = 65536\<rparr>"

definition demo_st :: "hashid \<Rightarrow> gst" where
  \<comment> \<open>one connection slot and the watchdog 1\<close>
  "demo_st hi = \<lparr>st_gate = init_gate hi 1 1, st_heap = start_heap Map.empty, st_out = [], st_opened = 0\<rparr>"

lemma demo_table: "\<exists>hi. hashid_inv hi \<and> cap hi = 1 \<and> slot_of hi = [5 \<mapsto> 0]"
proof -
  obtain h0 where h0: "hashid_inv h0" "slot_of h0 = Map.empty" "cap h0 = 1"
    using hashid_init_table [of 1 "\<lambda>_. True"] by auto
  have "\<not> hashid_full h0" using full_empty [OF h0(1,2)] h0(3) by simp
  then obtain i hi where "hashid_inv hi" "i < nat 1" "slot_of hi = [5 \<mapsto> i]" "nat (cap hi) = 1"
    using hid.insert_law [OF h0(1), of 5] h0 by (auto simp: insertable_def INT_MAX_def)
  then show ?thesis
    using hash_shape_cap(1) [OF hashid_invD(1)] by (intro exI [of _ hi]) auto
qed

lemma demo_ready: "hashid_inv hi \<Longrightarrow> cap hi = 1 \<Longrightarrow> ready (demo_st hi) [[]]"
  using init_gate_holds [of hi 1 1 "[]"] by (simp add: ready_def demo_st_def init_gate_def)

lemma demo_sel [simp]:
  "g_hash (st_gate (demo_st hi)) = hi" "st_out (demo_st hi) = []"
  "length (g_conn (st_gate (demo_st hi))) = 1" "\<forall>k. mem demo_env k"
  "bufs (st_heap (demo_st hi)) = Map.empty" "watchdog (st_gate (demo_st hi)) = 1"
  "g_conn (st_gate (demo_st hi)) = [free_conn]"
  by (simp_all add: demo_st_def init_gate_def demo_env_def)

lemma demo_data_ok:
  "slot_of hi = [5 \<mapsto> 0] \<Longrightarrow> int (length d) \<le> INT_MAX \<Longrightarrow> data_ok (demo_st hi) 5 b d"
  by (simp add: data_ok_def zero_conn_def databuffer_zero_def)

definition demo_stuck :: "hashid \<Rightarrow> gst" where
  \<comment> \<open>the header FF FF FF FF was read\<close>
  "demo_stuck hi = conn_buffer 0 (databuffer_zero\<lparr>db_header := -1\<rparr>, no_pool, start_heap Map.empty) (demo_st hi)"

lemma demo_stuck_ready:
  assumes "hashid_inv hi" and "cap hi = 1" and "slot_of hi = [5 \<mapsto> 0]"
  shows "ready (demo_stuck hi) [[255, 255, 255, 255]]"
proof -
  have inv: "gate_holds {} (demo_st hi) [[]]" using demo_ready [OF assms(1,2)] by (simp add: ready_def)
  have at: "conn_at 0 (demo_st hi) = (databuffer_zero, no_pool, start_heap Map.empty)"
    by (simp add: conn_at_def demo_st_def init_gate_def created_def zero_conn_def)
  have c: "0 < length (g_conn (st_gate (demo_st hi)))" "0 \<in> ran (slot_of (g_hash (st_gate (demo_st hi))))"
    using assms(3) by (simp_all add: ran_def)
  obtain R B bs where f: "db_holds R ({} \<union> B) (conn_at 0 (demo_st hi)) bs"
      "pending (db_header (fst (conn_at 0 (demo_st hi)))) bs ([[]] ! 0)"
    and put: "\<And>RB' t bs' s'. RB' \<subseteq> {} \<Longrightarrow> db_holds R (RB' \<union> B) t bs' \<Longrightarrow>
      frame R (RB' \<union> B) (st_heap (demo_st hi)) (snd (snd t)) \<Longrightarrow> pending (db_header (fst t)) bs' s' \<Longrightarrow>
      gate_holds RB' (conn_buffer 0 t (demo_st hi)) ([[]][0 := s'])"
    by (rule gate_holds_focus [OF inv c]) blast
  have bs: "bs = []" using f(2) at by (simp add: pending_def databuffer_zero_def)
  have "gate_holds {} (demo_stuck hi) ([[]][0 := [255, 255, 255, 255]])"
    unfolding demo_stuck_def using f(1) at bs
    by (intro put [of "{}" _ "[]"]) (simp_all add: pending_def be_value_def as_int_def demo_st_def)
  then show ?thesis by (simp add: ready_def demo_stuck_def)
qed

section \<open>Properties\<close>

text \<open>C10. When a socket closes, or fails, its slot is free again and as it was at the start (its
  received bytes are freed), the watchdog is told, and every other connection keeps its
  slot, its stream and its data.\<close>

theorem gate_close:
  assumes "gate_holds RB st ss" and "slot_of (g_hash (st_gate st)) (sm_id m) = Some c"
    and "in_int (sm_id m)"
  shows "\<exists>st'. on_close m st = Inr st' \<and> gate_holds RB st' (ss[c := []]) \<and>
    slot_of (g_hash (st_gate st')) = (slot_of (g_hash (st_gate st)))(sm_id m := None) \<and>
    g_conn (st_gate st') = (g_conn (st_gate st))[c := free_conn] \<and> settings st' = settings st \<and>
    st_out st' = st_out st @
      [Log (str ''socket close: '' @ dec (c_id (g_conn (st_gate st) ! c)) @ str '', msg id:'' @ dec (sm_id m))] @
      reported st (str ''gate close '' @ dec (sm_id m) @ [32] @ udec (c_agent (g_conn (st_gate st) ! c)))"
  using on_close_known [OF assms] by blast

theorem gate_close_witness:
  "\<exists>hi st'. on_close \<lparr>sm_type = SOCKET_CLOSE, sm_id = 5, sm_ud = 0, sm_buffer = NULL, sm_name = []\<rparr>
      (demo_st hi) = Inr st' \<and> slot_of (g_hash (st_gate st')) 5 = None"
proof -
  let ?m = "\<lparr>sm_type = SOCKET_CLOSE, sm_id = 5, sm_ud = 0, sm_buffer = NULL, sm_name = []\<rparr>"
  obtain hi where hi: "hashid_inv hi" "cap hi = 1" "slot_of hi = [5 \<mapsto> 0]" using demo_table by blast
  have g: "gate_holds {} (demo_st hi) [[]]" using demo_ready [OF hi(1,2)] by (simp add: ready_def)
  have s: "slot_of (g_hash (st_gate (demo_st hi))) (sm_id ?m) = Some 0" and i: "in_int (sm_id ?m)"
    using hi(3) by auto
  obtain st' where "on_close ?m (demo_st hi) = Inr st'"
      "slot_of (g_hash (st_gate st')) = (slot_of (g_hash (st_gate (demo_st hi))))(sm_id ?m := None)"
    using gate_close [OF g s i] by blast
  then show ?thesis by (intro exI [of _ hi] exI [of _ st']) simp
qed

text \<open>C14. A packet header with the top bit set is never answered: whatever arrives afterwards is
  added to the buffer, nothing is forwarded, and the connection is not closed (the limit of
  16M is only tested on positive sizes).\<close>

theorem negative_header_stuck:
  assumes "ready st ss" and "\<forall>k. mem e k" and "data_ok st fd b d"
    and "slot_of (g_hash (st_gate st)) fd = Some c" and "4 \<le> length (ss ! c)"
    and "as_int (be_value (take 4 (ss ! c))) < 0"
  shows "\<exists>st'. cb e PTYPE_SOCKET 0 [] (data_message fd b d) (with_block b d st) = Inr (0, st') \<and>
    st_out st' = st_out st \<and> ready st' (ss[c := ss ! c @ d])"
proof -
  let ?v = "as_int (be_value (take 4 (ss ! c @ d)))"
  have v: "?v < 0" using assms(5,6) by simp
  then have f: "frames (ss ! c @ d) = ([], ss ! c @ d)"
    using frames_step(1) [of "ss ! c @ d" ?v] assms(5) by simp
  moreover have "\<not> too_big (ss ! c @ d)" using v by (simp add: too_big_def Let_def)
  ultimately show ?thesis
    using data_step_known [OF assms(1-4)] by (auto simp: overflow_out_def rest_of_def ready_out)
qed

theorem negative_header_stuck_witness:
  "\<exists>hi st'. cb demo_env PTYPE_SOCKET 0 [] (data_message 5 0 [1]) (with_block 0 [1] (demo_stuck hi)) =
    Inr (0, st') \<and> st_out st' = [] \<and> ready st' [[255, 255, 255, 255, 1]]"
proof -
  obtain hi where hi: "hashid_inv hi" "cap hi = 1" "slot_of hi = [5 \<mapsto> 0]" using demo_table by blast
  have ok: "data_ok (demo_stuck hi) 5 0 [1]" "slot_of (g_hash (st_gate (demo_stuck hi))) 5 = Some 0"
    using hi(3) by (simp_all add: data_ok_def demo_stuck_def conn_buffer_conn databuffer_zero_def INT_MAX_def)
  have "as_int (be_value (take 4 ([[255, 255, 255, 255]] ! 0))) < 0"
    by (simp add: be_value_def as_int_def)
  from negative_header_stuck [OF demo_stuck_ready [OF hi] demo_sel(4) ok _ this] show ?thesis
    by (auto simp: demo_stuck_def)
qed

text \<open>Releasing the gate closes every socket whose id is stored in a connection, in slot order,
  then the listening socket, and frees every node of the message pool.  The received data
  that is still in the buffers is not freed.\<close>

lemma gate_release_closes:
  assumes "gate_holds RB st ss"
  shows "gate_release st = Inr ((st_heap st)\<lparr>pools := Map.empty, msgs := Map.empty\<rparr>,
    st_out st @ map (Socket_close \<circ> c_id) (filter (\<lambda>c. 0 \<le> c_id c) (g_conn (st_gate st))) @
    (if listen_id (st_gate st) \<ge> 0 then [Socket_close (listen_id (st_gate st))] else []))"
proof -
  have "max_connection (st_gate st) = int (length (g_conn (st_gate st)))"
    using assms by (simp add: gate_holds_def table_ok_def)
  moreover have "pool_inv (g_mp (st_gate st)) (st_heap st)" "below_brk (st_heap st)"
    using assms by (auto simp: gate_holds_def buffers_hold_def buffers_rep_def)
  ultimately show ?thesis
    using messagepool_free_all close_conns_eq [of 0 "g_conn (st_gate st)"]
    by (simp add: gate_release_def Let_def)
qed

lemma gate_release_closes_witness:
  "\<exists>hi. gate_release (demo_st hi) =
    Inr ((st_heap (demo_st hi))\<lparr>pools := Map.empty, msgs := Map.empty\<rparr>, [])"
proof -
  obtain hi where hi: "hashid_inv hi" "cap hi = 1" using demo_table by blast
  then have "gate_holds {} (demo_st hi) [[]]" using demo_ready by (simp add: ready_def)
  from gate_release_closes [OF this] show ?thesis
    by (intro exI [of _ hi]) (simp add: demo_st_def init_gate_def created_def zero_conn_def)
qed

text \<open>C15. Without a broker, an agent and a watchdog a complete packet is dropped without being
  read: the loop goes on as if the bytes after its header were the next header, so the
  connection loses its framing.\<close>

theorem no_receiver_desync:
  assumes "c < length (g_conn (st_gate st))" and "db_holds R RB (conn_at c st) bs"
    and "db_header (fst (conn_at c st)) = 0" and "header_size (st_gate st) = 4" and "\<not> has_receiver c st"
    and "4 \<le> length bs" and "v = as_int (be_value (take 4 bs))" and "0 < v" and "v < 0x1000000"
    and "v \<le> int (length bs) - 4"
  shows "\<exists>t. dispatch_loop (Suc fuel) e c fd st = dispatch_loop fuel e c fd (conn_buffer c t st) \<and>
    db_holds R RB t (drop 4 bs) \<and> db_header (fst t) = 0"
proof -
  obtain db mp h where at: "conn_at c st = (db, mp, h)" by (cases "conn_at c st")
  obtain t where t: "databuffer_readheader db mp h 4 = Inr (v, t)" "db_holds R RB t (drop 4 bs)"
    using readheader_stream(2) [of R RB db mp h bs bs v] assms(2,3,6,7,10) at by (auto simp: pending_def)
  have fwd: "forward e c v (conn_buffer c t st) = Inr (conn_buffer c t st)"
    using assms(1,5) send_of_conn_buffer(2) [of c st t] by (auto simp: forward_def has_receiver_def Let_def)
  let ?t = "(databuffer_reset (fst t), snd t)"
  have "dispatch_loop (Suc fuel) e c fd st = dispatch_loop fuel e c fd (conn_buffer c ?t st)"
    using dispatch_loop_step [OF assms(1) at, of v t fuel e fd] t(1) fwd assms(1,4,8,9) by (simp add: Let_def)
  moreover have "db_holds R RB ?t (drop 4 bs)" "db_header (fst ?t) = 0"
    using t(2) by (cases t; simp add: databuffer_reset_def)+
  ultimately show ?thesis by blast
qed

theorem no_receiver_desync_witness:
  "\<exists>st t. dispatch_loop 2 demo_env 0 5 st = dispatch_loop 1 demo_env 0 5 (conn_buffer 0 t st) \<and>
    db_holds {} {} (conn_at 0 st) [0, 0, 0, 1, 9] \<and> db_holds {} {} t [9]"
proof -
  let ?d = "[0, 0, 0, 1, 9] :: byte list"
  obtain db mp h where p: "db_holds {} {} (db, mp, h) ?d" "db_header db = 0"
    using databuffer_push_holds [OF db_holds_start [of "[0 \<mapsto> ?d]" "insert 0 {}"], of ?d "\<lambda>_. True"]
    by (auto simp: INT_MAX_def databuffer_zero_def)
  let ?s = "\<lparr>st_gate = init_gate \<lparr>hashmod = 0, cap = 0, count = 0, ids = [], hash = []\<rparr> 1 0,
    st_heap = start_heap Map.empty, st_out = [], st_opened = 0\<rparr>"
  let ?st = "conn_buffer 0 (db, mp, h) ?s"
  have len: "0 < length (g_conn (st_gate ?s))" by (simp add: init_gate_def)
  have nr: "\<not> has_receiver 0 ?st"
    using len by (simp add: has_receiver_def init_gate_def created_def zero_conn_def conn_buffer_conn)
  have "\<exists>t. dispatch_loop (Suc 1) demo_env 0 5 ?st = dispatch_loop 1 demo_env 0 5 (conn_buffer 0 t ?st) \<and>
      db_holds {} {} t (drop 4 ?d) \<and> db_header (fst t) = 0"
    using len p nr
    by (intro no_receiver_desync [where bs = ?d and v = 1])
      (simp_all add: init_gate_def be_value_def as_int_def)
  then obtain t where "dispatch_loop (Suc 1) demo_env 0 5 ?st = dispatch_loop 1 demo_env 0 5 (conn_buffer 0 t ?st)"
      "db_holds {} {} t (drop 4 ?d)" by blast
  then show ?thesis
    using p(1) len by (intro exI [of _ ?st] exI [of _ t]) (simp add: numeral_2_eq_2)
qed

end
