(* ===== verification/Gate_Ctrl.thy ===== *)
theory Gate_Ctrl
  imports Gate_Run "HOL-Library.Sublist"
begin

text \<open>
  The control messages of the gate: how the command word is recognised (by prefix, since
  \<^verbatim>\<open>memcmp\<close> compares as many bytes as the message has before its first space) and what the
  commands do when their arguments are printed the way the senders print them.
\<close>

section \<open>The parameter string\<close>

lemma parm_skip_eq:
  assumes "n \<le> length msg"
  shows "parm_skip (msg @ [0]) (int (length msg)) (int n) =
    Inr (int (n + length (takeWhile (\<lambda>b. b = 32) (drop n msg))))"
  using assms
proof (induction "length msg - n" arbitrary: n)
  case 0
  then show ?case by (subst parm_skip.simps) simp
next
  case (Suc k)
  then have n: "n < length msg" by simp
  have d: "drop n msg = msg ! n # drop (Suc n) msg" using n by (simp add: Cons_nth_drop_Suc)
  have "parm_skip (msg @ [0]) (int (length msg)) (int n + 1) =
      Inr (int (Suc n + length (takeWhile (\<lambda>b. b = 32) (drop (Suc n) msg))))"
    using Suc(1) [of "Suc n"] Suc(2) n by (simp add: add.commute)
  then show ?case
    using n by (subst parm_skip.simps) (simp add: d nth_append)
qed

lemma parm_copy_eq:
  assumes "c \<le> i" and "i \<le> sz" and "sz < length arr"
  shows "parm_copy arr (int sz) (int c) (int i) =
    Inr (take (i - c) arr @ take (sz - i) (drop i arr) @ [0] @ drop (Suc (sz - c)) arr)"
  using assms
proof (induction "sz - i" arbitrary: i arr)
  case 0
  then have "i = sz" by simp
  then show ?case
    using 0 by (subst parm_copy.simps) (simp add: upd_conv_take_nth_drop flip: of_nat_diff)
next
  case (Suc k)
  then have i: "i < sz" "i < length arr" by simp_all
  let ?arr = "arr[i - c := arr ! i]"
  have "parm_copy ?arr (int sz) (int c) (int (Suc i)) =
      Inr (take (Suc i - c) ?arr @ take (sz - Suc i) (drop (Suc i) ?arr) @ [0] @ drop (Suc (sz - c)) ?arr)"
    using Suc i by (intro Suc(1)) simp_all
  moreover have "parm_copy arr (int sz) (int c) (int i) = parm_copy ?arr (int sz) (int c) (int (Suc i))"
    using i Suc.prems by (subst parm_copy.simps) (simp add: add.commute flip: of_nat_diff)
  moreover have "take (Suc i - c) ?arr = take (i - c) arr @ [arr ! i]"
    using i Suc.prems by (simp add: take_Suc_conv_app_nth Suc_diff_le)
  moreover have "drop (Suc i) ?arr = drop (Suc i) arr" "drop (Suc (sz - c)) ?arr = drop (Suc (sz - c)) arr"
    using i by (simp_all add: drop_update_cancel)
  moreover have "take (sz - i) (drop i arr) = arr ! i # take (sz - Suc i) (drop (Suc i) arr)"
    using i by (simp add: take_Suc_Cons Suc_diff_Suc Cons_nth_drop_Suc [symmetric] flip: Suc_diff_Suc)
  ultimately show ?case by simp
qed

lemma parm_eq:
  assumes "n \<le> length msg" and "args = dropWhile (\<lambda>b. b = 32) (drop n msg)"
  shows "parm (msg @ [0]) (int (length msg)) (int n) =
    Inr (args @ 0 # drop (Suc (length args)) (msg @ [0]))"
proof -
  let ?c = "n + length (takeWhile (\<lambda>b. b = 32) (drop n msg))"
  have args: "args = drop ?c msg"
    using assms(2) by (simp add: dropWhile_eq_drop add.commute)
  have c: "?c \<le> length msg"
    using assms(1) length_takeWhile_le [of "\<lambda>b. b = 32" "drop n msg"] by simp
  then have "parm (msg @ [0]) (int (length msg)) (int n) =
      Inr (take (length msg - ?c) (drop ?c (msg @ [0])) @ [0] @ drop (Suc (length msg - ?c)) (msg @ [0]))"
    unfolding parm_def parm_skip_eq [OF assms(1)] bind_res_simps
    by (subst parm_copy_eq) simp_all
  then show ?thesis using c by (simp add: args)
qed

section \<open>The command word\<close>

lemma memcmp_word:
  "0 \<notin> set w \<Longrightarrow> memcmp_eq (w @ r) (lit @ [0]) (length w) = Inr (prefix w lit)"
proof (induction w arbitrary: lit)
  case (Cons x w)
  then show ?case by (cases lit) auto
qed simp

text \<open>A control message is recognised by its first word, and a word stands for the first
  command of the list it is a prefix of: \<^verbatim>\<open>c\<close> closes the listening socket, and a message that
  starts with a space is a kick.\<close>

lemma ctrl_word:
  assumes "msg \<noteq> []" and "int (length msg) < INT_MAX" and "w = takeWhile (\<lambda>b. b \<noteq> 32) msg" and "0 \<notin> set w"
  shows "ctrl e msg source st =
    (let tmp = msg @ [0]; sz = int (length msg); i = int (length w) in
     if prefix w (str ''kick'') then ctrl_kick tmp sz i st
     else if prefix w (str ''forward'') then ctrl_forward tmp sz i st
     else if prefix w (str ''broker'') then ctrl_broker e tmp sz i st
     else if prefix w (str ''start'') then ctrl_start tmp sz i st
     else if prefix w (str ''close'') then Inr (ctrl_close st)
     else if prefix w (str ''connect'') then ctrl_connect e tmp i source st
     else if prefix w (str ''listen'') then ctrl_listen e st
     else bind_res (c_str tmp 0) (\<lambda>command.
       Inr (emit (Log (str ''[gate] Unkown command : '' @ command)) st)))"
proof -
  have msg: "msg @ [0] = w @ drop (length w) (msg @ [0])"
    using assms(3) by (metis append_take_drop_id length_takeWhile_le take_append take_all_iff
        takeWhile_eq_take diff_is_0_eq take0 append_Nil2)
  have cmp: "memcmp_eq (msg @ [0]) (lit @ [0]) (length w) = Inr (prefix w lit)" for lit
    by (subst msg) (rule memcmp_word [OF assms(4)])
  show ?thesis
    using assms(1,2) cmp by (simp add: ctrl_def Let_def assms(3) [symmetric] del: str_append)
qed

lemma takeWhile_word:
  "32 \<notin> set w \<Longrightarrow> takeWhile (\<lambda>b. b \<noteq> 32) (w @ 32 # r) = (w :: byte list)"
  by (metis (mono_tags, lifting) takeWhile_tail takeWhile_eq_all_conv)

lemma ctrl_args:
  assumes "0 \<notin> set w" and "32 \<notin> set w" and "int (length (w @ 32 # args)) < INT_MAX"
  shows "ctrl e (w @ 32 # args) source st =
    (let tmp = w @ 32 # args @ [0]; sz = int (length (w @ 32 # args)); i = int (length w) in
     if prefix w (str ''kick'') then ctrl_kick tmp sz i st
     else if prefix w (str ''forward'') then ctrl_forward tmp sz i st
     else if prefix w (str ''broker'') then ctrl_broker e tmp sz i st
     else if prefix w (str ''start'') then ctrl_start tmp sz i st
     else if prefix w (str ''close'') then Inr (ctrl_close st)
     else if prefix w (str ''connect'') then ctrl_connect e tmp i source st
     else if prefix w (str ''listen'') then ctrl_listen e st
     else bind_res (c_str tmp 0) (\<lambda>command.
       Inr (emit (Log (str ''[gate] Unkown command : '' @ command)) st)))"
  using ctrl_word [of "w @ 32 # args" w e source st] takeWhile_word [OF assms(2), of args] assms(1,3) by simp

lemma parm_word:
  assumes "args = [] \<or> hd args \<noteq> 32"
  shows "parm (w @ 32 # args @ [0]) (int (length (w @ 32 # args))) (int (length w)) =
    Inr (args @ 0 # drop (Suc (length args)) (w @ 32 # args @ [0]))"
proof -
  have "dropWhile (\<lambda>b. b = 32) (drop (length w) (w @ 32 # args)) = args"
    using assms by (cases args) auto
  then show ?thesis using parm_eq [of "length w" "w @ 32 # args" args] by simp
qed

lemma dec_hd [simp]: "hd (dec n) \<noteq> 32"
  using dec_no_space [of n] hd_in_set [OF dec_nonempty [of n]] by metis

lemma ctrl_kick_eq:
  assumes inv: "gate_holds RB st ss" and "in_int fd"
  shows "ctrl_kick (w @ 32 # dec fd @ [0]) (int (length (w @ 32 # dec fd))) (int (length w)) st =
      Inr (if slot_of (g_hash (st_gate st)) fd = None then st else emit (Socket_close fd) st)"
    and "ctrl_start (w @ 32 # dec fd @ [0]) (int (length (w @ 32 # dec fd))) (int (length w)) st =
      Inr (if slot_of (g_hash (st_gate st)) fd = None then st else emit (Socket_start fd) st)"
proof -
  have "c_str (dec fd @ 0 # r) 0 = Inr (dec fd)" for r
    using c_str_terminated [of "dec fd" "[]" r] by simp
  then show "ctrl_kick (w @ 32 # dec fd @ [0]) (int (length (w @ 32 # dec fd))) (int (length w)) st =
      Inr (if slot_of (g_hash (st_gate st)) fd = None then st else emit (Socket_close fd) st)"
    and "ctrl_start (w @ 32 # dec fd @ [0]) (int (length (w @ 32 # dec fd))) (int (length w)) st =
      Inr (if slot_of (g_hash (st_gate st)) fd = None then st else emit (Socket_start fd) st)"
    using assms(2) lookup_slot [OF inv, of fd]
    unfolding ctrl_kick_def ctrl_start_def parm_word [OF disjI2 [OF dec_hd]]
    by (auto simp: strtol_dec split: option.splits)
qed

lemma ctrl_forward_eq:
  assumes "in_int fd" and args: "args = dec fd @ 32 # 58 # hex a @ 32 # 58 # hex c"
  shows "\<exists>l1 l2 l3 l4. ctrl_forward (w @ 32 # args @ [0]) (int (length (w @ 32 # args))) (int (length w)) st =
    forward_agent fd a c (emit (Log l4) (emit (Log l3) (emit (Log l2) (emit (Log l1) st))))"
proof -
  define rest where "rest = drop (Suc (length args)) (w @ 32 # args @ [0])"
  let ?T1 = "dec fd @ 0 # 58 # hex a @ 32 # 58 # hex c @ 0 # rest"
  let ?T2 = "dec fd @ 0 # 58 # hex a @ 0 # 58 # hex c @ 0 # rest"
  have "args = [] \<or> hd args \<noteq> 32" using args by (simp add: hd_append)
  note p = parm_word [OF this, of w, folded rest_def]
  have s1: "strsep (args @ 0 # rest) (Some 0) 32 = Inr (Some 0, ?T1, Some (int (length (dec fd)) + 1))"
    using strsep_token [of 32 "dec fd" "[]" "58 # hex a @ 32 # 58 # hex c @ 0 # rest"] by (simp add: args)
  have n1: "32 \<notin> set (58 # hex a)" "0 \<notin> set (58 # hex a)" by simp_all
  have s2: "strsep ?T1 (Some (int (length (dec fd)) + 1)) 32 =
      Inr (Some (int (length (dec fd)) + 1), ?T2, Some (int (length (dec fd)) + int (length (hex a)) + 3))"
    using strsep_token [OF n1 blank_nonzero(1), of "dec fd @ [0]" "58 # hex c @ 0 # rest"] by (simp add: ac_simps)
  have c1: "c_str ?T1 0 = Inr (dec fd)"
    using c_str_terminated [of "dec fd" "[]"] by simp
  have c2: "c_str ?T2 (2 + int (length (dec fd))) = Inr (hex a)"
    using c_str_terminated [of "hex a" "dec fd @ [0, 58]" "58 # hex c @ 0 # rest"] by (simp add: ac_simps)
  have c3: "c_str ?T2 (4 + (int (length (dec fd)) + int (length (hex a)))) = Inr (hex c)"
    using c_str_terminated [of "hex c" "dec fd @ [0, 58] @ hex a @ [0, 58]" rest] by (simp add: ac_simps)
  have "ctrl_forward (w @ 32 # args @ [0]) (int (length (w @ 32 # args))) (int (length w)) st =
    forward_agent fd a c
      (emit (Log (str ''forward client_handle = '' @ udec c))
      (emit (Log (str ''forward agent_handle = '' @ udec a))
      (emit (Log (str ''forward id  = '' @ dec fd))
      (emit (Log (str ''forward i  = '' @ dec (int (length w)))) st))))"
    unfolding ctrl_forward_def p Let_def bind_res_simps s1 prod.case
    using assms(1) by (simp add: c1 s2 c2 c3 strtol_dec strtoul_hex)
  then show ?thesis by blast
qed

text \<open>\<^verbatim>\<open>forward fd :agent :client\<close>, with the handles in hexadecimal, binds the connection of the
  socket to the agent and the client, and nothing else of the gate changes; for a socket
  that is not in the table it only logs.\<close>

lemma ctrl_forward_run:
  assumes "gate_holds RB st ss" and "in_int fd"
  shows "\<exists>st'. ctrl e (str ''forward'' @ [32] @ dec fd @ [32, 58] @ hex a @ [32, 58] @ hex c) source st = Inr st' \<and>
    gate_holds RB st' ss \<and> g_hash (st_gate st') = g_hash (st_gate st) \<and>
    g_conn (st_gate st') = (case slot_of (g_hash (st_gate st)) fd of
        None \<Rightarrow> g_conn (st_gate st)
      | Some i \<Rightarrow> (g_conn (st_gate st))[i := (g_conn (st_gate st) ! i)\<lparr>c_agent := a, c_client := c\<rparr>]) \<and>
    settings st' = settings st \<and> (\<exists>ls. st_out st' = st_out st @ map Log ls)"
proof -
  let ?w = "str ''forward''" and ?args = "dec fd @ 32 # 58 # hex a @ 32 # 58 # hex c"
  have w: "0 \<notin> set ?w" "32 \<notin> set ?w" "\<not> prefix ?w (str ''kick'')" by (simp_all add: str_def)
  have "int (length (?w @ 32 # ?args)) < INT_MAX"
    using dec_length [OF assms(2)] hex_length [of a] hex_length [of c] by (simp add: INT_MAX_def str_def)
  then have run: "ctrl e (?w @ 32 # ?args) source st =
      ctrl_forward (?w @ 32 # ?args @ [0]) (int (length (?w @ 32 # ?args))) (int (length ?w)) st"
    using ctrl_args [of ?w ?args e source st] w by simp
  obtain l1 l2 l3 l4 where f: "ctrl_forward (?w @ 32 # ?args @ [0]) (int (length (?w @ 32 # ?args))) (int (length ?w)) st =
      forward_agent fd a c (emit (Log l4) (emit (Log l3) (emit (Log l2) (emit (Log l1) st))))"
    using ctrl_forward_eq [OF assms(2) refl] by blast
  let ?st = "emit (Log l4) (emit (Log l3) (emit (Log l2) (emit (Log l1) st)))"
  have "gate_holds RB ?st ss" using assms(1) by simp
  from forward_agent_ok [OF this, of fd a c, unfolded emit_sel] obtain st' t where "forward_agent fd a c ?st = Inr st'"
      "gate_holds RB st' ss" "g_hash (st_gate st') = g_hash (st_gate st)" "settings st' = settings st"
      "g_conn (st_gate st') = (case slot_of (g_hash (st_gate st)) fd of
        None \<Rightarrow> g_conn (st_gate st)
      | Some i \<Rightarrow> (g_conn (st_gate st))[i := (g_conn (st_gate st) ! i)\<lparr>c_agent := a, c_client := c\<rparr>])"
      "st_out st' = st_out st @ map Log [l1, l2, l3, l4, t]"
    by auto
  moreover from this(6) have "\<exists>ls. st_out st' = st_out st @ map Log ls" by blast
  ultimately show ?thesis using run f by (intro exI [of _ st']) simp
qed

section \<open>Connecting out\<close>

lemma skip_spaces_none:
  "p < length arr \<Longrightarrow> arr ! p \<noteq> 32 \<Longrightarrow> skip_spaces arr (int p) = Inr (int p)"
  by (subst skip_spaces.simps) simp

lemma skip_spaces_step:
  assumes "p < length arr" and "arr ! p = 32"
  shows "skip_spaces arr (int p) = skip_spaces arr (int (Suc p))"
proof -
  have in_range: "(int p < 0 \<or> int (length arr) \<le> int p) = False" using assms(1) by simp
  have "(arr ! nat (int p) \<noteq> 0 \<and> arr ! nat (int p) = 32) = True"
    by (simp only: nat_int assms(2) blank_nonzero not_False_eq_True simp_thms)
  then have "skip_spaces arr (int p) = skip_spaces arr (int p + 1)"
    by (simp only: skip_spaces.simps [of arr "int p"] in_range if_False if_True)
  then show ?thesis by (simp add: add.commute)
qed

lemma copy_word_eq:
  assumes "length (buf @ w) < n" and "0 \<notin> set w" and "32 \<notin> set w" and "x = 0 \<or> x = 32"
  shows "copy_word n (pre @ w @ x # rest) (int (length pre)) buf = Inr (buf @ w, int (length pre + length w))"
  using assms(1-3)
proof (induction w arbitrary: pre buf)
  case Nil
  then show ?case using assms(4) by (subst copy_word.simps) (auto simp: nth_append)
next
  case (Cons b w)
  have "copy_word n ((pre @ [b]) @ w @ x # rest) (int (length (pre @ [b]))) (buf @ [b]) =
      Inr ((buf @ [b]) @ w, int (length (pre @ [b]) + length w))"
    using Cons.prems by (intro Cons.IH) auto
  then show ?case
    using Cons.prems by (subst copy_word.simps) (simp add: nth_append add.commute)
qed

lemma ctrl_connect_eq:
  assumes ip: "ip \<noteq> []" "0 \<notin> set ip" "32 \<notin> set ip" "length ip < 100"
    and port: "port \<noteq> []" "0 \<notin> set port" "32 \<notin> set port" "length port < 50"
    and fd: "fd = sock_connect e (st_opened st) ip (atoi port)"
  shows "ctrl_connect e (w @ 32 # ip @ 32 # port @ [0]) (int (length w)) source st =
    (if hashid_full (g_hash (st_gate st)) then Inr st
     else bind_res (hashid_insert (g_hash (st_gate st)) fd) (\<lambda>(index, hi).
    bind_res (forward_agent fd source 0
      (upd_gate (\<lambda>g. g\<lparr>g_hash := hi\<rparr>) (emit (Socket_connect ip (atoi port)) (st\<lparr>st_opened := st_opened st + 1\<rparr>)))) (\<lambda>st.
    Inr (emit (Log (str ''connect to '' @ ip @ str '' port '' @ dec (atoi port))) st))))"
proof -
  let ?arr = "w @ 32 # ip @ 32 # port @ [0]"
  let ?p1 = "length w + 1" and ?p3 = "length w + 2 + length ip"
  have hd: "ip ! 0 \<noteq> 32" "port ! 0 \<noteq> 32"
    using ip(1,3) port(1,3) by (metis length_greater_0_conv nth_mem)+
  have 1: "skip_spaces ?arr (int (length w) + 1) = Inr (int ?p1)"
    using skip_spaces_none [of ?p1 ?arr] hd(1) ip(1) by (simp add: nth_append nth_Cons' add.commute)
  have 2: "copy_word 100 ?arr (int ?p1) [] = Inr (ip, int (?p1 + length ip))"
    using copy_word_eq [of "[]" ip 100 32 "w @ [32]" "port @ [0]"] ip by (simp add: ac_simps)
  have sp: "skip_spaces ?arr (int (?p1 + length ip)) = skip_spaces ?arr (int ?p3)"
    using skip_spaces_step [of "length (w @ 32 # ip)" ?arr] nth_append_length [of "w @ 32 # ip" 32 "port @ [0]"]
    by (simp add: ac_simps)
  have 3: "skip_spaces ?arr (int ?p3) = Inr (int ?p3)"
    using skip_spaces_none [of ?p3 ?arr] hd(2) port(1) by (simp add: nth_append nth_Cons')
  have 4: "copy_word 50 ?arr (int ?p3) [] = Inr (port, int (?p3 + length port))"
    using copy_word_eq [of "[]" port 50 0 "w @ 32 # ip @ [32]" "[]"] port by (simp add: ac_simps)
  show ?thesis
    unfolding ctrl_connect_def 1 bind_res_simps 2 prod.case sp 3 4
    using fd by (simp add: Let_def)
qed

section \<open>Properties\<close>

text \<open>A kick with the printed id of a socket closes that socket if it is in the table and does
  nothing otherwise; every prefix of the command word does the same.\<close>

lemma ctrl_kick_closes:
  assumes "gate_holds RB st ss" and "in_int fd" and "prefix w (str ''kick'')"
  shows "ctrl e (w @ [32] @ dec fd) source st =
    Inr (if slot_of (g_hash (st_gate st)) fd = None then st else emit (Socket_close fd) st)"
proof -
  have w: "set w \<subseteq> set (str ''kick'')" "length w \<le> 4"
    using assms(3) set_mono_prefix prefix_length_le by (force simp: str_def)+
  then have "0 \<notin> set w" "32 \<notin> set w" by (auto simp: str_def)
  moreover have "int (length (w @ [32] @ dec fd)) < INT_MAX"
    using w(2) dec_length [OF assms(2)] by (simp add: INT_MAX_def)
  ultimately show ?thesis
    using ctrl_args [of w "dec fd" e source st] assms(3) ctrl_kick_eq(1) [OF assms(1,2), of w] by simp
qed

lemma ctrl_kick_closes_witness:
  "\<exists>hi. ctrl demo_env (str ''kick'' @ [32] @ dec 5) 0 (demo_st hi) = Inr (emit (Socket_close 5) (demo_st hi))"
proof -
  obtain hi where hi: "hashid_inv hi" "cap hi = 1" "slot_of hi = [5 \<mapsto> 0]" using demo_table by blast
  have "gate_holds {} (demo_st hi) [[]]" using demo_ready [OF hi(1,2)] by (simp add: ready_def)
  moreover have "in_int 5" by auto
  ultimately show ?thesis
    using ctrl_kick_closes [of "{}" "demo_st hi" "[[]]" 5 "str ''kick''" demo_env 0] hi(3)
    by (intro exI [of _ hi]) simp
qed

text \<open>C16. When \<^verbatim>\<open>skynet_socket_connect\<close> fails and returns -1, the command \<^verbatim>\<open>connect\<close> still inserts
  the result into the id table and reads before its node array.\<close>

theorem ctrl_connect_failure_fault:
  assumes "ip \<noteq> []" "0 \<notin> set ip" "32 \<notin> set ip" "length ip < 100"
    and "port \<noteq> []" "0 \<notin> set port" "32 \<notin> set port" "length port < 50"
    and "\<not> hashid_full (g_hash (st_gate st))" and "2 \<le> cap (g_hash (st_gate st))"
    and "sock_connect e (st_opened st) ip (atoi port) = -1"
  shows "ctrl e (str ''connect'' @ [32] @ ip @ [32] @ port) source st = Inl OutOfBounds"
proof -
  let ?w = "str ''connect''"
  have "\<not> prefix ?w (str ''kick'')" "\<not> prefix ?w (str ''forward'')" "\<not> prefix ?w (str ''broker'')"
      "\<not> prefix ?w (str ''start'')" "\<not> prefix ?w (str ''close'')"
    and w: "0 \<notin> set ?w" "32 \<notin> set ?w" by (simp_all add: str_def)
  moreover have "int (length (?w @ 32 # ip @ 32 # port)) < INT_MAX"
    using assms(4,8) by (simp add: INT_MAX_def str_def)
  ultimately have "ctrl e (?w @ 32 # ip @ 32 # port) source st =
      ctrl_connect e (?w @ 32 # ip @ 32 # port @ [0]) (int (length ?w)) source st"
    using ctrl_args [of ?w "ip @ 32 # port" e source st] by simp
  then show ?thesis
    using ctrl_connect_eq [OF assms(1-8) refl, of e ?w source st] assms(9,11)
      insert_minus_one [OF assms(10)] by simp
qed

theorem ctrl_connect_failure_fault_witness:
  "ctrl (demo_env\<lparr>sock_connect := \<lambda>_ _ _. -1\<rparr>) (str ''connect'' @ [32] @ str ''10.0.0.1'' @ [32] @ str ''80'') 0
     (upd_gate (\<lambda>g. g\<lparr>g_hash := \<lparr>hashmod = 15, cap = 2, count = 0,
        ids = replicate 2 \<lparr>hn_id = -1, hn_next = NULL\<rparr>, hash = replicate 16 NULL\<rparr>\<rparr>) start_st) = Inl OutOfBounds"
  by (rule ctrl_connect_failure_fault) (simp_all add: str_def hashid_full_def)

text \<open>A client message is a payload followed by the socket id in four bytes, least significant
  first: the payload goes to that socket if the socket is in the table (and the message memory
  is kept, result 1); otherwise, and for a message without payload, nothing is sent.\<close>

lemma client_message_sent:
  assumes "gate_holds RB st ss" and "fd = as_int (be_value [b3, b2, b1, b0])"
  shows "\<exists>ls. on_client source (payload @ [b0, b1, b2, b3]) st =
    (if payload = [] \<or> slot_of (g_hash (st_gate st)) fd = None
     then Inr (0, st\<lparr>st_out := st_out st @ map Log ls\<rparr>)
     else Inr (1, st\<lparr>st_out := st_out st @ map Log ls @ [Socket_send fd payload]\<rparr>))"
proof (cases "payload = []")
  case True
  then show ?thesis by (auto simp: on_client_def emit_def intro!: exI [of _ "[_]"])
next
  case False
  let ?u = "ucast b0 OR push_bit 8 (ucast b1) OR push_bit 16 (ucast b2) OR push_bit 24 (ucast b3) :: 32 word"
  have "?u = push_bit 24 (ucast b3) OR push_bit 16 (ucast b2) OR push_bit 8 (ucast b1) OR ucast b0"
    by (simp add: ac_simps)
  then have u: "sint ?u = fd"
    using be4_value [of b3 b2 b1 b0] assms(2) by (simp add: be4_def)
  have "\<not> length (payload @ [b0, b1, b2, b3]) \<le> 4" using False by simp
  moreover have "drop (length (payload @ [b0, b1, b2, b3]) - 4) (payload @ [b0, b1, b2, b3]) = [b0, b1, b2, b3]"
    "take (length (payload @ [b0, b1, b2, b3]) - 4) (payload @ [b0, b1, b2, b3]) = payload" by simp_all
  ultimately show ?thesis
    using lookup_slot [OF assms(1), of fd] u False unfolding on_client_def
    by (cases "slot_of (g_hash (st_gate st)) fd")
      (auto simp: Let_def emit_def intro!: exI [of _ "[_, _]"])
qed

lemma client_message_sent_witness:
  "\<exists>hi ls. on_client 0 ([72, 105] @ [5, 0, 0, 0]) (demo_st hi) =
    Inr (1, (demo_st hi)\<lparr>st_out := map Log ls @ [Socket_send 5 [72, 105]]\<rparr>)"
proof -
  obtain hi where hi: "hashid_inv hi" "cap hi = 1" "slot_of hi = [5 \<mapsto> 0]" using demo_table by blast
  have g: "gate_holds {} (demo_st hi) [[]]" using demo_ready [OF hi(1,2)] by (simp add: ready_def)
  have "5 = as_int (be_value [0, 0, 0, 5])" by (simp add: as_int_def be_value_def)
  from client_message_sent [OF g this, of 0 "[72, 105]"] show ?thesis
    using hi(3) by (auto intro!: exI [of _ hi])
qed

text \<open>The command \<^verbatim>\<open>listen\<close> cuts the stored address at its colon.  Given again, it takes the host
  part for a port: a gate bound to 127.0.0.1:8888 then listens on port 127.\<close>

lemma listen_twice_wrong_port:
  assumes "0 \<notin> set host" and "58 \<notin> set host" and "0 \<notin> set port" and "g_bind (st_gate st) = host @ 58 # port @ 0 # rest"
    and "0 < to_int (strtol 10 port)" and "0 < to_int (strtol 10 host)"
    and "\<And>h p. 0 \<le> sock_listen e h p BACKLOG"
  shows "\<exists>st1 st2 l1 l2. ctrl_listen e st = Inr st1 \<and> ctrl_listen e st1 = Inr st2 \<and>
    st_out st2 = st_out st @ [Socket_listen host (to_int (strtol 10 port)) BACKLOG,
      Socket_start (sock_listen e host (to_int (strtol 10 port)) BACKLOG), Log l1,
      Socket_listen [] (to_int (strtol 10 host)) BACKLOG,
      Socket_start (sock_listen e [] (to_int (strtol 10 host)) BACKLOG), Log l2]"
proof -
  have c1: "c_str (host @ 58 # port @ 0 # rest) 0 = Inr (host @ 58 # port)"
    using c_str_terminated [of "host @ 58 # port" "[]" rest] assms(1,3) by simp
  have "takeWhile (\<lambda>b. b \<noteq> 58) (host @ 58 # port) = host"
    using assms(2) by (metis (mono_tags, lifting) takeWhile_tail takeWhile_eq_all_conv)
  then have k: "strchr (host @ 58 # port) 58 = Some (length host)" by (simp add: strchr_def)
  have upd: "(host @ 58 # port @ 0 # rest)[length host := 0] = host @ 0 # port @ 0 # rest" by simp
  have c2: "c_str (host @ 0 # port @ 0 # rest) 0 = Inr host"
    using c_str_terminated [of host "[]"] assms(1) by simp
  have k2: "strchr host 58 = None" using assms(2) by (simp add: strchr_def)
  show ?thesis
    using assms(4-7) c1 c2 k k2 upd
    by (auto simp: ctrl_listen_def start_listen_def listen_on_def Let_def not_le [symmetric])
qed

lemma listen_twice_wrong_port_witness:
  "\<exists>st st1 st2 l1 l2. ctrl_listen demo_env st = Inr st1 \<and> ctrl_listen demo_env st1 = Inr st2 \<and>
    st_out st2 = [Socket_listen (str ''127.0.0.1'') 8888 BACKLOG, Socket_start 3, Log l1,
      Socket_listen [] 127 BACKLOG, Socket_start 3, Log l2]"
proof -
  let ?st = "upd_gate (\<lambda>g. g\<lparr>g_bind := str ''127.0.0.1'' @ 58 # str ''8888'' @ 0 # []\<rparr>) start_st"
  have n: "to_int (strtol 10 (str ''8888'')) = 8888" "to_int (strtol 10 (str ''127.0.0.1'')) = 127"
    by code_simp+
  have "0 \<notin> set (str ''127.0.0.1'')" "58 \<notin> set (str ''127.0.0.1'')" "0 \<notin> set (str ''8888'')"
    by (simp_all add: str_def)
  moreover have l: "sock_listen demo_env h p k = 3" for h p k by (simp add: demo_env_def)
  ultimately have "\<exists>st1 st2 l1 l2. ctrl_listen demo_env ?st = Inr st1 \<and> ctrl_listen demo_env st1 = Inr st2 \<and>
    st_out st2 = [Socket_listen (str ''127.0.0.1'') 8888 BACKLOG, Socket_start 3, Log l1,
      Socket_listen [] 127 BACKLOG, Socket_start 3, Log l2]"
    using listen_twice_wrong_port [of "str ''127.0.0.1''" "str ''8888''" ?st "[]" demo_env] n
    by (simp add: start_st_def)
  then show ?thesis by blast
qed

end
