(* ===== verification/Refinement.thy ===== *)
theory Refinement
  imports C_Base
begin

text \<open>
  Refinement of an abstract specification, message by message.  A specification is a function from a
  message and an abstract state to what becomes visible and the new state; an implementation is a step
  relation on concrete states.  The locale \<open>refinement\<close> asks for one law, the simulation of a single
  message, and gives the simulation of whole runs: a run shows, message for message, what the
  specification says, and never gets stuck.
\<close>

fun run_spec :: "('m \<Rightarrow> 'a \<Rightarrow> 'e list \<times> 'a) \<Rightarrow> 'm list \<Rightarrow> 'a \<Rightarrow> ('m \<times> 'e list) list \<times> 'a" where
  \<comment> \<open>every message with what it makes visible, and the last state\<close>
  "run_spec f [] a = ([], a)"
| "run_spec f (m # ms) a = apfst ((#) (m, fst (f m a))) (run_spec f ms (snd (f m a)))"

primrec legal_run :: "('m \<Rightarrow> 'a \<Rightarrow> bool) \<Rightarrow> ('m \<Rightarrow> 'a \<Rightarrow> 'x \<times> 'a) \<Rightarrow> 'm list \<Rightarrow> 'a \<Rightarrow> bool" where
  "legal_run ok f [] a \<longleftrightarrow> True"
| "legal_run ok f (m # ms) a \<longleftrightarrow> ok m a \<and> legal_run ok f ms (snd (f m a))"

inductive runs :: "('m \<Rightarrow> 's \<Rightarrow> 's \<Rightarrow> bool) \<Rightarrow> ('s \<Rightarrow> 'e list) \<Rightarrow> 's \<Rightarrow> ('m \<times> 'e list) list \<Rightarrow> 's \<Rightarrow> bool"
  for step out where
  stop: "runs step out s [] s"
| more: "step m s s1 \<Longrightarrow> out s1 = out s @ es \<Longrightarrow> runs step out s1 tr s' \<Longrightarrow> runs step out s ((m, es) # tr) s'"

inductive_simps runs_Nil [simp]: "runs step out s [] s'"
inductive_cases runs_ConsE: "runs step out s (x # tr) s'"

lemma run_spec_messages: "map fst (fst (run_spec f ms a)) = ms"
  by (induction ms arbitrary: a) simp_all

lemma run_spec_append:
  "run_spec f (ms @ ns) a =
    (fst (run_spec f ms a) @ fst (run_spec f ns (snd (run_spec f ms a))), snd (run_spec f ns (snd (run_spec f ms a))))"
  by (induction ms arbitrary: a) simp_all

lemma run_spec_invariant:
  assumes "\<And>m a. P a \<Longrightarrow> ok m a \<Longrightarrow> P (snd (f m a))" and "P a" and "legal_run ok f ms a"
  shows "P (snd (run_spec f ms a))"
  using assms(2,3) by (induction ms arbitrary: a) (simp_all add: assms(1))

lemma runs_out: "runs step out s tr s' \<Longrightarrow> out s' = out s @ concat (map snd tr)"
  by (induction rule: runs.induct) simp_all

locale refinement =
  fixes holds :: "'s \<Rightarrow> 'a \<Rightarrow> bool" and step :: "'m \<Rightarrow> 's \<Rightarrow> 's \<Rightarrow> bool" and out :: "'s \<Rightarrow> 'e list"
    and legal :: "'m \<Rightarrow> 'a \<Rightarrow> bool" and spec :: "'m \<Rightarrow> 'a \<Rightarrow> 'e list \<times> 'a"
  assumes simulation: "holds s a \<Longrightarrow> legal m a \<Longrightarrow> step m s s' \<Longrightarrow>
      holds s' (snd (spec m a)) \<and> out s' = out s @ fst (spec m a)"
    and progress: "holds s a \<Longrightarrow> legal m a \<Longrightarrow> \<exists>s'. step m s s'"
begin

lemma run_refines:
  "runs step out s tr s' \<Longrightarrow> holds s a \<Longrightarrow> legal_run legal spec (map fst tr) a \<Longrightarrow>
    tr = fst (run_spec spec (map fst tr) a) \<and> holds s' (snd (run_spec spec (map fst tr) a))"
proof (induction arbitrary: a rule: runs.induct)
  case (more m s s1 es tr s')
  then have "holds s1 (snd (spec m a))" "out s1 = out s @ fst (spec m a)"
    using simulation [of s a m s1] by simp_all
  with more.IH [of "snd (spec m a)"] more.prems more.hyps(2) show ?case by simp
qed simp

lemma run_exists:
  "holds s a \<Longrightarrow> legal_run legal spec ms a \<Longrightarrow> \<exists>tr s'. runs step out s tr s' \<and> map fst tr = ms"
proof (induction ms arbitrary: s a)
  case Nil
  show ?case by (intro exI [of _ "[]"] exI [of _ s]) simp
next
  case (Cons m ms)
  then obtain s1 where s1: "step m s s1" using progress [of s a m] by auto
  from simulation [OF Cons.prems(1) _ this] Cons.prems(2)
  have nxt: "holds s1 (snd (spec m a))" "out s1 = out s @ fst (spec m a)" by simp_all
  with Cons.IH [of s1 "snd (spec m a)"] Cons.prems(2) obtain tr s' where "runs step out s1 tr s'" "map fst tr = ms"
    by auto
  then show ?case
    using runs.more [of step m s s1 out "fst (spec m a)" tr s'] s1 nxt(2) by (intro exI [of _ "(m, fst (spec m a)) # tr"] exI [of _ s']) simp
qed

lemma run_all:
  assumes "holds s a" and "legal_run legal spec ms a"
  shows "(\<exists>tr s'. runs step out s tr s' \<and> map fst tr = ms) \<and>
    (\<forall>tr s'. runs step out s tr s' \<and> map fst tr = ms \<longrightarrow>
      tr = fst (run_spec spec ms a) \<and> holds s' (snd (run_spec spec ms a)))"
  using run_exists [OF assms] run_refines [OF _ assms(1)] assms(2) by blast

end

section \<open>Operations that answer\<close>

text \<open>
  For a data structure the messages are calls and each call answers.  The locale \<open>operations\<close> asks for the law of
  one call and gives whole scripts of calls.
\<close>

primrec calls :: "('m \<Rightarrow> 's \<Rightarrow> ('r \<times> 's) res) \<Rightarrow> 'm list \<Rightarrow> 's \<Rightarrow> ('r list \<times> 's) res" where
  "calls f [] s = Inr ([], s)"
| "calls f (m # ms) s = bind_res (f m s) (\<lambda>(r, s). bind_res (calls f ms s) (\<lambda>(rs, s). Inr (r # rs, s)))"

primrec answers :: "('m \<Rightarrow> 'a \<Rightarrow> 'r \<times> 'a) \<Rightarrow> 'm list \<Rightarrow> 'a \<Rightarrow> 'r list \<times> 'a" where
  "answers f [] a = ([], a)"
| "answers f (m # ms) a = apfst ((#) (fst (f m a))) (answers f ms (snd (f m a)))"

locale operations =
  fixes holds :: "'s \<Rightarrow> 'a \<Rightarrow> bool" and call :: "'m \<Rightarrow> 's \<Rightarrow> ('r \<times> 's) res"
    and legal :: "'m \<Rightarrow> 'a \<Rightarrow> bool" and spec :: "'m \<Rightarrow> 'a \<Rightarrow> 'r \<times> 'a"
  assumes law: "holds s a \<Longrightarrow> legal m a \<Longrightarrow> \<exists>s'. call m s = Inr (fst (spec m a), s') \<and> holds s' (snd (spec m a))"
begin

lemma script:
  "holds s a \<Longrightarrow> legal_run legal spec ms a \<Longrightarrow>
    \<exists>s'. calls call ms s = Inr (fst (answers spec ms a), s') \<and> holds s' (snd (answers spec ms a))"
proof (induction ms arbitrary: s a)
  case (Cons m ms)
  then obtain s1 where s1: "call m s = Inr (fst (spec m a), s1)" "holds s1 (snd (spec m a))" using law [of s a m] by auto
  with Cons.IH [of s1 "snd (spec m a)"] Cons.prems(2) show ?case by auto
qed simp

end

end
