(* ===== verification/Gate_Spec.thy ===== *)
theory Gate_Spec
  imports Gate_Ctrl Refinement
begin

text \<open>
  The gate as its clients see it.  \<open>agate\<close> is what remains of the state when the id table, the slots and
  the buffers are forgotten: for every open socket the bytes that were received and not yet forwarded, its
  agent and its client.  \<open>gate_spec\<close> says what each message makes visible (every call to the framework
  but the log lines) and how it changes that state; \<open>gate_call\<close> is the same message put through \<open>cb\<close>, as
  the framework and the other services write it.  The gate refines the specification: \<open>gate_view\<close> of a
  concrete state is the abstract one, and the interpretation \<open>gr\<close> of the locale \<open>refinement\<close> carries that
  to sequences of messages from any number of connections.
\<close>

section \<open>The specification\<close>

record aconn =
  ac_id :: int            \<comment> \<open>the id the gate prints for it, -1 when it was opened by \<^verbatim>\<open>connect\<close>\<close>
  ac_agent :: "32 word"
  ac_client :: "32 word"
  ac_stream :: "byte list"

record agate =
  a_conns :: "int \<rightharpoonup> aconn"
  a_broker :: "32 word"
  a_watchdog :: "32 word"
  a_tag :: int
  a_listen :: int
  a_bind :: "byte list"   \<comment> \<open>the address to listen on, up to its terminating zero\<close>
  a_cap :: nat
  a_opened :: nat         \<comment> \<open>sockets opened by \<^verbatim>\<open>connect\<close> so far\<close>

datatype gmsg =
    Data int "byte list"
  | Accepted int "byte list"
  | Connected int
  | Closed int
  | Failed int
  | Warned int int
  | Kick int
  | Start int
  | Forward int "32 word" "32 word"
  | Broker "byte list"
  | Connect "32 word" "byte list" "byte list"
  | Stop
  | Listen
  | To_client int "byte list"

definition a_full :: "agate \<Rightarrow> bool" where
  "a_full a \<longleftrightarrow> card (dom (a_conns a)) = a_cap a"

definition a_report :: "agate \<Rightarrow> byte list \<Rightarrow> effect list" where
  "a_report a data = (if a_watchdog a = 0 then []
     else [Send 0 (a_watchdog a) PTYPE_TEXT 0 ([0, 0, 0, 19] @ data)])"

definition route :: "env \<Rightarrow> agate \<Rightarrow> aconn \<Rightarrow> byte list \<Rightarrow> effect" where
  "route e a k p = (let tag = or (a_tag a) (dontcopy e) in
     if a_broker a \<noteq> 0 then Send 0 (a_broker a) tag 0 p
     else if ac_agent k \<noteq> 0 then Send (ac_client k) (ac_agent k) tag 0 p
     else Send 0 (a_watchdog a) tag 0 (dec (ac_id k) @ [32] @ p))"

abbreviation a_close :: "int \<Rightarrow> agate \<Rightarrow> effect list \<times> agate" where
  "a_close fd a \<equiv> (case a_conns a fd of None \<Rightarrow> ([], a)
     | Some k \<Rightarrow> (a_report a (str ''gate close '' @ dec fd @ [32] @ udec (ac_agent k)),
         a\<lparr>a_conns := (a_conns a)(fd := None)\<rparr>))"

definition a_listen_on :: "env \<Rightarrow> byte list \<Rightarrow> int \<Rightarrow> agate \<Rightarrow> effect list \<times> agate" where
  "a_listen_on e host port a = (let fd = sock_listen e host port BACKLOG in
     (Socket_listen host port BACKLOG # (if fd < 0 then [] else [Socket_start fd]), a\<lparr>a_listen := fd\<rparr>))"

fun gate_spec :: "env \<Rightarrow> gmsg \<Rightarrow> agate \<Rightarrow> effect list \<times> agate" where
  "gate_spec e (Data fd d) a = (case a_conns a fd of None \<Rightarrow> ([Socket_close fd], a)
     | Some k \<Rightarrow>
         let f = frames (ac_stream k @ d) in
         (map (route e a k) (fst f) @ (if too_big (snd f) then [Socket_close fd] else []),
          a\<lparr>a_conns := (a_conns a)(fd \<mapsto> k\<lparr>ac_stream := rest_of (snd f)\<rparr>)\<rparr>))"
| "gate_spec e (Accepted fd name) a =
     (if a_full a then ([Socket_close fd], a)
      else (a_report a (str ''gate accept '' @ dec fd @ [32] @ takeWhile (\<lambda>b. b \<noteq> 0) (take 31 name)),
        a\<lparr>a_conns := (a_conns a)(fd \<mapsto> \<lparr>ac_id = fd, ac_agent = 0, ac_client = 0, ac_stream = []\<rparr>)\<rparr>))"
| "gate_spec e (Connected fd) a =
     ((if fd = a_listen a then []
       else case a_conns a fd of None \<Rightarrow> [Socket_close fd]
         | Some k \<Rightarrow> [Send 0 (ac_agent k) PTYPE_TEXT 0 (take 99 (udec 0x13000000 @ str '' connected '' @ dec fd))]), a)"
| "gate_spec e (Closed fd) a = a_close fd a"
| "gate_spec e (Failed fd) a = a_close fd a"
| "gate_spec e (Warned fd n) a = ([], a)"
| "gate_spec e (Kick fd) a = (if a_conns a fd = None then [] else [Socket_close fd], a)"
| "gate_spec e (Start fd) a = (if a_conns a fd = None then [] else [Socket_start fd], a)"
| "gate_spec e (Forward fd ag cl) a =
     ([], case a_conns a fd of None \<Rightarrow> a
      | Some k \<Rightarrow> a\<lparr>a_conns := (a_conns a)(fd \<mapsto> k\<lparr>ac_agent := ag, ac_client := cl\<rparr>)\<rparr>)"
| "gate_spec e (Broker name) a = ([Queryname name], a\<lparr>a_broker := queryname e name\<rparr>)"
| "gate_spec e (Connect source ip port) a =
     (if a_full a then ([], a)
      else ([Socket_connect ip (atoi port)], a\<lparr>a_conns := (a_conns a)(sock_connect e (a_opened a) ip (atoi port) \<mapsto>
        \<lparr>ac_id = -1, ac_agent = source, ac_client = 0, ac_stream = []\<rparr>), a_opened := a_opened a + 1\<rparr>))"
| "gate_spec e Stop a =
     (if 0 \<le> a_listen a then ([Socket_close (a_listen a)], a\<lparr>a_listen := -1\<rparr>) else ([], a))"
| "gate_spec e Listen a =
     (case strchr (a_bind a) 58 of
        None \<Rightarrow> let port = to_int (strtol 10 (a_bind a)) in
          if port \<le> 0 then ([], a) else a_listen_on e [] port a
      | Some k \<Rightarrow> let port = to_int (strtol 10 (drop (k + 1) (a_bind a))) in
          if port \<le> 0 then ([], a)
          else a_listen_on e (take k (a_bind a)) port (a\<lparr>a_bind := take k (a_bind a)\<rparr>))"
| "gate_spec e (To_client fd payload) a =
     (if payload = [] \<or> a_conns a fd = None then [] else [Socket_send fd payload], a)"

section \<open>The messages\<close>

definition be_bytes :: "int \<Rightarrow> byte list" where
  \<comment> \<open>the four bytes of a number, most significant first\<close>
  "be_bytes v = map word_of_int [v div 2 ^ 24, v div 2 ^ 16, v div 2 ^ 8, v]"

definition event :: "int \<Rightarrow> int \<Rightarrow> int \<Rightarrow> byte list \<Rightarrow> socket_message" where
  "event t i u name = \<lparr>sm_type = t, sm_id = i, sm_ud = u, sm_buffer = NULL, sm_name = name\<rparr>"

fun gate_call :: "env \<Rightarrow> addr \<Rightarrow> gmsg \<Rightarrow> gst \<Rightarrow> (int \<times> gst) res" where
  \<comment> \<open>the message as the callback gets it; \<open>b\<close> is the address of the block that holds received data\<close>
  "gate_call e b (Data fd d) st = cb e PTYPE_SOCKET 0 [] (data_message fd b d) (with_block b d st)"
| "gate_call e b (Accepted fd name) st =
     cb e PTYPE_SOCKET 0 [] (event SOCKET_ACCEPT (listen_id (st_gate st)) fd name) st"
| "gate_call e b (Connected fd) st = cb e PTYPE_SOCKET 0 [] (event SOCKET_CONNECT fd 0 []) st"
| "gate_call e b (Closed fd) st = cb e PTYPE_SOCKET 0 [] (event SOCKET_CLOSE fd 0 []) st"
| "gate_call e b (Failed fd) st = cb e PTYPE_SOCKET 0 [] (event SOCKET_ERROR fd 0 []) st"
| "gate_call e b (Warned fd n) st = cb e PTYPE_SOCKET 0 [] (event SOCKET_WARNING fd n []) st"
| "gate_call e b (Kick fd) st = cb e PTYPE_TEXT 0 (str ''kick'' @ [32] @ dec fd) (event 0 0 0 []) st"
| "gate_call e b (Start fd) st = cb e PTYPE_TEXT 0 (str ''start'' @ [32] @ dec fd) (event 0 0 0 []) st"
| "gate_call e b (Forward fd ag cl) st =
     cb e PTYPE_TEXT 0 (str ''forward'' @ [32] @ dec fd @ [32, 58] @ hex ag @ [32, 58] @ hex cl) (event 0 0 0 []) st"
| "gate_call e b (Broker name) st = cb e PTYPE_TEXT 0 (str ''broker'' @ [32] @ name) (event 0 0 0 []) st"
| "gate_call e b (Connect source ip port) st =
     cb e PTYPE_TEXT source (str ''connect'' @ [32] @ ip @ [32] @ port) (event 0 0 0 []) st"
| "gate_call e b Stop st = cb e PTYPE_TEXT 0 (str ''close'') (event 0 0 0 []) st"
| "gate_call e b Listen st = cb e PTYPE_TEXT 0 (str ''listen'') (event 0 0 0 []) st"
| "gate_call e b (To_client fd payload) st =
     cb e PTYPE_CLIENT 0 (payload @ rev (be_bytes (fd mod 2 ^ 32))) (event 0 0 0 []) st"

abbreviation new_id :: "int \<Rightarrow> agate \<Rightarrow> bool" where
  "new_id fd a \<equiv> a_conns a fd = None \<and> 0 \<le> fd \<and> fd + int (a_cap a) \<le> INT_MAX"

abbreviation one_word :: "nat \<Rightarrow> byte list \<Rightarrow> bool" where
  "one_word n w \<equiv> w \<noteq> [] \<and> 0 \<notin> set w \<and> 32 \<notin> set w \<and> length w < n"

fun gate_legal :: "env \<Rightarrow> gmsg \<Rightarrow> agate \<Rightarrow> bool" where
  \<comment> \<open>a new socket has an id that is not in use; a connection never has more than INT_MAX bytes waiting\<close>
  "gate_legal e (Data fd d) a \<longleftrightarrow> (case a_conns a fd of None \<Rightarrow> True
     | Some k \<Rightarrow> int (length (ac_stream k) + length d) \<le> INT_MAX)"
| "gate_legal e (Accepted fd name) a \<longleftrightarrow> new_id fd a"
| "gate_legal e (Connected fd) a \<longleftrightarrow> in_int fd"
| "gate_legal e (Closed fd) a \<longleftrightarrow> in_int fd"
| "gate_legal e (Failed fd) a \<longleftrightarrow> in_int fd"
| "gate_legal e (Warned fd n) a \<longleftrightarrow> in_int fd"
| "gate_legal e (Kick fd) a \<longleftrightarrow> in_int fd"
| "gate_legal e (Start fd) a \<longleftrightarrow> in_int fd"
| "gate_legal e (Forward fd ag cl) a \<longleftrightarrow> in_int fd"
| "gate_legal e (Broker name) a \<longleftrightarrow> 0 \<notin> set name \<and> (name = [] \<or> hd name \<noteq> 32) \<and> length name < 2 ^ 30"
| "gate_legal e (Connect source ip port) a \<longleftrightarrow> one_word 100 ip \<and> one_word 50 port \<and>
     new_id (sock_connect e (a_opened a) ip (atoi port)) a"
| "gate_legal e Stop a \<longleftrightarrow> True"
| "gate_legal e Listen a \<longleftrightarrow> True"
| "gate_legal e (To_client fd payload) a \<longleftrightarrow> in_int fd"

section \<open>The abstraction\<close>

definition view :: "connection \<Rightarrow> byte list \<Rightarrow> aconn" where
  "view k s = \<lparr>ac_id = c_id k, ac_agent = c_agent k, ac_client = c_client k, ac_stream = s\<rparr>"

definition gate_view :: "gst \<Rightarrow> byte list list \<Rightarrow> agate" where
  "gate_view st ss = (let g = st_gate st in
     \<lparr>a_conns = (\<lambda>fd. map_option (\<lambda>c. view (g_conn g ! c) (ss ! c)) (slot_of (g_hash g) fd)),
      a_broker = broker g, a_watchdog = watchdog g, a_tag = client_tag g, a_listen = listen_id g,
      a_bind = takeWhile (\<lambda>b. b \<noteq> 0) (g_bind g), a_cap = length (g_conn g), a_opened = st_opened st\<rparr>)"

definition seen :: "gst \<Rightarrow> effect list" where
  "seen st = filter (\<lambda>x. \<forall>l. x \<noteq> Log l) (st_out st)"

definition refines :: "env \<Rightarrow> gmsg \<Rightarrow> gst \<Rightarrow> byte list list \<Rightarrow> gst \<Rightarrow> bool" where
  \<comment> \<open>the state \<open>st'\<close> after a message is the one the specification wants\<close>
  "refines e m st ss st' \<longleftrightarrow> (\<exists>ss'. ready st' ss' \<and> gate_view st' ss' = snd (gate_spec e m (gate_view st ss))) \<and>
     seen st' = seen st @ fst (gate_spec e m (gate_view st ss))"

lemma gate_view_sel [simp]:
  "a_conns (gate_view st ss) fd = map_option (\<lambda>c. view (g_conn (st_gate st) ! c) (ss ! c)) (slot_of (g_hash (st_gate st)) fd)"
  "a_broker (gate_view st ss) = broker (st_gate st)" "a_watchdog (gate_view st ss) = watchdog (st_gate st)"
  "a_tag (gate_view st ss) = client_tag (st_gate st)" "a_listen (gate_view st ss) = listen_id (st_gate st)"
  "a_cap (gate_view st ss) = length (g_conn (st_gate st))"
  "a_bind (gate_view st ss) = takeWhile (\<lambda>b. b \<noteq> 0) (g_bind (st_gate st))"
  "a_opened (gate_view st ss) = st_opened st"
  by (simp_all add: gate_view_def Let_def)

lemma view_sel [simp]:
  "ac_id (view k s) = c_id k" "ac_agent (view k s) = c_agent k" "ac_client (view k s) = c_client k"
  "ac_stream (view k s) = s" "(view k s)\<lparr>ac_stream := s'\<rparr> = view k s'" "view (k\<lparr>c_buffer := db\<rparr>) s = view k s"
  "(view k s)\<lparr>ac_agent := ag, ac_client := cl\<rparr> = view (k\<lparr>c_agent := ag, c_client := cl\<rparr>) s"
  by (simp_all add: view_def)

lemma seen_simps [simp]:
  "seen (emit x st) = seen st @ (if \<exists>l. x = Log l then [] else [x])"
  "seen (st\<lparr>st_heap := h\<rparr>) = seen st" "seen (upd_gate f st) = seen st" "seen (conn_buffer c t st) = seen st"
  "seen (with_block b d st) = seen st"
  by (auto simp: seen_def emit_def)

lemma seen_out: "st_out st' = st_out st @ es \<Longrightarrow> seen st' = seen st @ filter (\<lambda>x. \<forall>l. x \<noteq> Log l) es"
  by (simp add: seen_def)

section \<open>Every message refines its specification\<close>

lemma full_view:
  assumes "gate_holds RB st ss"
  shows "hashid_full (g_hash (st_gate st)) \<longleftrightarrow> a_full (gate_view st ss)"
proof -
  let ?m = "slot_of (g_hash (st_gate st))" and ?n = "length (g_conn (st_gate st))"
  have inv: "hashid_inv (g_hash (st_gate st))" by (rule gate_holds_table(1) [OF assms])
  have ran: "ran ?m = (the \<circ> ?m) ` dom ?m"
    by (rule set_eqI) (simp add: ran_def image_iff Bex_def dom_def, metis option.sel option.exhaust)
  have "inj_on (the \<circ> ?m) (dom ?m)" using hid.slot_inj [OF inv] by (auto intro!: inj_onI)
  then have card: "card (dom ?m) = card (ran ?m)" unfolding ran by (rule card_image [symmetric])
  have sub: "ran ?m \<subseteq> {..<?n}" using slot_in_range [OF assms] by (auto simp: ran_def)
  have "hashid_full (g_hash (st_gate st)) \<longleftrightarrow> ran ?m = {..<?n}"
    using hid.full_law [OF inv] gate_holds_table(2) [OF assms] by simp
  also have "\<dots> \<longleftrightarrow> card (ran ?m) = ?n" using card_subset_eq [OF finite_lessThan sub] by (metis card_lessThan)
  finally have "hashid_full (g_hash (st_gate st)) \<longleftrightarrow> card (dom ?m) = ?n" by (simp add: card)
  moreover have "dom (a_conns (gate_view st ss)) = dom ?m" by (auto simp: dom_def)
  ultimately show ?thesis by (simp add: a_full_def)
qed

lemma view_slot:
  \<comment> \<open>a change of one connection, which gets, keeps or loses its id\<close>
  assumes inv: "gate_holds RB st ss" and c: "c < length (g_conn (st_gate st))"
    and other: "\<And>x. x \<noteq> fd \<Longrightarrow> slot_of (g_hash (st_gate st)) x \<noteq> Some c"
    and conn: "g_conn (st_gate st') = (g_conn (st_gate st))[c := k]"
    and slot: "slot_of (g_hash (st_gate st')) = (slot_of (g_hash (st_gate st)))(fd := i)" "i = None \<or> i = Some c"
    and set: "settings st' = settings st"
  shows "gate_view st' (ss[c := s]) =
    (gate_view st ss)\<lparr>a_conns := (a_conns (gate_view st ss))(fd := map_option (\<lambda>_. view k s) i)\<rparr>"
proof -
  have "map_option (\<lambda>j. view ((g_conn (st_gate st))[c := k] ! j) (ss[c := s] ! j)) (((slot_of (g_hash (st_gate st)))(fd := i)) x) =
      ((a_conns (gate_view st ss))(fd := map_option (\<lambda>_. view k s) i)) x" for x
  proof (cases "x = fd")
    case True
    then show ?thesis using slot(2) c gate_holds_table(4) [OF inv] by auto
  next
    case False
    then show ?thesis
      using other [OF False] by (cases "slot_of (g_hash (st_gate st)) x") auto
  qed
  then show ?thesis using conn slot(1) set c by (simp add: gate_view_def Let_def fun_eq_iff)
qed

lemma slot_other:
  assumes "gate_holds RB st ss" and "slot_of (g_hash (st_gate st)) fd = Some c" and "x \<noteq> fd"
  shows "slot_of (g_hash (st_gate st)) x \<noteq> Some c"
  using hid.slot_inj [OF gate_holds_table(1) [OF assms(1)]] assms(2,3) by blast

lemma send_of_route: "send_of e c st = route e (gate_view st ss) (view (g_conn (st_gate st) ! c) s)"
  by (simp add: fun_eq_iff send_of_def route_def Let_def)

lemma route_visible: "filter (\<lambda>x. \<forall>l. x \<noteq> Log l) (map (route e a k) ps) = map (route e a k) ps"
  by (simp add: filter_id_conv route_def Let_def)

lemma reported_view: "reported st data = a_report (gate_view st ss) data"
  "filter (\<lambda>x. \<forall>l. x \<noteq> Log l) (a_report a data) = a_report a data"
  by (simp_all add: reported_def a_report_def)

lemma stream_bound:
  assumes "gate_holds RB st ss" and "i < length (g_conn (st_gate st))"
  shows "db_size (c_buffer (g_conn (st_gate st) ! i)) \<le> int (length (ss ! i))"
proof -
  obtain bss where o: "table_ok (st_gate st)" "streams st bss ss"
    "buffers_hold RB (map c_buffer (g_conn (st_gate st))) (g_mp (st_gate st)) (st_heap st) bss"
    using assms(1) by (rule gate_holdsE)
  have "db_size (c_buffer (g_conn (st_gate st) ! i)) = int (length (bss ! i))"
    using o(3) assms(2) by (auto simp: buffers_hold_def buffers_rep_def buffer_ok_def)
  moreover have "pending (db_header (c_buffer (g_conn (st_gate st) ! i))) (bss ! i) (ss ! i)"
    using o(2) assms(2) by (simp add: streams_def)
  then have "length (bss ! i) \<le> length (ss ! i)" by (auto simp: pending_def split: if_splits)
  ultimately show ?thesis by simp
qed

lemma data_refines:
  assumes "ready st ss" and env: "\<forall>k. mem e k" and legal: "gate_legal e (Data fd d) (gate_view st ss)"
    and b: "bufs (st_heap st) b = None"
  shows "\<exists>st'. gate_call e b (Data fd d) st = Inr (0, st') \<and> refines e (Data fd d) st ss st'"
proof (cases "slot_of (g_hash (st_gate st)) fd")
  case None
  have "gate_holds {b} (with_block b d st) ss" using with_block_holds [OF assms(1) b] .
  then obtain st' where s: "on_data e (data_message fd b d) (with_block b d st) = Inr st'" "gate_holds {} st' ss"
      "st_gate st' = st_gate st" "st_out st' = st_out st @ [Socket_close fd]" "st_opened st' = st_opened st"
    using on_data_unknown [of b "{}" "with_block b d st" ss "data_message fd b d" d e] None
    by (auto simp: data_message_def)
  then have "ready st' ss" "gate_view st' ss = gate_view st ss"
    using assms(1) by (simp_all add: ready_def gate_view_def)
  then show ?thesis
    using s None by (intro exI [of _ st']) (auto simp: cb_data refines_def seen_out)
next
  case (Some c)
  let ?k = "g_conn (st_gate st) ! c" and ?f = "frames (ss ! c @ d)"
  have inv: "gate_holds {} st ss" using assms(1) by (simp add: ready_def)
  have c: "c < length (g_conn (st_gate st))" by (rule slot_in_range [OF inv Some])
  have ok: "data_ok st fd b d"
    using legal stream_bound [OF inv c] Some b by (simp add: data_ok_def)
  obtain t where t: "cb e PTYPE_SOCKET 0 [] (data_message fd b d) (with_block b d st) =
      Inr (0, (conn_buffer c t (with_block b d st))\<lparr>st_out := st_out st @ map (send_of e c st) (fst ?f) @ overflow_out fd (snd ?f)\<rparr>)"
      "ready (conn_buffer c t (with_block b d st)) (ss[c := rest_of (snd ?f)])"
    using data_step_known [OF assms(1) env ok Some] by blast
  let ?st = "(conn_buffer c t (with_block b d st))\<lparr>st_out := st_out st @ map (send_of e c st) (fst ?f) @ overflow_out fd (snd ?f)\<rparr>"
  have "g_conn (st_gate ?st) = (g_conn (st_gate st))[c := ?k\<lparr>c_buffer := fst t\<rparr>]"
    by (cases t) (simp add: conn_buffer_conn)
  then have v: "gate_view ?st (ss[c := rest_of (snd ?f)]) =
      (gate_view st ss)\<lparr>a_conns := (a_conns (gate_view st ss))(fd := map_option (\<lambda>_. view (?k\<lparr>c_buffer := fst t\<rparr>) (rest_of (snd ?f))) (Some c))\<rparr>"
    using Some by (intro view_slot [OF inv c slot_other [OF inv Some]]) auto
  have "seen ?st = seen st @ map (send_of e c st) (fst ?f) @ (if too_big (snd ?f) then [Socket_close fd] else [])"
    by (simp add: seen_def overflow_out_def send_of_route [of e c st ss "ss ! c"] route_visible)
  then show ?thesis
    using t v Some
    by (intro exI [of _ ?st]) (auto simp: refines_def Let_def ready_out send_of_route [of e c st ss "ss ! c"]
        intro!: exI [of _ "ss[c := rest_of (snd ?f)]"])
qed

lemma refinesI:
  \<comment> \<open>a message that leaves the connections alone\<close>
  assumes "ready st ss" and "st_gate st' = st_gate st" and "st_heap st' = st_heap st"
    and "seen st' = seen st @ fst (gate_spec e m (gate_view st ss))"
    and "snd (gate_spec e m (gate_view st ss)) = gate_view st ss" and "st_opened st' = st_opened st"
  shows "refines e m st ss st'"
proof -
  have "ready st' ss"
    using assms(1-3) gate_holds_gate [of "{}" st ss st'] by (auto simp: ready_def gate_holds_def)
  moreover have "gate_view st' ss = gate_view st ss" using assms(2,6) by (simp add: gate_view_def)
  ultimately show ?thesis using assms(4,5) by (auto simp: refines_def)
qed

lemma cb_type:
  "cb e PTYPE_TEXT source msg m st = bind_res (ctrl e msg source st) (\<lambda>st. Inr (0, st))"
  "cb e PTYPE_SOCKET source msg m st = bind_res (dispatch_socket_message e m st) (\<lambda>st. Inr (0, st))"
  "cb e PTYPE_CLIENT source msg m st = on_client source msg st"
  by (simp_all add: cb_def PTYPE_TEXT_def PTYPE_CLIENT_def PTYPE_SOCKET_def)

lemma dispatch_event:
  "dispatch_socket_message e (event SOCKET_ACCEPT i u name) st = on_accept (event SOCKET_ACCEPT i u name) st"
  "dispatch_socket_message e (event SOCKET_CONNECT i u name) st = on_connect (event SOCKET_CONNECT i u name) st"
  "dispatch_socket_message e (event SOCKET_CLOSE i u name) st = on_close (event SOCKET_CLOSE i u name) st"
  "dispatch_socket_message e (event SOCKET_ERROR i u name) st = on_close (event SOCKET_ERROR i u name) st"
  "dispatch_socket_message e (event SOCKET_WARNING i u name) st = Inr (on_warning (event SOCKET_WARNING i u name) st)"
  by (simp_all add: dispatch_socket_message_def event_def SOCKET_DATA_def SOCKET_CONNECT_def SOCKET_CLOSE_def
      SOCKET_ACCEPT_def SOCKET_ERROR_def SOCKET_WARNING_def)

lemma event_sel [simp]:
  "sm_type (event t i u name) = t" "sm_id (event t i u name) = i" "sm_ud (event t i u name) = u"
  "sm_name (event t i u name) = name"
  by (simp_all add: event_def)

lemma accept_refines:
  assumes "ready st ss" and legal: "gate_legal e (Accepted fd name) (gate_view st ss)"
  shows "\<exists>st'. gate_call e b (Accepted fd name) st = Inr (0, st') \<and> refines e (Accepted fd name) st ss st'"
proof -
  let ?m = "event SOCKET_ACCEPT (listen_id (st_gate st)) fd name"
  have inv: "gate_holds {} st ss" and wd: "watchdog (st_gate st) \<noteq> 0" using assms(1) by (simp_all add: ready_def)
  have new: "slot_of (g_hash (st_gate st)) fd = None" "0 \<le> fd" "fd + int (length (g_conn (st_gate st))) \<le> INT_MAX"
    using legal by simp_all
  show ?thesis
  proof (cases "a_full (gate_view st ss)")
    case True
    then have "on_accept ?m st = Inr (emit (Socket_close fd) st)"
      using on_accept_full [of ?m st] full_view [OF inv] by simp
    then show ?thesis using True assms(1) by (simp add: cb_type dispatch_event refinesI)
  next
    case False
    then have "\<not> hashid_full (g_hash (st_gate st))" using full_view [OF inv] by simp
    with on_accept_ok [OF inv, of ?m] new obtain c st' where s: "on_accept ?m st = Inr st'" "gate_holds {} st' ss"
        "ss ! c = []" "c < length (g_conn (st_gate st))" "c \<notin> ran (slot_of (g_hash (st_gate st)))"
        "slot_of (g_hash (st_gate st')) = (slot_of (g_hash (st_gate st)))(fd \<mapsto> c)"
        "g_conn (st_gate st') = (g_conn (st_gate st))[c := free_conn\<lparr>c_id := fd, c_remote_name := set_name (replicate 32 0) name\<rparr>]"
        "settings st' = settings st"
        "st_out st' = st_out st @ reported st (str ''gate accept '' @ dec fd @ [32] @
          takeWhile (\<lambda>b. b \<noteq> 0) (take 31 name)) @ [Log (str ''socket open: '' @ dec fd)]"
      by auto
    let ?k = "free_conn\<lparr>c_id := fd, c_remote_name := set_name (replicate 32 0) name\<rparr>"
    have "gate_view st' (ss[c := []]) = (gate_view st ss)\<lparr>a_conns := (a_conns (gate_view st ss))(fd := map_option (\<lambda>_. view ?k []) (Some c))\<rparr>"
      using s(5) by (intro view_slot [OF inv s(4) _ s(7,6) _ s(8)]) (auto simp: ran_def)
    moreover have "ss[c := []] = ss" using s(3) by (metis list_update_id)
    moreover have "view ?k [] = \<lparr>ac_id = fd, ac_agent = 0, ac_client = 0, ac_stream = []\<rparr>"
      by (simp add: view_def zero_conn_def)
    moreover have "ready st' ss" using s(2,8) wd by (simp add: ready_def)
    ultimately show ?thesis
      using s(1,9) False
      by (intro exI [of _ st']) (auto simp: cb_type dispatch_event refines_def seen_out reported_view(1) [of st _ ss] reported_view(2))
  qed
qed

lemma close_refines:
  assumes "ready st ss" and "in_int (sm_id m)"
  shows "\<exists>st'. on_close m st = Inr st' \<and> refines e (Closed (sm_id m)) st ss st'"
proof -
  have inv: "gate_holds {} st ss" and wd: "watchdog (st_gate st) \<noteq> 0" using assms(1) by (simp_all add: ready_def)
  show ?thesis
  proof (cases "slot_of (g_hash (st_gate st)) (sm_id m)")
    case None
    from on_close_unknown [OF inv this] obtain hi where
      hi: "on_close m st = Inr (upd_gate (\<lambda>g. g\<lparr>g_hash := hi\<rparr>) st)" "slot_of hi = slot_of (g_hash (st_gate st))"
        "gate_holds {} (upd_gate (\<lambda>g. g\<lparr>g_hash := hi\<rparr>) st) ss" by blast
    moreover from hi(2) have "gate_view (upd_gate (\<lambda>g. g\<lparr>g_hash := hi\<rparr>) st) ss = gate_view st ss"
      by (simp add: gate_view_def Let_def)
    ultimately show ?thesis using None wd by (auto simp: refines_def ready_def)
  next
    case (Some c)
    obtain st' where s: "on_close m st = Inr st'" "gate_holds {} st' (ss[c := []])"
        "slot_of (g_hash (st_gate st')) = (slot_of (g_hash (st_gate st)))(sm_id m := None)"
        "g_conn (st_gate st') = (g_conn (st_gate st))[c := free_conn]" "settings st' = settings st"
        "st_out st' = st_out st @
          [Log (str ''socket close: '' @ dec (c_id (g_conn (st_gate st) ! c)) @ str '', msg id:'' @ dec (sm_id m))] @
          reported st (str ''gate close '' @ dec (sm_id m) @ [32] @ udec (c_agent (g_conn (st_gate st) ! c)))"
      using on_close_known [OF inv Some assms(2)] by blast
    have "gate_view st' (ss[c := []]) = (gate_view st ss)\<lparr>a_conns := (a_conns (gate_view st ss))(sm_id m := None)\<rparr>"
      using view_slot [OF inv slot_in_range [OF inv Some] slot_other [OF inv Some] s(4,3) _ s(5), of "[]"] by simp
    moreover have "ready st' (ss[c := []])" using s(2,5) wd by (simp add: ready_def)
    ultimately show ?thesis
      using s(1,6) Some
      by (intro exI [of _ st']) (auto simp: refines_def seen_out reported_view(1) [of st _ ss] reported_view(2))
  qed
qed

lemma command_word [simp]:
  "\<not> prefix (str ''start'') (str ''kick'')" "\<not> prefix (str ''start'') (str ''forward'')"
  "\<not> prefix (str ''start'') (str ''broker'')" "\<not> prefix (str ''broker'') (str ''kick'')"
  "\<not> prefix (str ''broker'') (str ''forward'')" "\<not> prefix (str ''connect'') (str ''kick'')"
  "\<not> prefix (str ''connect'') (str ''forward'')" "\<not> prefix (str ''connect'') (str ''broker'')"
  "\<not> prefix (str ''connect'') (str ''start'')" "\<not> prefix (str ''connect'') (str ''close'')"
  "\<not> prefix (str ''close'') (str ''kick'')" "\<not> prefix (str ''close'') (str ''forward'')"
  "\<not> prefix (str ''close'') (str ''broker'')" "\<not> prefix (str ''close'') (str ''start'')"
  "0 \<notin> set (str ''start'')" "32 \<notin> set (str ''start'')" "length (str ''start'') = 5"
  "0 \<notin> set (str ''broker'')" "32 \<notin> set (str ''broker'')" "length (str ''broker'') = 6"
  "0 \<notin> set (str ''connect'')" "32 \<notin> set (str ''connect'')" "length (str ''connect'') = 7"
  "\<not> prefix (str ''listen'') (str ''kick'')" "\<not> prefix (str ''listen'') (str ''forward'')"
  "\<not> prefix (str ''listen'') (str ''broker'')" "\<not> prefix (str ''listen'') (str ''start'')"
  "\<not> prefix (str ''listen'') (str ''close'')" "\<not> prefix (str ''listen'') (str ''connect'')"
  "0 \<notin> set (str ''listen'')" "str ''listen'' \<noteq> []" "length (str ''listen'') = 6"
  "0 \<notin> set (str ''close'')" "32 \<notin> set (str ''close'')" "str ''close'' \<noteq> []" "length (str ''close'') = 5"
  by (simp_all add: str_def)

lemma kick_refines:
  assumes "ready st ss" and "in_int fd"
  shows "\<exists>st'. gate_call e b (Kick fd) st = Inr (0, st') \<and> refines e (Kick fd) st ss st'"
    and "\<exists>st'. gate_call e b (Start fd) st = Inr (0, st') \<and> refines e (Start fd) st ss st'"
proof -
  have inv: "gate_holds {} st ss" using assms(1) by (simp add: ready_def)
  have "ctrl e (str ''kick'' @ [32] @ dec fd) 0 st =
      Inr (if slot_of (g_hash (st_gate st)) fd = None then st else emit (Socket_close fd) st)"
    by (rule ctrl_kick_closes [OF inv assms(2)]) simp
  moreover have "int (length (str ''start'' @ 32 # dec fd)) < INT_MAX"
    using dec_length [OF assms(2)] by (simp add: INT_MAX_def)
  then have "ctrl e (str ''start'' @ [32] @ dec fd) 0 st =
      Inr (if slot_of (g_hash (st_gate st)) fd = None then st else emit (Socket_start fd) st)"
    using ctrl_args [of "str ''start''" "dec fd" e 0 st] ctrl_kick_eq(2) [OF inv assms(2), of "str ''start''"] by simp
  ultimately show "\<exists>st'. gate_call e b (Kick fd) st = Inr (0, st') \<and> refines e (Kick fd) st ss st'"
    and "\<exists>st'. gate_call e b (Start fd) st = Inr (0, st') \<and> refines e (Start fd) st ss st'"
    using assms(1) by (auto simp: cb_type intro!: refinesI)
qed

lemma seen_logs: "st_out st' = st_out st @ map Log ls \<Longrightarrow> seen st' = seen st"
  by (simp add: seen_def filter_map o_def)

lemma forward_refines:
  assumes "ready st ss" and "in_int fd"
  shows "\<exists>st'. gate_call e b (Forward fd ag cl) st = Inr (0, st') \<and> refines e (Forward fd ag cl) st ss st'"
proof -
  have inv: "gate_holds {} st ss" and wd: "watchdog (st_gate st) \<noteq> 0" using assms(1) by (simp_all add: ready_def)
  obtain st' ls where s: "ctrl e (str ''forward'' @ [32] @ dec fd @ [32, 58] @ hex ag @ [32, 58] @ hex cl) 0 st = Inr st'"
      "gate_holds {} st' ss" "g_hash (st_gate st') = g_hash (st_gate st)"
      "g_conn (st_gate st') = (case slot_of (g_hash (st_gate st)) fd of None \<Rightarrow> g_conn (st_gate st)
        | Some i \<Rightarrow> (g_conn (st_gate st))[i := (g_conn (st_gate st) ! i)\<lparr>c_agent := ag, c_client := cl\<rparr>])"
      "settings st' = settings st" "st_out st' = st_out st @ map Log ls"
    using ctrl_forward_run [OF inv assms(2), of e ag cl 0] by blast
  have "gate_view st' ss = snd (gate_spec e (Forward fd ag cl) (gate_view st ss))"
  proof (cases "slot_of (g_hash (st_gate st)) fd")
    case None
    then show ?thesis using s(3-5) by (simp add: gate_view_def Let_def)
  next
    case (Some c)
    have "g_conn (st_gate st') = (g_conn (st_gate st))[c := (g_conn (st_gate st) ! c)\<lparr>c_agent := ag, c_client := cl\<rparr>]"
      "slot_of (g_hash (st_gate st')) = (slot_of (g_hash (st_gate st)))(fd := Some c)"
      using s(3,4) Some by auto
    from view_slot [OF inv slot_in_range [OF inv Some] slot_other [OF inv Some] this _ s(5), of "ss ! c"]
    show ?thesis using Some by simp
  qed
  then show ?thesis
    using s(1,2,5) seen_logs [OF s(6)] wd by (intro exI [of _ st']) (auto simp: cb_type refines_def ready_def)
qed

lemma broker_refines:
  assumes "ready st ss" and legal: "gate_legal e (Broker name) (gate_view st ss)"
  shows "\<exists>st'. gate_call e b (Broker name) st = Inr (0, st') \<and> refines e (Broker name) st ss st'"
proof -
  have inv: "gate_holds {} st ss" and wd: "watchdog (st_gate st) \<noteq> 0" using assms(1) by (simp_all add: ready_def)
  have name: "0 \<notin> set name" "name = [] \<or> hd name \<noteq> 32" "int (length (str ''broker'' @ 32 # name)) < INT_MAX"
    using legal by (simp_all add: INT_MAX_def)
  have "c_str (name @ 0 # r) 0 = Inr name" for r using c_str_terminated [of name "[]" r] name(1) by simp
  then have "ctrl e (str ''broker'' @ 32 # name) 0 st =
      Inr (upd_gate (\<lambda>g. g\<lparr>broker := queryname e name\<rparr>) (emit (Queryname name) st))"
    using ctrl_args [of "str ''broker''" name e 0 st] name(3) parm_word [OF name(2), of "str ''broker''"]
    by (simp add: ctrl_broker_def)
  moreover have "ready (upd_gate (\<lambda>g. g\<lparr>broker := y\<rparr>) (emit x st)) ss" for x y
    using gate_holds_field(2) [of "{}" "emit x st" ss y] inv wd by (simp add: ready_def)
  ultimately show ?thesis
    by (auto simp: cb_type refines_def gate_view_def Let_def)
qed

lemma stop_refines:
  assumes "ready st ss"
  shows "\<exists>st'. gate_call e b Stop st = Inr (0, st') \<and> refines e Stop st ss st'"
proof -
  have inv: "gate_holds {} st ss" and wd: "watchdog (st_gate st) \<noteq> 0" using assms(1) by (simp_all add: ready_def)
  have w: "takeWhile (\<lambda>b. b \<noteq> 32) (str ''close'') = str ''close''" by (simp add: str_def)
  have "ctrl e (str ''close'') 0 st = Inr (ctrl_close st)"
    using ctrl_word [of "str ''close''" "str ''close''" e 0 st] w by (simp add: INT_MAX_def)
  moreover have "refines e Stop st ss (ctrl_close st)"
    using gate_holds_field(1) [of "{}" "emit (Socket_close (listen_id (st_gate st))) st" ss "-1"] inv wd
    by (auto simp: ctrl_close_def refines_def ready_def gate_view_def Let_def intro!: exI [of _ ss])
  ultimately show ?thesis by (simp add: cb_type)
qed

lemma a_listen_on_keeps [simp]:
  "a_conns (snd (a_listen_on e host port a)) = a_conns a" "a_broker (snd (a_listen_on e host port a)) = a_broker a"
  "a_watchdog (snd (a_listen_on e host port a)) = a_watchdog a" "a_tag (snd (a_listen_on e host port a)) = a_tag a"
  "a_cap (snd (a_listen_on e host port a)) = a_cap a"
  by (simp_all add: a_listen_on_def Let_def)

lemma takeWhile_cut:
  "k < length (takeWhile P xs) \<Longrightarrow> \<not> P y \<Longrightarrow> takeWhile P (xs[k := y]) = take k (takeWhile P xs)"
proof (induction xs arbitrary: k)
  case (Cons x xs)
  then show ?case by (cases k) (auto split: if_splits)
qed simp

lemma strchr_bound: "strchr s c = Some k \<Longrightarrow> k < length s"
  using length_takeWhile_le [of "\<lambda>b. b \<noteq> c" s] takeWhile_eq_all_conv [of "\<lambda>b. b \<noteq> c" s]
    takeWhile_eq_take [of "\<lambda>b. b \<noteq> c" s]
  by (fastforce simp: strchr_def split: if_splits)

lemma listen_refines:
  assumes "ready st ss"
  shows "\<exists>st'. gate_call e b Listen st = Inr (0, st') \<and> refines e Listen st ss st'"
proof -
  have inv: "gate_holds {} st ss" and wd: "watchdog (st_gate st) \<noteq> 0" using assms by (simp_all add: ready_def)
  let ?arr = "g_bind (st_gate st)" and ?s = "takeWhile (\<lambda>b. b \<noteq> 0) (g_bind (st_gate st))"
  have zero: "0 \<in> set ?arr" using inv by (simp add: gate_holds_def table_ok_def)
  then have c: "c_str ?arr 0 = Inr ?s" by (simp add: c_str_def)
  have cut: "0 \<in> set (?arr[k := 0])" for k
    using zero by (cases "k < length ?arr") (simp_all add: set_update_memI list_update_beyond)
  have w: "takeWhile (\<lambda>b. b \<noteq> 32) (str ''listen'') = str ''listen''" by (simp add: str_def)
  have run: "ctrl e (str ''listen'') 0 st = ctrl_listen e st"
    using ctrl_word [of "str ''listen''" "str ''listen''" e 0 st] w by (simp add: INT_MAX_def)
  obtain st' where st': "ctrl_listen e st = Inr st'" 
    using start_listen_ok [OF zero, of e st] by (elim exE) (simp add: ctrl_listen_def)
  then have "ready st' ss" using ctrl_listen_kept [OF _ inv] wd by (auto simp: kept_def ready_def)
  moreover have "gate_view st' ss = snd (gate_spec e Listen (gate_view st ss)) \<and>
      seen st' = seen st @ fst (gate_spec e Listen (gate_view st ss))"
  proof (cases "strchr ?s 58")
    case None
    then show ?thesis using st' c zero
      by (auto simp: ctrl_listen_def start_listen_def listen_on_def a_listen_on_def Let_def gate_view_def c_str_def split: if_splits)
  next
    case (Some k)
    then show ?thesis using st' c cut [of k] takeWhile_cut [OF strchr_bound [OF Some], of 0]
      by (auto simp: ctrl_listen_def start_listen_def listen_on_def a_listen_on_def Let_def gate_view_def c_str_def split: if_splits)
  qed
  ultimately show ?thesis using run st' by (auto simp: cb_type refines_def)
qed

lemma be_bytes_value:
  assumes "0 \<le> v" and "v < 2 ^ 32"
  shows "be_value (be_bytes v) = v" and "length (be_bytes v) = 4"
proof -
  have d: "v div 2 ^ 24 = v div 2 ^ 16 div 256" "v div 2 ^ 16 = v div 2 ^ 8 div 256" "v div 2 ^ 8 = v div 256"
    by (simp_all add: div_mult2_eq [symmetric])
  have top: "v div 2 ^ 24 mod 256 = v div 2 ^ 24"
    using assms zdiv_mono1 [of v "2 ^ 32 - 1" "2 ^ 24"] by (intro mod_pos_pos_trivial) (simp_all add: pos_imp_zdiv_nonneg_iff)
  have "be_value (be_bytes v) =
      ((v div 2 ^ 24 * 256 + v div 2 ^ 16 mod 256) * 256 + v div 2 ^ 8 mod 256) * 256 + v mod 256"
    using top by (simp add: be_value_def be_bytes_def uint_word_of_int)
  also have "\<dots> = v"
    using div_mult_mod_eq [of "v div 2 ^ 16" 256] div_mult_mod_eq [of "v div 2 ^ 8" 256] div_mult_mod_eq [of v 256] d
    by simp
  finally show "be_value (be_bytes v) = v" .
qed (simp add: be_bytes_def)

lemma as_int_mod: "in_int fd \<Longrightarrow> as_int (fd mod 2 ^ 32) = fd"
proof (cases "0 \<le> fd")
  case False
  assume fd: "in_int fd"
  then have "(fd + 2 ^ 32) mod 2 ^ 32 = fd + 2 ^ 32" using False by (intro mod_pos_pos_trivial) (auto dest: in_intD)
  then show ?thesis using False in_intD [OF fd] by (simp add: as_int_def)
qed (auto simp: as_int_def dest!: in_intD)

lemma client_refines:
  assumes "ready st ss" and "in_int fd"
  shows "\<exists>r st'. gate_call e b (To_client fd payload) st = Inr (r, st') \<and> refines e (To_client fd payload) st ss st'"
proof -
  have inv: "gate_holds {} st ss" using assms(1) by (simp add: ready_def)
  have v: "be_value (be_bytes (fd mod 2 ^ 32)) = fd mod 2 ^ 32" by (rule be_bytes_value) simp_all
  obtain b3 b2 b1 b0 where bs: "be_bytes (fd mod 2 ^ 32) = [b3, b2, b1, b0]" by (simp add: be_bytes_def)
  then have "fd = as_int (be_value [b3, b2, b1, b0])" using v as_int_mod [OF assms(2)] by simp
  from client_message_sent [OF inv this, of 0 payload] obtain ls where
    "on_client 0 (payload @ [b0, b1, b2, b3]) st =
      (if payload = [] \<or> slot_of (g_hash (st_gate st)) fd = None
       then Inr (0, st\<lparr>st_out := st_out st @ map Log ls\<rparr>)
       else Inr (1, st\<lparr>st_out := st_out st @ map Log ls @ [Socket_send fd payload]\<rparr>))" by blast
  moreover have "refines e (To_client fd payload) st ss (st\<lparr>st_out := st_out st @ map Log ls @ es\<rparr>)"
    if "es = fst (gate_spec e (To_client fd payload) (gate_view st ss))" for es
    using assms(1) that by (intro refinesI) (simp_all add: seen_def filter_map o_def)
  ultimately show ?thesis using bs by (auto simp: cb_type)
qed

lemma connected_refines:
  assumes "ready st ss"
  shows "\<exists>st'. gate_call e b (Connected fd) st = Inr (0, st') \<and> refines e (Connected fd) st ss st'"
    and "\<exists>st'. gate_call e b (Warned fd n) st = Inr (0, st') \<and> refines e (Warned fd n) st ss st'"
proof -
  have inv: "gate_holds {} st ss" using assms by (simp add: ready_def)
  show "\<exists>st'. gate_call e b (Connected fd) st = Inr (0, st') \<and> refines e (Connected fd) st ss st'"
    using assms on_connect_ok [OF inv, of "event SOCKET_CONNECT fd 0 []"]
    by (auto simp: cb_type dispatch_event intro!: refinesI split: option.splits)
  show "\<exists>st'. gate_call e b (Warned fd n) st = Inr (0, st') \<and> refines e (Warned fd n) st ss st'"
    using assms by (auto simp: cb_type dispatch_event on_warning_def intro!: refinesI)
qed

lemma connect_entered:
  \<comment> \<open>a socket that was opened is entered with its agent: the state after \<open>hashid_insert\<close> and \<open>_forward_agent\<close>\<close>
  assumes inv: "gate_holds {} st ss" and new: "insertable (g_hash (st_gate st)) x" "slot_of (g_hash (st_gate st)) x = None"
    and room: "\<not> hashid_full (g_hash (st_gate st))"
  obtains c hi st' l where "hashid_insert (g_hash (st_gate st)) x = Inr (int c, hi)"
    and "forward_agent x source 0 (upd_gate (\<lambda>g. g\<lparr>g_hash := hi\<rparr>) (emit eff st)) = Inr st'" and "gate_holds {} st' ss"
    and "settings st' = settings st" and "st_out st' = st_out st @ [eff, Log l]"
    and "gate_view st' ss = (gate_view st ss)\<lparr>a_conns := (a_conns (gate_view st ss))(x \<mapsto>
        \<lparr>ac_id = -1, ac_agent = source, ac_client = 0, ac_stream = []\<rparr>)\<rparr>"
proof -
  obtain c hi where hi: "hashid_insert (g_hash (st_gate st)) x = Inr (int c, hi)" "hashid_inv hi"
      "c < length (g_conn (st_gate st))" "c \<notin> ran (slot_of (g_hash (st_gate st)))"
      "slot_of hi = (slot_of (g_hash (st_gate st)))(x \<mapsto> c)" "nat (cap hi) = length (g_conn (st_gate st))"
    using hid.insert_law [OF gate_holds_table(1) [OF inv] new room] gate_holds_table(2) [OF inv] by auto
  let ?st = "upd_gate (\<lambda>g. g\<lparr>g_hash := hi\<rparr>) (emit eff st)"
  have tab: "table_ok (st_gate st)" using inv by (simp add: gate_holds_def)
  have "cap hi = cap (g_hash (st_gate st))"
    using hi(6) gate_holds_table(2) [OF inv] hash_shape_cap(1) [OF hashid_invD(1) [OF hi(2)]] by simp
  then have "table_ok ((st_gate st)\<lparr>g_hash := hi\<rparr>)"
    using tab hi(2) ran_insert_slot(1) [of "slot_of (g_hash (st_gate st))", OF new(2)] hi(5) by (auto simp: table_ok_def)
  then have "gate_holds {} ?st ss" by (intro gate_holds_gate [OF inv]) simp_all
  from forward_agent_ok [OF this, of x source 0] obtain st' l where s: "forward_agent x source 0 ?st = Inr st'"
      "gate_holds {} st' ss" "g_hash (st_gate st') = hi" "settings st' = settings st"
      "g_conn (st_gate st') = (g_conn (st_gate st))[c := (g_conn (st_gate st) ! c)\<lparr>c_agent := source, c_client := 0\<rparr>]"
      "st_out st' = st_out st @ [eff, Log l]"
    using hi(5) by auto
  have k: "g_conn (st_gate st) ! c = free_conn" using tab hi(3,4) by (simp add: table_ok_def)
  have "slot_of (g_hash (st_gate st')) = (slot_of (g_hash (st_gate st)))(x := Some c)" using s(3) hi(5) by simp
  note v = view_slot [OF inv hi(3) _ s(5) this _ s(4), of "[]"]
  have "ss[c := []] = ss" using free_slot_stream [OF inv hi(3,4)] by (metis list_update_id)
  then have "gate_view st' ss = (gate_view st ss)\<lparr>a_conns := (a_conns (gate_view st ss))(x \<mapsto>
      \<lparr>ac_id = -1, ac_agent = source, ac_client = 0, ac_stream = []\<rparr>)\<rparr>"
    using v hi(4) k by (auto simp: ran_def view_def zero_conn_def)
  with hi(1) s(1,2,4,6) show thesis by (rule that)
qed

lemma connect_refines:
  assumes "ready st ss" and legal: "gate_legal e (Connect source ip port) (gate_view st ss)"
  shows "\<exists>st'. gate_call e b (Connect source ip port) st = Inr (0, st') \<and> refines e (Connect source ip port) st ss st'"
proof -
  let ?x = "sock_connect e (st_opened st) ip (atoi port)" and ?st = "st\<lparr>st_opened := st_opened st + 1\<rparr>"
  have inv: "gate_holds {} st ss" and wd: "watchdog (st_gate st) \<noteq> 0" using assms(1) by (simp_all add: ready_def)
  have ip: "ip \<noteq> []" "0 \<notin> set ip" "32 \<notin> set ip" "length ip < 100"
    and port: "port \<noteq> []" "0 \<notin> set port" "32 \<notin> set port" "length port < 50" using legal by simp_all
  have "int (length (str ''connect'' @ 32 # ip @ 32 # port)) < INT_MAX" using ip(4) port(4) by (simp add: INT_MAX_def)
  then have run: "ctrl e (str ''connect'' @ 32 # ip @ 32 # port) source st =
      ctrl_connect e (str ''connect'' @ 32 # ip @ 32 # port @ [0]) (int (length (str ''connect''))) source st"
    using ctrl_args [of "str ''connect''" "ip @ 32 # port" e source st] by simp
  note eq = ctrl_connect_eq [OF ip port refl, of e "str ''connect''" source st]
  show ?thesis
  proof (cases "a_full (gate_view st ss)")
    case True
    then show ?thesis using run eq full_view [OF inv] assms(1) by (simp add: cb_type refinesI)
  next
    case False
    then have room: "\<not> hashid_full (g_hash (st_gate st))" using full_view [OF inv] by simp
    have inv': "gate_holds {} ?st ss" and room': "\<not> hashid_full (g_hash (st_gate ?st))" using inv room by simp_all
    have "insertable (g_hash (st_gate ?st)) ?x" "slot_of (g_hash (st_gate ?st)) ?x = None"
      using legal insertable_iff [OF inv, of ?x] by simp_all
    then obtain c hi st' l where s: "hashid_insert (g_hash (st_gate ?st)) ?x = Inr (int c, hi)"
        "forward_agent ?x source 0 (upd_gate (\<lambda>g. g\<lparr>g_hash := hi\<rparr>) (emit (Socket_connect ip (atoi port)) ?st)) = Inr st'"
        "gate_holds {} st' ss" "settings st' = settings ?st" "st_out st' = st_out ?st @ [Socket_connect ip (atoi port), Log l]"
      and view': "gate_view st' ss = (gate_view ?st ss)\<lparr>a_conns := (a_conns (gate_view ?st ss))(?x \<mapsto>
        \<lparr>ac_id = -1, ac_agent = source, ac_client = 0, ac_stream = []\<rparr>)\<rparr>"
      by (rule connect_entered [OF inv' _ _ room'])
    have view: "gate_view st' ss = (gate_view st ss)\<lparr>a_conns := (a_conns (gate_view st ss))(?x \<mapsto>
        \<lparr>ac_id = -1, ac_agent = source, ac_client = 0, ac_stream = []\<rparr>), a_opened := st_opened st + 1\<rparr>"
      unfolding view' by (simp add: gate_view_def Let_def)
    have "ready st' ss" using s(3,4) wd by (simp add: ready_def)
    moreover have "ctrl e (str ''connect'' @ 32 # ip @ 32 # port) source st =
        Inr (emit (Log (str ''connect to '' @ ip @ str '' port '' @ dec (atoi port))) st')"
      using run eq room s(1,2) by simp
    moreover have "gate_view (emit x st') ss = gate_view st' ss" "ready (emit x st') ss = ready st' ss" for x
      by (simp_all add: gate_view_def ready_def)
    ultimately show ?thesis
      using s(5) view False by (auto simp: cb_type refines_def seen_out)
  qed
qed

lemma failed_closed: "refines e (Failed fd) st ss st' = refines e (Closed fd) st ss st'"
  by (simp add: refines_def)

lemma call_refines:
  assumes "ready st ss" and "\<forall>k. mem e k" and "gate_legal e m (gate_view st ss)" and "bufs (st_heap st) b = None"
  shows "\<exists>r st'. gate_call e b m st = Inr (r, st') \<and> refines e m st ss st'"
proof -
  have close: "\<exists>st'. gate_call e b m st = Inr (0, st') \<and> refines e m st ss st'" if "m = Closed fd \<or> m = Failed fd" for fd
    using that assms(3) close_refines [OF assms(1), of "event SOCKET_CLOSE fd 0 []" e]
      close_refines [OF assms(1), of "event SOCKET_ERROR fd 0 []" e]
    by (auto simp: cb_type dispatch_event failed_closed)
  note [simp del] = gate_call.simps
  show ?thesis
  proof (cases m)
    case (Data fd d)
    then show ?thesis using data_refines [OF assms(1,2) _ assms(4)] assms(3) by blast
  next
    case (Accepted fd name)
    then show ?thesis using accept_refines [OF assms(1)] assms(3) by blast
  next
    case (Connected fd)
    then show ?thesis using connected_refines(1) [OF assms(1)] by blast
  next
    case (Closed fd)
    then show ?thesis using close by blast
  next
    case (Failed fd)
    then show ?thesis using close by blast
  next
    case (Warned fd n)
    then show ?thesis using connected_refines(2) [OF assms(1)] by blast
  next
    case (Kick fd)
    then show ?thesis using kick_refines(1) [OF assms(1), of fd e b] assms(3) by auto
  next
    case (Start fd)
    then show ?thesis using kick_refines(2) [OF assms(1), of fd e b] assms(3) by auto
  next
    case (Forward fd ag cl)
    then show ?thesis using forward_refines [OF assms(1), of fd e b ag cl] assms(3) by auto
  next
    case (Broker name)
    then show ?thesis using broker_refines [OF assms(1)] assms(3) by blast
  next
    case (Connect source ip port)
    then show ?thesis using connect_refines [OF assms(1)] assms(3) by blast
  next
    case Stop
    then show ?thesis using stop_refines [OF assms(1)] by blast
  next
    case Listen
    then show ?thesis using listen_refines [OF assms(1)] by blast
  next
    case (To_client fd payload)
    then show ?thesis using client_refines [OF assms(1), of fd e b payload] assms(3) by auto
  qed
qed

section \<open>Runs\<close>

definition gate_is :: "env \<Rightarrow> gst \<Rightarrow> agate \<Rightarrow> bool" where
  \<comment> \<open>the gate, with memory to allocate, stands for the abstract state\<close>
  "gate_is e st a \<longleftrightarrow> (\<forall>k. mem e k) \<and> (\<exists>ss. ready st ss \<and> gate_view st ss = a)"

definition gate_message :: "env \<Rightarrow> gmsg \<Rightarrow> gst \<Rightarrow> gst \<Rightarrow> bool" where
  \<comment> \<open>one call of the callback; received data comes in a block that is not in use\<close>
  "gate_message e m st st' \<longleftrightarrow> (\<exists>b r. bufs (st_heap st) b = None \<and> gate_call e b m st = Inr (r, st'))"

lemma blocks_queued:
  assumes "gate_holds {} st ss"
  obtains qss where "\<And>b d. bufs (st_heap st) b = Some d \<Longrightarrow> \<exists>i < length (g_conn (st_gate st)). b \<in> set (map q_buf (qss ! i))"
    and "\<And>i. i < length (g_conn (st_gate st)) \<Longrightarrow> mq (st_heap st) (db_head (c_buffer (g_conn (st_gate st) ! i))) (qss ! i)"
proof -
  obtain bss qss fs where rep: "buffers_rep {} qss fs (map c_buffer (g_conn (st_gate st))) (g_mp (st_gate st)) (st_heap st) bss"
    using assms by (auto simp: gate_holds_def buffers_hold_def)
  have len: "length qss = length (g_conn (st_gate st))" using rep by (simp add: buffers_rep_def)
  show thesis
  proof (rule that [of qss])
    fix b d assume "bufs (st_heap st) b = Some d"
    then obtain qs where "qs \<in> set qss" "b \<in> set (map q_buf qs)"
      using rep unfolding buffers_rep_def by blast
    then show "\<exists>i < length (g_conn (st_gate st)). b \<in> set (map q_buf (qss ! i))"
      using len by (metis in_set_conv_nth)
  next
    fix i assume "i < length (g_conn (st_gate st))"
    then show "mq (st_heap st) (db_head (c_buffer (g_conn (st_gate st) ! i))) (qss ! i)"
      using rep by (auto simp: buffers_rep_def db_rep_def)
  qed
qed

lemma fresh_block:
  assumes "gate_holds {} st ss"
  shows "\<exists>b. bufs (st_heap st) b = None"
proof -
  obtain qss where q: "\<And>b d. bufs (st_heap st) b = Some d \<Longrightarrow> \<exists>i < length (g_conn (st_gate st)). b \<in> set (map q_buf (qss ! i))"
    using blocks_queued [OF assms] by metis
  then have "dom (bufs (st_heap st)) \<subseteq> (\<Union>i < length (g_conn (st_gate st)). set (map q_buf (qss ! i)))"
    by (fastforce simp del: set_map)
  then have "finite (dom (bufs (st_heap st)))" by (rule finite_subset) simp
  then obtain b where "b \<notin> dom (bufs (st_heap st))" using ex_new_if_finite [OF infinite_UNIV_nat] by blast
  then show ?thesis by auto
qed

interpretation gr: refinement "gate_is e" "gate_message e" seen "gate_legal e" "gate_spec e" for e
proof (unfold_locales, goal_cases)
  case (1 s a m s')
  then obtain ss b r where s: "\<forall>k. mem e k" "ready s ss" "gate_view s ss = a" "bufs (st_heap s) b = None"
      "gate_call e b m s = Inr (r, s')"
    by (auto simp: gate_is_def gate_message_def)
  then have "refines e m s ss s'" using call_refines [OF s(2,1) _ s(4), of m] 1(2) by auto
  then show ?case using s by (auto simp: refines_def gate_is_def)
next
  case (2 s a m)
  then obtain ss where s: "\<forall>k. mem e k" "ready s ss" "gate_view s ss = a" by (auto simp: gate_is_def)
  then obtain b where b: "bufs (st_heap s) b = None" using fresh_block [of s ss] by (auto simp: ready_def)
  then show ?case using call_refines [OF s(2,1) _ b, of m] 2(2) s(3) by (auto simp: gate_message_def)
qed

lemma gate_init_is:
  assumes env: "\<forall>k. mem e k" "getenv e (str ''max_online'') = Some mo" "0 \<le> atoi mo" "atoi mo \<le> 2 ^ 30"
    and w: "w \<noteq> []" "\<And>b. b \<in> set w \<Longrightarrow> \<not> isspace b" "length w + length (udec wd) \<le> 198" "wd \<noteq> 0"
  shows "\<exists>r st a. gate_init e (Some (w @ [32] @ udec wd)) start_st = Inr (r, st) \<and> gate_is e st a \<and>
    a_conns a = Map.empty \<and> a_cap a = nat (atoi mo) \<and> a_watchdog a = wd \<and> a_tag a = PTYPE_CLIENT \<and> a_opened a = 0 \<and>
    (a_listen a = -1 \<or> (\<exists>host port. a_listen a = sock_listen e host port BACKLOG))"
proof -
  obtain r st where s: "gate_init e (Some (w @ [32] @ udec wd)) start_st = Inr (r, st)"
      "gate_holds {} st (replicate (nat (atoi mo)) [])" "watchdog (st_gate st) = wd"
      "slot_of (g_hash (st_gate st)) = Map.empty" "client_tag (st_gate st) = PTYPE_CLIENT" "listens e st" "st_opened st = 0"
    using gate_init_ok [of e mo w wd] env w by auto
  then show ?thesis
    using w(4) env(1) gate_holds_table(4) [OF s(2)]
    by (intro exI [of _ r] exI [of _ st] exI [of _ "gate_view st (replicate (nat (atoi mo)) [])"])
      (auto simp: gate_is_def ready_def fun_eq_iff)
qed

end
