(* ===== verification/Gate_Service.thy ===== *)
theory Gate_Service
  imports Gate_Spec
begin

text \<open>
  The gate from start to release, as a consequence of its specification.  \<open>gate_init\<close> leaves a gate without
  connections; whatever messages follow, in any interleaving of the connections, the gate shows what
  \<open>gate_spec\<close> says (\<open>gate_refines\<close>), forwards the packets of each connection (\<open>gate_delivers\<close>, \<open>gate_framing\<close>), does not
  fault (\<open>gate_no_fault\<close>), keeps no block
  of received data once the connections are closed (\<open>gate_reclaims\<close>), and closes on release exactly the sockets
  that were accepted and are still open (\<open>gate_shutdown\<close>).
\<close>

section \<open>Delivery\<close>

definition wire :: "byte list list \<Rightarrow> byte list" where
  \<comment> \<open>what a client writes: every packet with its length in front\<close>
  "wire ps = concat (map (\<lambda>p. be_bytes (int (length p)) @ p) ps)"

fun is_data :: "int \<Rightarrow> gmsg \<Rightarrow> bool" where
  "is_data fd (Data fd' d) \<longleftrightarrow> fd' = fd"
| "is_data fd m \<longleftrightarrow> False"

fun data_of :: "int \<Rightarrow> gmsg list \<Rightarrow> byte list" where
  \<comment> \<open>the bytes a socket receives in the course of the messages\<close>
  "data_of fd [] = []"
| "data_of fd (Data fd' d # ms) = (if fd' = fd then d else []) @ data_of fd ms"
| "data_of fd (m # ms) = data_of fd ms"

fun quiet :: "int \<Rightarrow> gmsg \<Rightarrow> bool" where
  \<comment> \<open>the message neither closes the connection nor changes where its packets go\<close>
  "quiet fd (Closed x) \<longleftrightarrow> x \<noteq> fd"
| "quiet fd (Failed x) \<longleftrightarrow> x \<noteq> fd"
| "quiet fd (Forward x ag cl) \<longleftrightarrow> x \<noteq> fd"
| "quiet fd (Broker name) \<longleftrightarrow> False"
| "quiet fd m \<longleftrightarrow> True"

definition sent_for :: "int \<Rightarrow> (gmsg \<times> effect list) list \<Rightarrow> effect list" where
  \<comment> \<open>what the gate did on the data of one socket\<close>
  "sent_for fd tr = concat (map snd (filter (\<lambda>x. is_data fd (fst x)) tr))"

lemma frames_wire:
  assumes "\<And>p. p \<in> set ps \<Longrightarrow> p \<noteq> [] \<and> length p < 2 ^ 24"
  shows "frames (wire ps) = (ps, [])"
  using assms
proof (induction ps)
  case Nil
  show ?case by (simp add: wire_def frames_short)
next
  case (Cons p ps)
  let ?v = "int (length p)"
  have p: "p \<noteq> []" "length p < 2 ^ 24" using Cons.prems by auto
  then have v: "be_value (be_bytes ?v) = ?v" "length (be_bytes ?v) = 4" using be_bytes_value [of ?v] by simp_all
  have w: "wire (p # ps) = be_bytes ?v @ p @ wire ps" by (simp add: wire_def)
  then have "?v = as_int (be_value (take 4 (wire (p # ps))))" using v p(2) by (simp add: as_int_def)
  from frames_step(3) [OF _ this] show ?case
    using Cons.IH [OF Cons.prems] p v(2) by (simp add: w)
qed

lemma frames_prefix_small:
  assumes "frames (xs @ ys) = (ps, [])"
  shows "\<not> too_big (snd (frames xs))"
proof
  let ?r = "snd (frames xs)"
  assume big: "too_big ?r"
  let ?v = "as_int (be_value (take 4 (?r @ ys)))"
  have "4 \<le> length ?r" "0x1000000 \<le> ?v" using big by (auto simp: too_big_def Let_def)
  then have "frames (?r @ ys) = ([], ?r @ ys)" using frames_step(1) [of "?r @ ys" ?v] by simp
  then have "?r @ ys = []" using frames_append [of xs ys] assms by simp
  then show False using \<open>4 \<le> length ?r\<close> by simp
qed

lemma quiet_step:
  assumes "quiet fd m" and "\<not> is_data fd m" and "gate_legal e m a" and "a_conns a fd = Some k"
  shows "a_conns (snd (gate_spec e m a)) fd = Some k \<and> a_broker (snd (gate_spec e m a)) = a_broker a \<and>
    a_watchdog (snd (gate_spec e m a)) = a_watchdog a \<and> a_tag (snd (gate_spec e m a)) = a_tag a"
  using assms by (cases m) (auto simp: Let_def split: option.splits)

lemma route_cong:
  "a_broker a' = a_broker a \<Longrightarrow> a_watchdog a' = a_watchdog a \<Longrightarrow> a_tag a' = a_tag a \<Longrightarrow> route e a' k = route e a k"
  "route e a (k\<lparr>ac_stream := s\<rparr>) = route e a k"
  by (simp_all add: route_def fun_eq_iff Let_def)

lemma data_of_other: "\<not> is_data fd m \<Longrightarrow> data_of fd (m # ms) = data_of fd ms"
  by (cases m) auto

lemma spec_delivers:
  assumes "a_conns a fd = Some k" and "legal_run (gate_legal e) (gate_spec e) ms a" and "\<forall>m \<in> set ms. quiet fd m"
    and "frames (ac_stream k @ data_of fd ms) = (ps, [])" and "frames (ac_stream k) = ([], ac_stream k)"
  shows "sent_for fd (fst (run_spec (gate_spec e) ms a)) = map (route e a k) ps \<and>
    a_conns (snd (run_spec (gate_spec e) ms a)) fd = Some (k\<lparr>ac_stream := []\<rparr>)"
  using assms
proof (induction ms arbitrary: a k ps)
  case Nil
  then have "ps = []" "ac_stream k = []" by simp_all
  then show ?case using Nil.prems(1) by (cases k) (simp add: sent_for_def)
next
  case (Cons m ms)
  let ?a = "snd (gate_spec e m a)"
  have legal: "gate_legal e m a" "legal_run (gate_legal e) (gate_spec e) ms ?a" using Cons.prems(2) by simp_all
  show ?case
  proof (cases "is_data fd m")
    case True
    then obtain d where m: "m = Data fd d" by (cases m) auto
    let ?f = "frames (ac_stream k @ d)" and ?k = "k\<lparr>ac_stream := snd (frames (ac_stream k @ d))\<rparr>"
    have all: "frames ((ac_stream k @ d) @ data_of fd ms) = (ps, [])" using Cons.prems(4) m by simp
    then have small: "\<not> too_big (snd ?f)" by (rule frames_prefix_small)
    obtain qs where qs: "frames (snd ?f @ data_of fd ms) = (qs, [])" "ps = fst ?f @ qs"
      using all frames_append [of "ac_stream k @ d" "data_of fd ms"] by (cases "frames (snd ?f @ data_of fd ms)") auto
    have "frames (snd ?f) = ([], snd ?f)" by (rule frames_rest [of "ac_stream k @ d" "fst ?f"]) simp
    moreover have spec: "gate_spec e m a = (map (route e a k) (fst ?f), a\<lparr>a_conns := (a_conns a)(fd \<mapsto> ?k)\<rparr>)"
      using Cons.prems(1) small m by (simp add: Let_def rest_of_def)
    moreover have "route e (a\<lparr>a_conns := cs\<rparr>) ?k = route e a k" for cs
      using route_cong(1) [of "a\<lparr>a_conns := cs\<rparr>" a e ?k] route_cong(2) by simp
    moreover from spec have a: "a_conns ?a fd = Some ?k" by simp
    ultimately have "sent_for fd (fst (run_spec (gate_spec e) ms ?a)) = map (route e a k) qs \<and>
        a_conns (snd (run_spec (gate_spec e) ms ?a)) fd = Some (k\<lparr>ac_stream := []\<rparr>)"
      using Cons.IH [OF a legal(2), of qs] Cons.prems(3) qs(1) by simp
    then show ?thesis using spec qs(2) m by (simp add: sent_for_def del: gate_spec.simps)
  next
    case False
    note q = quiet_step [OF _ False legal(1) Cons.prems(1)]
    then have "sent_for fd (fst (run_spec (gate_spec e) ms ?a)) = map (route e ?a k) ps \<and>
        a_conns (snd (run_spec (gate_spec e) ms ?a)) fd = Some (k\<lparr>ac_stream := []\<rparr>)"
      using Cons.IH [of ?a k ps] Cons.prems legal(2) data_of_other [OF False, of ms] by simp
    moreover have "route e ?a k = route e a k" using q Cons.prems(3) by (intro route_cong) simp_all
    ultimately show ?thesis using False by (simp add: sent_for_def)
  qed
qed

section \<open>Release\<close>

definition ids_ok :: "agate \<Rightarrow> bool" where
  \<comment> \<open>a connection prints its own id, or -1 when it was opened by \<^verbatim>\<open>connect\<close>\<close>
  "ids_ok a \<longleftrightarrow> (\<forall>fd k. a_conns a fd = Some k \<longrightarrow> 0 \<le> fd \<and> fd \<le> INT_MAX \<and> (ac_id k = fd \<or> ac_id k = -1))"

lemma ids_ok_step: "ids_ok a \<Longrightarrow> gate_legal e m a \<Longrightarrow> ids_ok (snd (gate_spec e m a))"
  by (cases m) (auto simp: ids_ok_def Let_def split: option.splits if_splits)

lemma distinct_map_filter:
  assumes "\<And>i j. i < length xs \<Longrightarrow> j < length xs \<Longrightarrow> P (xs ! i) \<Longrightarrow> P (xs ! j) \<Longrightarrow> f (xs ! i) = f (xs ! j) \<Longrightarrow> i = j"
  shows "distinct (map f (filter P xs))"
proof -
  have "map f (filter P xs) = map (\<lambda>i. f (xs ! i)) (filter (\<lambda>i. P (xs ! i)) [0..<length xs])"
    using filter_map [of P "(!) xs" "[0..<length xs]"] by (simp add: map_nth o_def)
  then show ?thesis using assms by (simp add: distinct_map inj_on_def)
qed

lemma conn_ids:
  assumes inv: "gate_holds RB st ss" and ids: "ids_ok (gate_view st ss)" and i: "i < length (g_conn (st_gate st))"
    and id: "0 \<le> c_id (g_conn (st_gate st) ! i)"
  shows "slot_of (g_hash (st_gate st)) (c_id (g_conn (st_gate st) ! i)) = Some i"
proof -
  have "i \<in> ran (slot_of (g_hash (st_gate st)))"
    using inv i id by (auto simp: gate_holds_def table_ok_def zero_conn_def)
  then obtain fd where "slot_of (g_hash (st_gate st)) fd = Some i" by (auto simp: ran_def)
  moreover from this have "c_id (g_conn (st_gate st) ! i) = fd" using ids id by (fastforce simp: ids_ok_def)
  ultimately show ?thesis by simp
qed

lemma open_ids:
  assumes inv: "gate_holds RB st ss" and ids: "ids_ok (gate_view st ss)"
  shows "distinct (map c_id (filter (\<lambda>c. 0 \<le> c_id c) (g_conn (st_gate st))))"
    and "set (map c_id (filter (\<lambda>c. 0 \<le> c_id c) (g_conn (st_gate st)))) =
      {fd. \<exists>k. a_conns (gate_view st ss) fd = Some k \<and> ac_id k = fd}"
proof -
  note own = conn_ids [OF inv ids]
  show "distinct (map c_id (filter (\<lambda>c. 0 \<le> c_id c) (g_conn (st_gate st))))"
    using own by (intro distinct_map_filter) (metis option.inject)
  have "fd \<in> set (map c_id (filter (\<lambda>c. 0 \<le> c_id c) (g_conn (st_gate st)))) \<longleftrightarrow>
      (\<exists>i. slot_of (g_hash (st_gate st)) fd = Some i \<and> c_id (g_conn (st_gate st) ! i) = fd)" (is "?l \<longleftrightarrow> ?r") for fd
  proof
    assume ?l
    then obtain i where "i < length (g_conn (st_gate st))" "0 \<le> c_id (g_conn (st_gate st) ! i)" "c_id (g_conn (st_gate st) ! i) = fd"
      by (auto simp: in_set_conv_nth)
    then show ?r using own by blast
  next
    assume ?r
    then obtain i where i: "slot_of (g_hash (st_gate st)) fd = Some i" "c_id (g_conn (st_gate st) ! i) = fd" by blast
    then have "0 \<le> fd" using ids by (auto simp: ids_ok_def)
    then show ?l using i slot_in_range [OF inv i(1)] by force
  qed
  moreover have "(\<exists>k. a_conns (gate_view st ss) fd = Some k \<and> ac_id k = fd) \<longleftrightarrow>
      (\<exists>i. slot_of (g_hash (st_gate st)) fd = Some i \<and> c_id (g_conn (st_gate st) ! i) = fd)" for fd
    by auto
  ultimately show "set (map c_id (filter (\<lambda>c. 0 \<le> c_id c) (g_conn (st_gate st)))) =
      {fd. \<exists>k. a_conns (gate_view st ss) fd = Some k \<and> ac_id k = fd}"
    by (intro set_eqI) (simp only: mem_Collect_eq)
qed

lemma no_connection_no_block:
  assumes inv: "gate_holds {} st ss" and "a_conns (gate_view st ss) = Map.empty"
  shows "bufs (st_heap st) = Map.empty"
proof (rule ext, rule ccontr)
  fix b assume "bufs (st_heap st) b \<noteq> None"
  then obtain d where d: "bufs (st_heap st) b = Some d" by blast
  obtain qss where q: "\<And>b d. bufs (st_heap st) b = Some d \<Longrightarrow> \<exists>i < length (g_conn (st_gate st)). b \<in> set (map q_buf (qss ! i))"
    "\<And>i. i < length (g_conn (st_gate st)) \<Longrightarrow> mq (st_heap st) (db_head (c_buffer (g_conn (st_gate st) ! i))) (qss ! i)"
    using blocks_queued [OF inv] by metis
  obtain i where i: "i < length (g_conn (st_gate st))" "b \<in> set (map q_buf (qss ! i))" using q(1) [OF d] by blast
  have "slot_of (g_hash (st_gate st)) fd = None" for fd
    using assms(2) gate_view_sel(1) [of st ss fd] by (metis option.map_disc_iff)
  then have "i \<notin> ran (slot_of (g_hash (st_gate st)))" by (simp add: ran_def)
  then have "g_conn (st_gate st) ! i = free_conn" using inv i(1) by (simp add: gate_holds_def table_ok_def)
  then have "qss ! i = []" using q(2) [OF i(1)] by (cases "qss ! i") (auto simp: zero_conn_def databuffer_zero_def)
  then show False using i(2) by simp
qed

abbreviation gate_runs :: "env \<Rightarrow> gst \<Rightarrow> (gmsg \<times> effect list) list \<Rightarrow> gst \<Rightarrow> bool" where
  "gate_runs e \<equiv> runs (gate_message e) seen"

abbreviation legal_msgs :: "env \<Rightarrow> gmsg list \<Rightarrow> agate \<Rightarrow> bool" where
  "legal_msgs e \<equiv> legal_run (gate_legal e) (gate_spec e)"

section \<open>The data of one connection\<close>

lemma data_answered:
  \<comment> \<open>the next block is handled whatever has arrived before\<close>
  assumes r: "ready st ss" "\<forall>k. mem e k" "slot_of (g_hash (st_gate st)) fd = Some c" "frames (ss ! c) = ([], ss ! c)"
    and small: "\<And>n. \<not> too_big (snd (frames (ss ! c @ concat (take n (ds @ d # ds')))))"
    and bound: "int (length (ss ! c) + length (concat (ds @ d # ds'))) \<le> INT_MAX"
    and run: "received e fd st ds st1" and b: "bufs (st_heap st1) b = None"
  shows "\<exists>st2. cb e PTYPE_SOCKET 0 [] (data_message fd b d) (with_block b d st1) = Inr (0, st2) \<and>
    received e fd st (ds @ [d]) st2"
proof -
  let ?s = "snd (frames (ss ! c @ concat ds))"
  have c: "c < length ss" using slot_in_range [of "{}" st ss fd c] gate_holds_table(4) [of "{}" st ss] r(1,3) by (simp add: ready_def)
  have "\<not> too_big (snd (frames (ss ! c @ concat (take n ds))))" for n
    using small [of "min n (length ds)"] by (simp add: min_def split: if_splits)
  from received_frames [OF run r(1-3) c this r(4)]
  have s1: "ready st1 (ss[c := ?s])" "slot_of (g_hash (st_gate st1)) fd = Some c" using r(3) by simp_all
  have "gate_holds {} st1 (ss[c := ?s])" using s1(1) by (simp add: ready_def)
  from stream_bound [OF this slot_in_range [OF this s1(2)]]
  have "db_size (c_buffer (g_conn (st_gate st1) ! c)) \<le> int (length (ss ! c @ concat ds))"
    using c frames_shorter [of "ss ! c @ concat ds"] by simp
  then have ok: "data_ok st1 fd b d" using s1(2) b bound by (simp add: data_ok_def)
  from data_step [OF s1(1) r(2) this] received_snoc [OF run ok] show ?thesis by blast
qed

lemma data_received:
  assumes "ready st ss" "\<forall>k. mem e k" "slot_of (g_hash (st_gate st)) fd = Some c" "frames (ss ! c) = ([], ss ! c)"
    and small: "\<And>n. \<not> too_big (snd (frames (ss ! c @ concat (take n ds))))"
    and bound: "int (length (ss ! c) + length (concat ds)) \<le> INT_MAX"
  shows "\<exists>st'. received e fd st ds st'"
  using small bound
proof (induction ds rule: rev_induct)
  case (snoc d ds)
  have small': "\<not> too_big (snd (frames (ss ! c @ concat (take n ds))))" for n
    using snoc.prems(1) [of "min n (length ds)"] by (simp add: min_def split: if_splits)
  have "int (length (ss ! c) + length (concat ds)) \<le> INT_MAX" using snoc.prems(2) by simp
  then obtain st1 where run: "received e fd st ds st1" using snoc.IH small' by blast
  have c: "c < length ss"
    using slot_in_range [of "{}" st ss fd c] gate_holds_table(4) [of "{}" st ss] assms(1,3) by (simp add: ready_def)
  have "ready st1 (ss[c := snd (frames (ss ! c @ concat ds))])"
    using received_frames [OF run assms(1-3) c small' assms(4)] by blast
  then obtain b where "bufs (st_heap st1) b = None" using fresh_block by (auto simp: ready_def)
  from data_answered [OF assms(1-4), of ds d "[]", OF _ _ run this] show ?case using snoc.prems by blast
qed auto

section \<open>Legal messages as steps\<close>

definition answers_ok :: "env \<Rightarrow> agate \<Rightarrow> bool" where
  \<comment> \<open>the framework's ids are of type \<^verbatim>\<open>int\<close>, and the one of the next socket it opens is new\<close>
  "answers_ok e a \<longleftrightarrow> in_int (a_listen a) \<and> (\<forall>ip port. new_id (sock_connect e (a_opened a) ip port) a)"

lemma answers_connect_ok:
  assumes "ready st ss" and "answers_ok e (gate_view st ss)"
  shows "connect_ok e st"
  using assms insertable_iff [of "{}" st ss] by (auto simp: answers_ok_def connect_ok_def ready_def)

lemma message_step:
  assumes "gate_is e st a" and "gate_legal e m a" and "answers_ok e a" and "gate_message e m st st'"
  shows "gate_step e st st'"
proof -
  obtain ss where ss: "ready st ss" "gate_view st ss = a" using assms(1) by (auto simp: gate_is_def)
  have inv: "gate_holds {} st ss" using ss(1) by (simp add: ready_def)
  obtain b r where b: "bufs (st_heap st) b = None" "gate_call e b m st = Inr (r, st')"
    using assms(4) by (auto simp: gate_message_def)
  have con: "connect_ok e st" using answers_connect_ok [OF ss(1)] ss(2) assms(3) by simp
  have legal: "gate_legal e m (gate_view st ss)" and lis: "in_int (listen_id (st_gate st))"
    using assms(2,3) ss(2) by (auto simp: answers_ok_def)
  have sock: "gate_step e st st'" if "cb e PTYPE_SOCKET 0 [] (event t i u name) st = Inr (r, st')" "in_int i"
    "t = SOCKET_ACCEPT \<Longrightarrow> i = listen_id (st_gate st) \<and> new_id u (gate_view st ss)" "t \<noteq> SOCKET_DATA" for t i u name
    using that insertable_iff [OF inv, of u]
    by (intro recv_socket [OF _ that(1)]) (auto simp: socket_ok_def event_def)
  have com: "gate_step e st st'" if "cb e PTYPE_TEXT source msg x st = Inr (r, st')" for source msg x
    by (rule recv_text [OF con that])
  have kinds: "SOCKET_ACCEPT \<noteq> SOCKET_DATA"
    "\<forall>t \<in> {SOCKET_CONNECT, SOCKET_CLOSE, SOCKET_ERROR, SOCKET_WARNING}. t \<noteq> SOCKET_DATA \<and> t \<noteq> SOCKET_ACCEPT"
    by (simp_all add: SOCKET_ACCEPT_def SOCKET_DATA_def SOCKET_CONNECT_def SOCKET_CLOSE_def SOCKET_ERROR_def SOCKET_WARNING_def)
  show ?thesis
  proof (cases m)
    case (Data fd d)
    have "db_size (c_buffer (g_conn (st_gate st) ! c)) + int (length d) \<le> INT_MAX" if "slot_of (g_hash (st_gate st)) fd = Some c" for c
      using stream_bound [OF inv slot_in_range [OF inv that]] legal that Data by simp
    then have "data_ok st fd b d" using b(1) by (simp add: data_ok_def split: option.splits)
    then show ?thesis using b(2) Data recv_data by (metis gate_call.simps(1))
  next
    case (To_client fd payload)
    then show ?thesis using b(2) recv_client by (metis gate_call.simps(14))
  qed (use b(2) legal lis kinds in \<open>auto dest: com sock\<close>)
qed

lemma run_steps:
  assumes "gate_runs e st tr st'" and "gate_is e st a"
    and "legal_run (\<lambda>m a. gate_legal e m a \<and> answers_ok e a) (gate_spec e) (map fst tr) a"
  shows "(gate_step e)\<^sup>*\<^sup>* st st'"
  using assms
proof (induction arbitrary: a rule: runs.induct)
  case (more m s s1 es tr s')
  then have "gate_step e s s1" "gate_is e s1 (snd (gate_spec e m a))"
    using message_step [of e s a m s1] gr.simulation [of e s a m s1] by simp_all
  then show ?case using more.IH more.prems(2) by (simp add: converse_rtranclp_into_rtranclp)
qed simp

section \<open>Properties\<close>

lemma run_delivers:
  assumes "gate_is e st a" and "a_conns a fd = Some k" and "ac_stream k = []" and "legal_msgs e ms a"
    and "\<forall>m \<in> set ms. quiet fd m" and "data_of fd ms = wire ps" and "\<And>p. p \<in> set ps \<Longrightarrow> p \<noteq> [] \<and> length p < 2 ^ 24"
  shows "(\<exists>tr st'. gate_runs e st tr st' \<and> map fst tr = ms) \<and>
    (\<forall>tr st'. gate_runs e st tr st' \<and> map fst tr = ms \<longrightarrow>
      sent_for fd tr = map (route e a k) ps \<and> (\<exists>a'. gate_is e st' a' \<and> a_conns a' fd = Some k))"
proof -
  have "k\<lparr>ac_stream := []\<rparr> = k" using assms(3) by (cases k) simp
  then have "sent_for fd (fst (run_spec (gate_spec e) ms a)) = map (route e a k) ps \<and>
      a_conns (snd (run_spec (gate_spec e) ms a)) fd = Some k"
    using spec_delivers [OF assms(2,4,5)] frames_wire [OF assms(7)] assms(3,6) by (simp add: frames_short)
  then show ?thesis using gr.run_all [OF assms(1,4)] by metis
qed

definition demo_a :: agate where
  \<comment> \<open>the gate of the examples: socket 5 is open\<close>
  "demo_a = \<lparr>a_conns = [5 \<mapsto> \<lparr>ac_id = 5, ac_agent = 0, ac_client = 0, ac_stream = []\<rparr>], a_broker = 0,
     a_watchdog = 1, a_tag = PTYPE_CLIENT, a_listen = -1, a_bind = [], a_cap = 1, a_opened = 0\<rparr>"

lemma demo_max_online: "atoi (str ''1'') = 1"
  by code_simp

lemma demo_settings:
  \<comment> \<open>what \<open>gate_init\<close> needs of the environment and its parameter\<close>
  shows "\<forall>k. mem demo_env k" and "getenv demo_env (str ''max_online'') = Some (str ''1'')"
    and "0 \<le> atoi (str ''1'')" and "atoi (str ''1'') \<le> 2 ^ 30"
    and "str ''!x'' \<noteq> []" and "\<forall>b \<in> set (str ''!x''). \<not> isspace b" and "length (str ''!x'') + length (udec 1) \<le> 198"
  using udec_length [of 1] demo_max_online by (auto simp: demo_env_def str_def isspace_def)

lemma demo_accepts:
  assumes "gate_is demo_env st a" and "a_conns a = Map.empty" and "a_cap a = nat (atoi (str ''1''))"
  obtains tr st' where "gate_runs demo_env st tr st'" and "map fst tr = [Accepted 5 []]"
    and "legal_msgs demo_env [Accepted 5 []] a"
proof -
  have legal: "legal_msgs demo_env [Accepted 5 []] a" using assms(2,3) by (simp add: demo_max_online INT_MAX_def)
  from gr.run_exists [OF assms(1) this] show thesis by (elim exE conjE) (rule that [OF _ _ legal])
qed

lemma demo_is: "\<exists>st. gate_is demo_env st demo_a"
proof -
  obtain hi where hi: "hashid_inv hi" "slot_of hi = Map.empty" "cap hi = 1"
    using hashid_init_table [of 1 "\<lambda>_. True"] by auto
  let ?a = "gate_view (demo_st hi) [[]]"
  have a: "?a = \<lparr>a_conns = Map.empty, a_broker = 0, a_watchdog = 1, a_tag = PTYPE_CLIENT, a_listen = -1, a_bind = [], a_cap = 1, a_opened = 0\<rparr>"
    using hi(2) by (simp add: gate_view_def demo_st_def init_gate_def created_def)
  have "gate_is demo_env (demo_st hi) ?a" using demo_ready [OF hi(1,3)] by (auto simp: gate_is_def)
  moreover have "gate_legal demo_env (Accepted 5 []) ?a" by (simp add: a INT_MAX_def)
  ultimately obtain st where "gate_is demo_env st (snd (gate_spec demo_env (Accepted 5 []) ?a))"
    using gr.progress gr.simulation by metis
  moreover have "snd (gate_spec demo_env (Accepted 5 []) ?a) = demo_a" by (simp add: a a_full_def demo_a_def)
  ultimately show ?thesis by auto
qed

lemma demo_frames:
  "frames [0, 0, 0, 2, 65] = ([], [0, 0, 0, 2, 65])" "frames [0, 0, 0, 2, 65, 66] = ([[65, 66]], [])"
  "\<not> too_big [0, 0, 0, 2, 65]" "\<not> too_big []"
  by (simp_all add: frames.simps be_value_def as_int_def too_big_def)

lemma demo_route:
  "route demo_env \<lparr>a_conns = cs, a_broker = 0, a_watchdog = 1, a_tag = PTYPE_CLIENT, a_listen = l, a_bind = s', a_cap = n, a_opened = k\<rparr>
    \<lparr>ac_id = 5, ac_agent = 0, ac_client = 0, ac_stream = s\<rparr> p = Send 0 1 65539 0 (dec 5 @ [32] @ p)"
  by (simp add: route_def demo_env_def PTYPE_CLIENT_def)

text \<open>C1. The gate implements its specification.  From every state of the gate and for all legal
  messages of any number of connections and services, the callback handles them all without a fault, and on
  each message it does exactly what \<open>gate_spec\<close> says: the same calls to the framework, apart from the log,
  and a state that stands for the specified one.\<close>

theorem gate_refines:
  assumes "gate_is e st a" and "legal_msgs e ms a"
  shows "(\<exists>tr st'. gate_runs e st tr st' \<and> map fst tr = ms) \<and>
    (\<forall>tr st'. gate_runs e st tr st' \<and> map fst tr = ms \<longrightarrow>
      tr = fst (run_spec (gate_spec e) ms a) \<and> gate_is e st' (snd (run_spec (gate_spec e) ms a)))"
  by (rule gr.run_all [OF assms])

theorem gate_refines_witness:
  "\<exists>st tr st'. gate_runs demo_env st tr st' \<and> tr = [(Data 5 [0, 0, 0, 2, 65], []), (Kick 5, [Socket_close 5]),
    (Data 5 [66], [Send 0 1 65539 0 (dec 5 @ [32] @ [65, 66])])]"
proof -
  let ?ms = "[Data 5 [0, 0, 0, 2, 65], Kick 5, Data 5 [66]]"
  obtain st where st: "gate_is demo_env st demo_a" using demo_is by blast
  have "legal_msgs demo_env ?ms demo_a"
    by (simp add: demo_a_def demo_frames rest_of_def Let_def INT_MAX_def in_intI)
  from gate_refines [OF st this] obtain tr st' where "gate_runs demo_env st tr st'"
      "tr = fst (run_spec (gate_spec demo_env) ?ms demo_a)" by metis
  moreover have "fst (run_spec (gate_spec demo_env) ?ms demo_a) = [(Data 5 [0, 0, 0, 2, 65], []), (Kick 5, [Socket_close 5]),
      (Data 5 [66], [Send 0 1 65539 0 (dec 5 @ [32] @ [65, 66])])]"
    using demo_route by (simp add: demo_a_def demo_frames rest_of_def Let_def)
  ultimately show ?thesis by blast
qed

text \<open>C2. Every packet is delivered.  Let a client write the packets \<open>ps\<close> to an open connection, cut
  anywhere and interleaved with any other messages that neither close the connection nor change its
  receiver.  Then the gate does reach the end of the messages, and on the data of this connection it has
  sent exactly these packets, in order and complete, to its receiver, with nothing left over.\<close>

theorem gate_delivers:
  assumes "gate_is e st a" and "a_conns a fd = Some k" and "ac_stream k = []" and "legal_msgs e ms a"
    and "\<forall>m \<in> set ms. quiet fd m" and "data_of fd ms = wire ps" and "\<And>p. p \<in> set ps \<Longrightarrow> p \<noteq> [] \<and> length p < 2 ^ 24"
  shows "(\<exists>tr st'. gate_runs e st tr st' \<and> map fst tr = ms) \<and>
    (\<forall>tr st'. gate_runs e st tr st' \<and> map fst tr = ms \<longrightarrow>
      sent_for fd tr = map (route e a k) ps \<and> (\<exists>a'. gate_is e st' a' \<and> a_conns a' fd = Some k))"
  by (rule run_delivers [OF assms])

theorem gate_delivers_witness:
  "\<exists>st tr st'. gate_runs demo_env st tr st' \<and> map fst tr = [Data 5 [0, 0, 0, 2, 65], Kick 5, Data 5 [66]] \<and>
    sent_for 5 tr = [Send 0 1 65539 0 (dec 5 @ [32] @ [65, 66])]"
proof -
  let ?ms = "[Data 5 [0, 0, 0, 2, 65], Kick 5, Data 5 [66]]"
  let ?k = "\<lparr>ac_id = 5, ac_agent = 0, ac_client = 0, ac_stream = []\<rparr>"
  obtain st where st: "gate_is demo_env st demo_a" using demo_is by blast
  have "legal_msgs demo_env ?ms demo_a"
    by (simp add: demo_a_def demo_frames rest_of_def Let_def INT_MAX_def in_intI)
  moreover have "data_of 5 ?ms = wire [[65, 66]]" by (simp add: wire_def be_bytes_def)
  ultimately obtain tr st' where "gate_runs demo_env st tr st'" "map fst tr = ?ms"
      "sent_for 5 tr = map (route demo_env demo_a ?k) [[65, 66]]"
    using gate_delivers [OF st, of 5 ?k ?ms "[[65, 66]]"] by (auto simp: demo_a_def)
  moreover have "route demo_env demo_a ?k [65, 66] = Send 0 1 65539 0 (dec 5 @ [32] @ [65, 66])"
    unfolding demo_a_def by (rule demo_route)
  ultimately have "gate_runs demo_env st tr st'" "map fst tr = ?ms" "sent_for 5 tr = [Send 0 1 65539 0 (dec 5 @ [32] @ [65, 66])]"
    by (simp_all only: list.map)
  then show ?thesis by (intro exI conjI)
qed

text \<open>C3. However the byte stream of a connection is cut into messages, the gate answers every one of them, forwards
  exactly the packets of the stream, in order, each to the broker, else to the agent of the connection, else to
  the watchdog, and keeps the incomplete rest.  This holds for blocks at any free addresses, as long as no packet
  of 16M or more is announced and the bytes that wait fit an \<^verbatim>\<open>int\<close>.\<close>

theorem gate_framing:
  assumes "ready st ss" and "\<forall>k. mem e k" and "slot_of (g_hash (st_gate st)) fd = Some c"
    and "frames (ss ! c) = ([], ss ! c)"
    and "\<And>n. \<not> too_big (snd (frames (ss ! c @ concat (take n ds))))"
    and "int (length (ss ! c) + length (concat ds)) \<le> INT_MAX"
  shows "(\<exists>st'. received e fd st ds st') \<and>
    (\<forall>st'. received e fd st ds st' \<longrightarrow>
      st_out st' = st_out st @ map (send_of e c st) (fst (frames (ss ! c @ concat ds))) \<and>
      ready st' (ss[c := snd (frames (ss ! c @ concat ds))])) \<and>
    (\<forall>ds1 d ds2 st1 b. ds = ds1 @ d # ds2 \<and> received e fd st ds1 st1 \<and> bufs (st_heap st1) b = None \<longrightarrow>
      (\<exists>st2. cb e PTYPE_SOCKET 0 [] (data_message fd b d) (with_block b d st1) = Inr (0, st2) \<and>
        received e fd st (ds1 @ [d]) st2))"
proof -
  have "c < length ss"
    using slot_in_range [of "{}" st ss fd c] gate_holds_table(4) [of "{}" st ss] assms(1,3) by (simp add: ready_def)
  from received_frames [OF _ assms(1-3) this assms(5,4)] data_received [OF assms] data_answered [OF assms(1-4)] assms(5,6)
  show ?thesis by (intro conjI allI impI) blast+
qed

theorem gate_framing_witness:
  "\<exists>hi st'. received demo_env 5 (demo_st hi) [[0, 0, 0, 2, 65], [66]] st' \<and>
    st_out st' = [send_of demo_env 0 (demo_st hi) [65, 66]] \<and> ready st' [[]]"
proof -
  let ?ds = "[[0, 0, 0, 2, 65], [66]] :: byte list list"
  obtain hi where hi: "hashid_inv hi" "cap hi = 1" "slot_of hi = [5 \<mapsto> 0]" using demo_table by blast
  have "frames [] = ([], [])" by (simp add: frames_short)
  moreover have "\<not> too_big (snd (frames ([[]] ! 0 @ concat (take n ?ds))))" for n
    using demo_frames by (cases n; cases "n - 1") (auto simp: frames_short)
  moreover have "slot_of (g_hash (st_gate (demo_st hi))) 5 = Some 0" using hi(3) by simp
  ultimately have "(\<exists>st'. received demo_env 5 (demo_st hi) ?ds st') \<and> (\<forall>st'. received demo_env 5 (demo_st hi) ?ds st' \<longrightarrow>
      st_out st' = st_out (demo_st hi) @ map (send_of demo_env 0 (demo_st hi)) (fst (frames ([[]] ! 0 @ concat ?ds))) \<and>
      ready st' ([[]][0 := snd (frames ([[]] ! 0 @ concat ?ds))]))"
    using gate_framing [OF demo_ready [OF hi(1,2)] demo_sel(4), of 5 0 ?ds] by (simp add: INT_MAX_def)
  then show ?thesis using demo_frames(2) by auto
qed

text \<open>C4. \<open>gate_init\<close> succeeds, and in every state the gate can reach from there, by data, socket, text and
  client messages in any order, no data message, no other legal socket message and no message for a client makes
  it fault: no invalid memory access, no failed assertion, no endless loop.  On the way the framework gives every
  new socket an id that is not in the table.\<close>

theorem gate_no_fault:
  assumes env: "\<forall>k. mem e k" "getenv e (str ''max_online'') = Some mo" "0 \<le> atoi mo" "atoi mo \<le> 2 ^ 30"
    and w: "w \<noteq> []" "\<forall>b \<in> set w. \<not> isspace b" "length w + length (udec wd) \<le> 198" "wd \<noteq> 0"
  shows "\<exists>r st0. gate_init e (Some (w @ [32] @ udec wd)) start_st = Inr (r, st0) \<and>
    (\<forall>st. (gate_step e)\<^sup>*\<^sup>* st0 st \<longrightarrow>
      (\<forall>fd b d. data_ok st fd b d \<longrightarrow> (\<exists>st'. cb e PTYPE_SOCKET 0 [] (data_message fd b d) (with_block b d st) = Inr (0, st'))) \<and>
      (\<forall>m. socket_ok st m \<longrightarrow> (\<exists>st'. cb e PTYPE_SOCKET 0 [] m st = Inr (0, st'))) \<and>
      (\<forall>source msg m. \<exists>r st'. cb e PTYPE_CLIENT source msg m st = Inr (r, st')))"
proof -
  obtain r st0 where i: "gate_init e (Some (w @ [32] @ udec wd)) start_st = Inr (r, st0)"
      "ready st0 (replicate (nat (atoi mo)) [])"
    using gate_init_ok [OF env w(1) _ w(3)] w(2,4) by (auto simp: ready_def)
  show ?thesis
  proof (intro exI conjI, rule i(1), intro allI impI)
    fix st assume "(gate_step e)\<^sup>*\<^sup>* st0 st"
    from gate_steps_ready [OF this i(2) env(1)] obtain ss where ss: "ready st ss" by blast
    have "\<exists>r st'. cb e PTYPE_CLIENT source msg m st = Inr (r, st')" for source msg m
      using on_client_ok [of "{}" st ss source msg] ss by (auto simp: cb_type ready_def)
    then show "(\<forall>fd b d. data_ok st fd b d \<longrightarrow> (\<exists>st'. cb e PTYPE_SOCKET 0 [] (data_message fd b d) (with_block b d st) = Inr (0, st'))) \<and>
        (\<forall>m. socket_ok st m \<longrightarrow> (\<exists>st'. cb e PTYPE_SOCKET 0 [] m st = Inr (0, st'))) \<and>
        (\<forall>source msg m. \<exists>r st'. cb e PTYPE_CLIENT source msg m st = Inr (r, st'))"
      using data_step [OF ss env(1)] socket_step [OF ss] by blast
  qed
qed

definition demo_env3 :: env where
  \<comment> \<open>room for three connections\<close>
  "demo_env3 = demo_env\<lparr>getenv := \<lambda>_. Some (str ''3'')\<rparr>"

lemma demo_three:
  \<comment> \<open>a socket is accepted and two are opened to the same address\<close>
  assumes "gate_is demo_env3 st a" and "a_conns a = Map.empty" and "a_cap a = 3" and "a_opened a = 0" and "in_int (a_listen a)"
  shows "\<exists>st'. (gate_step demo_env3)\<^sup>*\<^sup>* st st' \<and> dom (slot_of (g_hash (st_gate st'))) = {5, 9, 10}"
proof -
  let ?c = "Connect 2 (str ''h'') (str ''80'')"
  let ?ms = "[Accepted 5 [], ?c, ?c]"
  have con: "sock_connect demo_env3 n ip port = 9 + int n" for n ip port by (simp add: demo_env3_def demo_env_def)
  have words: "one_word 100 (str ''h'')" "one_word 50 (str ''80'')" by (simp_all add: str_def)
  have full: "\<not> a_full a" "\<not> a_full (snd (gate_spec demo_env3 (Accepted 5 []) a))"
    "\<not> a_full (snd (gate_spec demo_env3 ?c (snd (gate_spec demo_env3 (Accepted 5 []) a))))"
    using assms(2,3) con by (simp_all add: a_full_def)
  have legal: "legal_run (\<lambda>m a. gate_legal demo_env3 m a \<and> answers_ok demo_env3 a) (gate_spec demo_env3) ?ms a"
    using assms(2-5) words full con by (simp add: answers_ok_def INT_MAX_def)
  then have msgs: "legal_msgs demo_env3 ?ms a" by simp
  obtain tr st' where run: "gate_runs demo_env3 st tr st'" "map fst tr = ?ms" using gr.run_exists [OF assms(1) msgs] by (elim exE conjE)
  let ?a = "snd (run_spec (gate_spec demo_env3) ?ms a)"
  have "gate_is demo_env3 st' ?a" using gr.run_refines [OF run(1) assms(1)] run(2) msgs by simp
  then obtain ss where "gate_view st' ss = ?a" by (auto simp: gate_is_def)
  moreover have "dom (a_conns ?a) = {5, 9, 10}" using full con assms(2,4) by auto
  moreover have "dom (a_conns (gate_view st' ss)) = dom (slot_of (g_hash (st_gate st')))" by (auto simp: dom_def)
  ultimately have "dom (slot_of (g_hash (st_gate st'))) = {5, 9, 10}" by metis
  moreover have "(gate_step demo_env3)\<^sup>*\<^sup>* st st'" using run_steps [OF run(1) assms(1)] legal run(2) by metis
  ultimately show ?thesis by blast
qed

theorem gate_no_fault_witness:
  "\<exists>r st0 st. gate_init demo_env3 (Some (str ''!x'' @ [32] @ udec 1)) start_st = Inr (r, st0) \<and>
    (gate_step demo_env3)\<^sup>*\<^sup>* st0 st \<and> dom (slot_of (g_hash (st_gate st))) = {5, 9, 10} \<and>
    (\<exists>st'. cb demo_env3 PTYPE_SOCKET 0 [] (event SOCKET_CLOSE 9 0 []) st = Inr (0, st')) \<and>
    (\<exists>r st'. cb demo_env3 PTYPE_CLIENT 0 [1, 2, 3] (event 0 0 0 []) st = Inr (r, st'))"
proof -
  have three: "atoi (str ''3'') = 3" by code_simp
  have e: "\<forall>k. mem demo_env3 k" "getenv demo_env3 (str ''max_online'') = Some (str ''3'')"
    "0 \<le> atoi (str ''3'')" "atoi (str ''3'') \<le> 2 ^ 30"
    using three by (simp_all add: demo_env3_def demo_env_def)
  obtain r st0 where i: "gate_init demo_env3 (Some (str ''!x'' @ [32] @ udec 1)) start_st = Inr (r, st0)"
    and safe: "\<forall>st. (gate_step demo_env3)\<^sup>*\<^sup>* st0 st \<longrightarrow>
      (\<forall>fd b d. data_ok st fd b d \<longrightarrow> (\<exists>st'. cb demo_env3 PTYPE_SOCKET 0 [] (data_message fd b d) (with_block b d st) = Inr (0, st'))) \<and>
      (\<forall>m. socket_ok st m \<longrightarrow> (\<exists>st'. cb demo_env3 PTYPE_SOCKET 0 [] m st = Inr (0, st'))) \<and>
      (\<forall>source msg m. \<exists>r st'. cb demo_env3 PTYPE_CLIENT source msg m st = Inr (r, st'))"
    using gate_no_fault [OF e demo_settings(5-7) one_neq_zero] by (elim exE conjE)
  obtain a where a: "gate_is demo_env3 st0 a" "a_conns a = Map.empty" "a_cap a = 3" "a_opened a = 0" "in_int (a_listen a)"
    using gate_init_is [OF e demo_settings(5) _ demo_settings(7) one_neq_zero] demo_settings(6) i three
    by (auto simp: demo_env3_def demo_env_def in_intI)
  from demo_three [OF a] obtain st where st: "(gate_step demo_env3)\<^sup>*\<^sup>* st0 st" "dom (slot_of (g_hash (st_gate st))) = {5, 9, 10}"
    by blast
  have "socket_ok st (event SOCKET_CLOSE 9 0 [])"
    by (simp add: socket_ok_def event_def SOCKET_CLOSE_def SOCKET_DATA_def SOCKET_ACCEPT_def in_intI)
  then have "\<exists>st'. cb demo_env3 PTYPE_SOCKET 0 [] (event SOCKET_CLOSE 9 0 []) st = Inr (0, st')"
    "\<exists>r st'. cb demo_env3 PTYPE_CLIENT 0 [1, 2, 3] (event 0 0 0 []) st = Inr (r, st')"
    using safe st(1) by blast+
  with i st show ?thesis by blast
qed

text \<open>C5. Received data is freed.  After any legal messages, a gate without open connections holds no
  block of received data, whatever was still waiting when its connections were closed.\<close>

theorem gate_reclaims:
  assumes "gate_is e st a" and "legal_msgs e (map fst tr) a" and "gate_runs e st tr st'"
    and "a_conns (snd (run_spec (gate_spec e) (map fst tr) a)) = Map.empty"
  shows "bufs (st_heap st') = Map.empty"
  using gr.run_refines [OF assms(3,1,2)] assms(4) no_connection_no_block by (auto simp: gate_is_def ready_def)

theorem gate_reclaims_witness:
  "\<exists>st tr st'. gate_runs demo_env st tr st' \<and> map fst tr = [Data 5 [0, 0, 0, 2, 65], Closed 5] \<and>
    bufs (st_heap st') = Map.empty"
proof -
  let ?ms = "[Data 5 [0, 0, 0, 2, 65], Closed 5]"
  obtain st where st: "gate_is demo_env st demo_a" using demo_is by blast
  have legal: "legal_msgs demo_env ?ms demo_a"
    by (simp add: demo_a_def demo_frames rest_of_def Let_def INT_MAX_def in_intI)
  obtain tr st' where run: "gate_runs demo_env st tr st'" "map fst tr = ?ms" using gr.run_exists [OF st legal] by (elim exE conjE)
  have "a_conns (snd (run_spec (gate_spec demo_env) ?ms demo_a)) = Map.empty"
    by (simp add: demo_a_def demo_frames rest_of_def Let_def)
  then have "bufs (st_heap st') = Map.empty" using gate_reclaims [OF st _ run(1)] legal run(2) by simp
  with run show ?thesis by (intro exI conjI)
qed

text \<open>C6. From \<open>gate_init\<close> to \<open>gate_release\<close>: whatever legal messages the gate has handled in between, releasing it
  closes, once each, exactly the sockets that were accepted and are still open, and the listening
  socket, and frees every message node.  Sockets opened by \<^verbatim>\<open>connect\<close> are not closed.\<close>

theorem gate_shutdown:
  assumes env: "\<forall>k. mem e k" "getenv e (str ''max_online'') = Some mo" "0 \<le> atoi mo" "atoi mo \<le> 2 ^ 30"
    and w: "w \<noteq> []" "\<forall>b \<in> set w. \<not> isspace b" "length w + length (udec wd) \<le> 198" "wd \<noteq> 0"
  shows "\<exists>r st0 a. gate_init e (Some (w @ [32] @ udec wd)) start_st = Inr (r, st0) \<and> gate_is e st0 a \<and>
    a_conns a = Map.empty \<and> a_cap a = nat (atoi mo) \<and> (\<forall>tr st. legal_msgs e (map fst tr) a \<and> gate_runs e st0 tr st \<longrightarrow>
      (\<exists>h fds. gate_release st = Inr (h, st_out st @ map Socket_close fds @
          (if 0 \<le> listen_id (st_gate st) then [Socket_close (listen_id (st_gate st))] else [])) \<and>
        distinct fds \<and> msgs h = Map.empty \<and> pools h = Map.empty \<and>
        set fds = {fd. \<exists>k. a_conns (snd (run_spec (gate_spec e) (map fst tr) a)) fd = Some k \<and> ac_id k = fd}))"
proof -
  obtain r st0 a where s: "gate_init e (Some (w @ [32] @ udec wd)) start_st = Inr (r, st0)" "gate_is e st0 a"
      "a_conns a = Map.empty" "a_cap a = nat (atoi mo)"
    using gate_init_is [of e mo w wd] env w by auto
  have "\<exists>h fds. gate_release st = Inr (h, st_out st @ map Socket_close fds @
          (if 0 \<le> listen_id (st_gate st) then [Socket_close (listen_id (st_gate st))] else [])) \<and>
        distinct fds \<and> msgs h = Map.empty \<and> pools h = Map.empty \<and>
        set fds = {fd. \<exists>k. a_conns (snd (run_spec (gate_spec e) (map fst tr) a)) fd = Some k \<and> ac_id k = fd}"
    if run: "legal_msgs e (map fst tr) a" "gate_runs e st0 tr st" for tr st
  proof -
    let ?a = "snd (run_spec (gate_spec e) (map fst tr) a)"
    have "gate_is e st ?a" using gr.run_refines [OF run(2) s(2) run(1)] by simp
    then obtain ss where ss: "gate_holds {} st ss" "gate_view st ss = ?a" by (auto simp: gate_is_def ready_def)
    have "ids_ok a" using s(3) by (simp add: ids_ok_def)
    then have "ids_ok (gate_view st ss)"
      using run_spec_invariant [of ids_ok "gate_legal e" "gate_spec e", OF ids_ok_step _ run(1)] ss(2) by simp
    note ids = open_ids [OF ss(1) this, unfolded ss(2)]
    show ?thesis
      using gate_release_closes [OF ss(1)] ids
      by (intro exI [of _ "(st_heap st)\<lparr>pools := Map.empty, msgs := Map.empty\<rparr>"]
          exI [of _ "map c_id (filter (\<lambda>c. 0 \<le> c_id c) (g_conn (st_gate st)))"]) simp
  qed
  with s show ?thesis by blast
qed

theorem gate_shutdown_witness:
  "\<exists>r st0 tr st h es. gate_init demo_env (Some (str ''!x'' @ [32] @ udec 1)) start_st = Inr (r, st0) \<and>
    gate_runs demo_env st0 tr st \<and> map fst tr = [Accepted 5 []] \<and>
    gate_release st = Inr (h, st_out st @ [Socket_close 5] @ es)"
proof -
  obtain r st0 a where s: "gate_init demo_env (Some (str ''!x'' @ [32] @ udec 1)) start_st = Inr (r, st0)"
      "gate_is demo_env st0 a" "a_conns a = Map.empty" "a_cap a = nat (atoi (str ''1''))"
    and rel: "\<forall>tr st. legal_msgs demo_env (map fst tr) a \<and> gate_runs demo_env st0 tr st \<longrightarrow>
      (\<exists>h fds. gate_release st = Inr (h, st_out st @ map Socket_close fds @
          (if 0 \<le> listen_id (st_gate st) then [Socket_close (listen_id (st_gate st))] else [])) \<and>
        distinct fds \<and> msgs h = Map.empty \<and> pools h = Map.empty \<and>
        set fds = {fd. \<exists>k. a_conns (snd (run_spec (gate_spec demo_env) (map fst tr) a)) fd = Some k \<and> ac_id k = fd})"
    using gate_shutdown [OF demo_settings one_neq_zero] by (elim exE conjE)
  obtain tr st where run: "gate_runs demo_env st0 tr st" "map fst tr = [Accepted 5 []]"
    and legal: "legal_msgs demo_env [Accepted 5 []] a"
    by (rule demo_accepts [OF s(2-4)])
  have "{fd. \<exists>k. a_conns (snd (run_spec (gate_spec demo_env) [Accepted 5 []] a)) fd = Some k \<and> ac_id k = fd} = {5}"
    using s(3,4) demo_max_online by (auto simp: a_full_def split: if_splits)
  then obtain h fds where f: "gate_release st = Inr (h, st_out st @ map Socket_close fds @
        (if 0 \<le> listen_id (st_gate st) then [Socket_close (listen_id (st_gate st))] else []))" "distinct fds" "set fds = {5}"
    using rel [THEN spec, of tr, THEN spec, of st] legal run by auto
  have "length fds = 1" using distinct_card [OF f(2)] f(3) by simp
  then have "fds = [5]" using f(3) by (cases fds) auto
  then show ?thesis using s(1) run f(1) by (metis list.simps(8,9))
qed

end
