(* ===== verification/Gate_Types.thy ===== *)
theory Gate_Types
  imports Gate_Service
begin

text \<open>
  The types of the gate's fields.  The model keeps an \<^verbatim>\<open>int\<close> as an unbounded integer and a pointer as the
  index or the address of what it points to; \<open>gate_typed\<close> says that every field of a state holds a value
  its C type has: integers are in range, array lengths are those of the declarations, indices and pointers
  lead to something that exists.  \<open>gate_types\<close> shows that this is so in every state a run can reach.
\<close>

section \<open>Well-typed states\<close>

definition index_typed :: "'a list \<Rightarrow> ptr \<Rightarrow> bool" where
  \<comment> \<open>a pointer into an array\<close>
  "index_typed xs p \<longleftrightarrow> (case p of None \<Rightarrow> True | Some i \<Rightarrow> i < length xs)"

definition hashid_typed :: "hashid \<Rightarrow> bool" where
  "hashid_typed hi \<longleftrightarrow> in_int (hashmod hi) \<and> in_int (cap hi) \<and> in_int (count hi) \<and> length (ids hi) = nat (cap hi) \<and>
     (\<forall>n \<in> set (ids hi). in_int (hn_id n) \<and> index_typed (ids hi) (hn_next n)) \<and>
     (\<forall>p \<in> set (hash hi). index_typed (ids hi) p)"

definition buffer_typed :: "dheap \<Rightarrow> databuffer \<Rightarrow> bool" where
  \<comment> \<open>the messages of a buffer have their blocks, of the size they say\<close>
  "buffer_typed h db \<longleftrightarrow> in_int (db_header db) \<and> in_int (db_offset db) \<and> in_int (db_size db) \<and>
     (\<exists>qs. mq h (db_head db) qs \<and> db_tail db = last_ptr (map q_node qs) NULL)"

definition pool_typed :: "dheap \<Rightarrow> messagepool \<Rightarrow> bool" where
  \<comment> \<open>the pool is a list of allocated blocks, which hold all the nodes, and the free list is a list of allocated nodes\<close>
  "pool_typed h mp \<longleftrightarrow> (\<exists>ps. lseg (\<lambda>p. p) (pools h) (mp_pool mp) ps NULL \<and> set ps = dom (pools h) \<and>
       dom (msgs h) = (\<Union>b \<in> set ps. {b..<b + MESSAGEPOOL})) \<and>
     (\<exists>fs. lseg m_next (msgs h) (mp_freelist mp) fs NULL \<and> set fs \<subseteq> dom (msgs h))"

definition gate_typed :: "gst \<Rightarrow> bool" where
  "gate_typed st \<longleftrightarrow> (let g = st_gate st in
     in_int (listen_id g) \<and> in_int (client_tag g) \<and> in_int (header_size g) \<and> in_int (max_connection g) \<and>
     length (g_conn g) = nat (max_connection g) \<and> length (g_bind g) = 200 \<and> hashid_typed (g_hash g) \<and>
     pool_typed (st_heap st) (g_mp g) \<and>
     (\<forall>c \<in> set (g_conn g). in_int (c_id c) \<and> length (c_remote_name c) = 32 \<and> buffer_typed (st_heap st) (c_buffer c)))"

section \<open>Types of the parts\<close>

lemma as_int_typed: "in_int (as_int (be_value (take 4 s)))"
proof -
  have "0 \<le> be_value bs \<and> be_value bs < 256 ^ length bs" for bs
  proof (induction bs rule: rev_induct)
    case (snoc b bs)
    have "uint b < 256" "0 \<le> uint b" using uint_lt2p [of b] by simp_all
    moreover have "be_value (bs @ [b]) = be_value bs * 256 + uint b" by (simp add: be_value_def)
    ultimately show ?case using snoc by auto
  qed (simp add: be_value_def)
  from this [of "take 4 s"] have "0 \<le> be_value (take 4 s)" "be_value (take 4 s) < 256 ^ 4"
    using power_increasing [of "length (take 4 s)" 4 "256 :: int"] by simp_all
  then show ?thesis by (auto simp: as_int_def in_int_def INT_MIN_def INT_MAX_def)
qed

lemma pending_typed: "pending v bs s \<Longrightarrow> in_int v"
  using as_int_typed [of s] by (auto simp: pending_def in_intI split: if_splits)

lemma lseg_index:
  "lseg hn_next (arr_map ns) p as None \<Longrightarrow> index_typed ns p \<and> (\<forall>i \<in> set as. index_typed ns (hn_next (ns ! i)))"
proof (induction as arbitrary: p)
  case (Cons a as)
  then have a: "p = Some a" "a < length ns" "lseg hn_next (arr_map ns) (hn_next (ns ! a)) as None"
    by (auto simp: arr_map_Some_iff)
  from Cons.IH [OF a(3)] a(1,2) show ?case by (simp add: index_typed_def)
qed (simp add: index_typed_def)

lemma hashid_typed:
  assumes inv: "hashid_inv hi" and ids: "\<And>x i. slot_of hi x = Some i \<Longrightarrow> in_int x"
  shows "hashid_typed hi"
proof -
  note D = hashid_invD [OF inv] and S = hash_shape_cap [OF hashid_invD(1) [OF inv]]
  have chain: "\<exists>as. lseg hn_next (arr_map (ids hi)) (hash hi ! h) as None \<and>
      set as = {i \<in> used hi. bucket hi (hn_id (ids hi ! i)) = h}" if "h < length (hash hi)" for h
    using D(5) [OF that] by (simp add: chain_ok_def)
  have node: "in_int (hn_id (ids hi ! i)) \<and> index_typed (ids hi) (hn_next (ids hi ! i))" if i: "i < length (ids hi)" for i
  proof (cases "hn_id (ids hi ! i) = -1")
    case True
    then show ?thesis using D(3) [OF i] by (simp add: in_intI index_typed_def)
  next
    case False
    then have u: "i \<in> used hi" using i by (simp add: used_def)
    obtain as where "lseg hn_next (arr_map (ids hi)) (hash hi ! bucket hi (hn_id (ids hi ! i))) as None" "i \<in> set as"
      using chain [OF bucket_bound [OF D(1)]] u by blast
    then show ?thesis using lseg_index ids [of "hn_id (ids hi ! i)" i] u by (auto simp: slot_of_Some_iff [OF inv])
  qed
  have "index_typed (ids hi) (hash hi ! h)" if "h < length (hash hi)" for h
    using chain [OF that] lseg_index by blast
  moreover have "in_int (count hi)" using D(2) card_used [of hi] S by (auto simp: in_int_def INT_MIN_def)
  ultimately show ?thesis
    using node S by (auto simp: hashid_typed_def in_int_def INT_MIN_def in_set_conv_nth)
qed

lemma buffer_typed:
  assumes "db_rep R RB qs fs db mp h" and "buffer_ok qs db bs" and "pending (db_header db) bs s"
  shows "buffer_typed h db"
proof -
  have q: "mq h (db_head db) qs" "db_tail db = last_ptr (map q_node qs) NULL" using assms(1) by (simp_all add: db_rep_def)
  have "db_offset db \<le> INT_MAX"
    using assms(2) q(1) by (cases qs) (auto simp: buffer_ok_def off_ok_def INT_MAX_def)
  then have "in_int (db_offset db)" "in_int (db_size db)"
    using assms(2) by (auto simp: buffer_ok_def off_ok_def in_int_def INT_MIN_def)
  then show ?thesis using q pending_typed [OF assms(3)] by (auto simp: buffer_typed_def)
qed

lemma lseg_allocated: "lseg nx h p as q \<Longrightarrow> set as \<subseteq> dom h"
  by (induction as arbitrary: p) auto

lemma pool_typed:
  assumes "buffers_rep RB qss fs dbs mp h bss"
  shows "pool_typed h mp"
  using assms lseg_allocated [of m_next "msgs h" "mp_freelist mp" fs NULL]
  by (auto simp: buffers_rep_def pool_inv_def pool_typed_def)

lemma conn_typed:
  assumes inv: "gate_holds {} st ss" and ids: "ids_ok (gate_view st ss)" and i: "i < length (g_conn (st_gate st))"
  shows "in_int (c_id (g_conn (st_gate st) ! i))"
proof (cases "i \<in> ran (slot_of (g_hash (st_gate st)))")
  case True
  then obtain fd where "slot_of (g_hash (st_gate st)) fd = Some i" by (auto simp: ran_def)
  then have "0 \<le> fd" "fd \<le> INT_MAX" "c_id (g_conn (st_gate st) ! i) = fd \<or> c_id (g_conn (st_gate st) ! i) = -1"
    using ids by (fastforce simp: ids_ok_def)+
  then show ?thesis by (auto simp: in_int_def INT_MIN_def INT_MAX_def)
next
  case False
  then show ?thesis using inv i by (simp add: gate_holds_def table_ok_def in_intI)
qed

definition settings_ok :: "env \<Rightarrow> agate \<Rightarrow> bool" where
  "settings_ok e a \<longleftrightarrow> a_tag a = PTYPE_CLIENT \<and>
     (a_listen a = -1 \<or> (\<exists>host port. a_listen a = sock_listen e host port BACKLOG))"

lemma settings_ok_step: "settings_ok e a \<Longrightarrow> settings_ok e (snd (gate_spec e m a))"
  by (cases m) (auto simp: settings_ok_def a_listen_on_def Let_def split: option.splits)

lemma gate_typedI:
  assumes inv: "gate_holds {} st ss" and ids: "ids_ok (gate_view st ss)" and set: "settings_ok e (gate_view st ss)"
    and sock: "\<And>host port. in_int (sock_listen e host port BACKLOG)"
  shows "gate_typed st"
proof -
  let ?g = "st_gate st"
  have tab: "table_ok ?g" using inv by (simp add: gate_holds_def)
  then have hash: "hashid_inv (g_hash ?g)" by (simp add: table_ok_def)
  have fd: "in_int x" if "slot_of (g_hash ?g) x = Some i" for x i
    using ids that by (fastforce simp: ids_ok_def in_int_def INT_MIN_def)
  obtain bss qss fs where rep: "buffers_rep {} qss fs (map c_buffer (g_conn ?g)) (g_mp ?g) (st_heap st) bss" "streams st bss ss"
    using inv by (auto simp: gate_holds_def buffers_hold_def)
  have "buffer_typed (st_heap st) (c_buffer (g_conn ?g ! i))" if "i < length (g_conn ?g)" for i
    using rep that by (intro buffer_typed [of "nodes_of qss i" "{} \<union> blocks_of qss i" "qss ! i" fs _ "g_mp ?g" _ "bss ! i" "ss ! i"])
      (simp_all add: buffers_rep_def streams_def)
  then have "\<forall>c \<in> set (g_conn ?g). in_int (c_id c) \<and> length (c_remote_name c) = 32 \<and> buffer_typed (st_heap st) (c_buffer c)"
    using conn_typed [OF inv ids] tab by (auto simp: in_set_conv_nth table_ok_def)
  moreover have "in_int (listen_id ?g)" "in_int (client_tag ?g)"
    using set sock by (auto simp: settings_ok_def in_intI PTYPE_CLIENT_def)
  moreover have "hashid_typed (g_hash ?g)" by (rule hashid_typed [OF hash fd])
  moreover have "pool_typed (st_heap st) (g_mp ?g)" by (rule pool_typed [OF rep(1)])
  ultimately show ?thesis
    using tab by (auto simp: gate_typed_def Let_def table_ok_def in_intI hashid_typed_def)
qed

section \<open>Properties\<close>

text \<open>C8. Every field keeps its type.  From \<open>gate_init\<close> on, after any legal messages, every integer of the gate is in the
  range of \<^verbatim>\<open>int\<close>, the arrays have their declared lengths, the chains of the id table stay inside
  its array, the buffers point to message nodes with allocated blocks of the size the nodes say, the blocks of the
  message pool and the nodes of its free list are allocated, and every node lies in a block of the pool.\<close>

theorem gate_types:
  assumes env: "\<forall>k. mem e k" "getenv e (str ''max_online'') = Some mo" "0 \<le> atoi mo" "atoi mo \<le> 2 ^ 30"
    and w: "w \<noteq> []" "\<forall>b \<in> set w. \<not> isspace b" "length w + length (udec wd) \<le> 198" "wd \<noteq> 0"
    and sock: "\<And>host port. in_int (sock_listen e host port BACKLOG)"
  shows "\<exists>r st0 a. gate_init e (Some (w @ [32] @ udec wd)) start_st = Inr (r, st0) \<and> gate_is e st0 a \<and> a_conns a = Map.empty \<and>
    a_cap a = nat (atoi mo) \<and> (\<forall>tr st. legal_msgs e (map fst tr) a \<and> gate_runs e st0 tr st \<longrightarrow> gate_typed st)"
proof -
  obtain r st0 a where s: "gate_init e (Some (w @ [32] @ udec wd)) start_st = Inr (r, st0)" "gate_is e st0 a"
      "a_conns a = Map.empty" "a_cap a = nat (atoi mo)" "settings_ok e a"
    using gate_init_is [OF env w(1) _ w(3,4)] w(2) unfolding settings_ok_def by metis
  have "gate_typed st" if run: "legal_msgs e (map fst tr) a" "gate_runs e st0 tr st" for tr st
  proof -
    let ?a = "snd (run_spec (gate_spec e) (map fst tr) a)"
    have "gate_is e st ?a" using gr.run_refines [OF run(2) s(2) run(1)] by simp
    then obtain ss where ss: "gate_holds {} st ss" "gate_view st ss = ?a" by (auto simp: gate_is_def ready_def)
    have "ids_ok a" using s(3) by (simp add: ids_ok_def)
    then have "ids_ok ?a" "settings_ok e ?a"
      using run_spec_invariant [of ids_ok "gate_legal e" "gate_spec e", OF ids_ok_step _ run(1)] s(5)
        run_spec_invariant [of "settings_ok e" "gate_legal e" "gate_spec e", OF settings_ok_step _ run(1)] by auto
    then show ?thesis using gate_typedI [OF ss(1)] ss(2) sock by simp
  qed
  with s(1-4) show ?thesis by blast
qed

theorem gate_types_witness:
  "\<exists>r st0 tr st. gate_init demo_env (Some (str ''!x'' @ [32] @ udec 1)) start_st = Inr (r, st0) \<and>
    gate_runs demo_env st0 tr st \<and> map fst tr = [Accepted 5 []] \<and> gate_typed st"
proof -
  have sock: "\<And>host port. in_int (sock_listen demo_env host port BACKLOG)" by (simp add: demo_env_def in_intI)
  obtain r st0 a where s: "gate_init demo_env (Some (str ''!x'' @ [32] @ udec 1)) start_st = Inr (r, st0)"
      "gate_is demo_env st0 a" "a_conns a = Map.empty" "a_cap a = nat (atoi (str ''1''))"
    and ty: "\<forall>tr st. legal_msgs demo_env (map fst tr) a \<and> gate_runs demo_env st0 tr st \<longrightarrow> gate_typed st"
    using gate_types [OF demo_settings one_neq_zero sock] by (elim exE conjE)
  obtain tr st where run: "gate_runs demo_env st0 tr st" "map fst tr = [Accepted 5 []]"
    and legal: "legal_msgs demo_env [Accepted 5 []] a"
    by (rule demo_accepts [OF s(2-4)])
  then have "gate_typed st" using ty legal by metis
  with s(1) run show ?thesis by (intro exI conjI)
qed

end
