(* ===== verification/Id_Table.thy ===== *)
theory Id_Table
  imports Hashid Refinement
begin

text \<open>
  The id table against a reference table without hashing: a list of slots, each free or holding an id.
  An id goes into the first free slot from the one it falls on, and is found by a search through all slots.
  \<open>id_table_script\<close> shows that \<^verbatim>\<open>hashid.h\<close>, with its chains through the nodes, gives the same answers to any
  script of calls.
\<close>

section \<open>The reference table\<close>

datatype id_op = Insert_id int | Remove_id int | Lookup_id int | Is_full

definition slot_index :: "int \<Rightarrow> int option list \<Rightarrow> int" where
  "slot_index x xs = (case List.find (\<lambda>i. xs ! i = Some x) [0..<length xs] of None \<Rightarrow> -1 | Some i \<Rightarrow> int i)"

definition first_free :: "int \<Rightarrow> int option list \<Rightarrow> int option" where
  "first_free x xs =
     List.find (\<lambda>s. xs ! nat s = None) (map (\<lambda>k. (k + x) mod int (length xs)) [0..int (length xs) - 1])"

fun id_spec :: "id_op \<Rightarrow> int option list \<Rightarrow> int \<times> int option list" where
  "id_spec (Insert_id x) xs = (case first_free x xs of None \<Rightarrow> (-1, xs) | Some s \<Rightarrow> (s, xs[nat s := Some x]))"
| "id_spec (Remove_id x) xs = (slot_index x xs, map (\<lambda>y. if y = Some x then None else y) xs)"
| "id_spec (Lookup_id x) xs = (slot_index x xs, xs)"
| "id_spec Is_full xs = (if None \<in> set xs then 0 else 1, xs)"

fun id_legal :: "id_op \<Rightarrow> int option list \<Rightarrow> bool" where
  \<comment> \<open>an id put in is new, the table has room, and the probes stay in the range of \<^verbatim>\<open>int\<close>\<close>
  "id_legal (Insert_id x) xs \<longleftrightarrow>
     0 \<le> x \<and> x + int (length xs) \<le> INT_MAX \<and> Some x \<notin> set xs \<and> None \<in> set xs"
| "id_legal p xs \<longleftrightarrow> True"

fun id_call :: "id_op \<Rightarrow> hashid \<Rightarrow> (int \<times> hashid) res" where
  "id_call (Insert_id x) hi = hashid_insert hi x"
| "id_call (Remove_id x) hi = hashid_remove hi x"
| "id_call (Lookup_id x) hi = bind_res (hashid_lookup hi x) (\<lambda>r. Inr (r, hi))"
| "id_call Is_full hi = Inr (if hashid_full hi then 1 else 0, hi)"

section \<open>The slots of a table\<close>

definition slots_of :: "hashid \<Rightarrow> int option list" where
  "slots_of hi = map (\<lambda>n. if hn_id n = -1 then None else Some (hn_id n)) (ids hi)"

lemma length_slots [simp]: "length (slots_of hi) = length (ids hi)"
  by (simp add: slots_of_def)

lemma slots_nth:
  assumes "hashid_inv hi" and "i < length (ids hi)"
  shows "slots_of hi ! i = Some x \<longleftrightarrow> slot_of hi x = Some i" and "slots_of hi ! i = None \<longleftrightarrow> hn_id (ids hi ! i) = -1"
  using assms(2) by (auto simp: slots_of_def slot_of_Some_iff [OF assms(1)] used_def)

lemma slots_eqI:
  assumes "hashid_inv hi" and "length xs = length (ids hi)"
    and "\<And>i x. i < length xs \<Longrightarrow> xs ! i = Some x \<longleftrightarrow> slot_of hi x = Some i"
  shows "slots_of hi = xs"
proof (rule nth_equalityI)
  fix i assume "i < length (slots_of hi)"
  then have "slots_of hi ! i = Some x \<longleftrightarrow> xs ! i = Some x" for x using assms(2,3) slots_nth(1) [OF assms(1)] by simp
  then show "slots_of hi ! i = xs ! i" by (metis option.exhaust)
qed (simp add: assms(2))

lemma slot_index_slots:
  assumes "hashid_inv hi"
  shows "slot_index x (slots_of hi) = (case slot_of hi x of None \<Rightarrow> -1 | Some i \<Rightarrow> int i)"
proof -
  have "List.find (\<lambda>i. slots_of hi ! i = Some x) [0..<length (ids hi)] = slot_of hi x"
  proof (cases "slot_of hi x")
    case None
    then show ?thesis using slots_nth(1) [OF assms] by (simp add: find_None_iff)
  next
    case (Some i)
    then have "i < length (ids hi)" by (auto simp: slot_of_Some_iff [OF assms] used_def)
    moreover from this have "slots_of hi ! j = Some x \<longleftrightarrow> i = j" if "j < length (ids hi)" for j
      using that Some by (simp add: slots_nth(1) [OF assms])
    ultimately show ?thesis using Some by (auto simp: find_Some_iff)
  qed
  then show ?thesis by (simp add: slot_index_def)
qed

lemma slots_full:
  assumes "hashid_inv hi"
  shows "hashid_full hi \<longleftrightarrow> None \<notin> set (slots_of hi)"
proof -
  have "hashid_full hi \<longleftrightarrow> (\<forall>i < length (ids hi). hn_id (ids hi ! i) \<noteq> -1)"
    unfolding full_iff_used [OF assms] by (auto simp: used_def)
  also have "\<dots> \<longleftrightarrow> None \<notin> set (slots_of hi)"
    unfolding in_set_conv_nth length_slots using slots_nth(2) [OF assms] by metis
  finally show ?thesis .
qed

lemma first_free_slots:
  assumes "hashid_inv hi" and "0 \<le> x" and "x + cap hi \<le> INT_MAX"
    and "insert_scan (ids hi) (cap hi) x 0 = Inr (Some (int i))"
  shows "first_free x (slots_of hi) = Some (int i)"
proof -
  have cap: "length (ids hi) = nat (cap hi)" "0 \<le> cap hi" using hash_shape_cap [OF hashid_invD(1) [OF assms(1)]] by simp_all
  let ?probes = "map (\<lambda>k. (k + x) mod cap hi) [0..cap hi - 1]"
  have "List.find (\<lambda>s. slots_of hi ! nat s = None) ?probes = List.find (\<lambda>s. hn_id (ids hi ! nat s) = -1) ?probes"
  proof (rule find_cong [OF refl])
    fix s assume "s \<in> set ?probes"
    then have "nat s < length (ids hi)" using cap by (auto simp: nat_less_iff)
    then show "(slots_of hi ! nat s = None) = (hn_id (ids hi ! nat s) = -1)" by (rule slots_nth(2) [OF assms(1)])
  qed
  then show ?thesis
    using insert_scan_find [OF cap(1) assms(2,3) order_refl] assms(4) cap by (simp add: first_free_def)
qed

lemma id_insert_call:
  assumes inv: "hashid_inv hi" and legal: "id_legal (Insert_id x) (slots_of hi)"
  shows "\<exists>hi'. hashid_insert hi x = Inr (fst (id_spec (Insert_id x) (slots_of hi)), hi') \<and> hashid_inv hi' \<and>
    slots_of hi' = snd (id_spec (Insert_id x) (slots_of hi))"
proof -
  have cap: "int (length (ids hi)) = cap hi" using hash_shape_cap [OF hashid_invD(1) [OF inv]] by simp
  have ins: "insertable hi x" and room: "\<not> hashid_full hi"
    using legal cap slots_full [OF inv] by (simp_all add: insertable_def)
  have new: "slot_of hi x = None"
  proof (rule ccontr)
    assume "slot_of hi x \<noteq> None"
    then obtain i where i: "slot_of hi x = Some i" by blast
    then have "i < length (ids hi)" by (simp add: slot_of_Some_iff [OF inv] used_def)
    with i have "Some x \<in> set (slots_of hi)" by (metis slots_nth(1) [OF inv] length_slots nth_mem)
    with legal show False by simp
  qed
  obtain i where i: "hashid_insert hi x = Inr (int i, linked hi x i)" "i < length (ids hi)" "hn_id (ids hi ! i) = -1"
      "insert_scan (ids hi) (cap hi) x 0 = Inr (Some (int i))"
    by (rule hashid_insert_linked [OF inv ins room])
  have x: "x \<noteq> -1" using ins by (simp add: insertable_def)
  have inv': "hashid_inv (linked hi x i)" and slot: "slot_of (linked hi x i) = (slot_of hi)(x \<mapsto> i)"
    using linked_inv [OF inv i(2,3) x new] linked_slot_of [OF inv i(2,3) x new] by simp_all
  have "slots_of (linked hi x i) = (slots_of hi)[i := Some x]"
    using x by (simp add: slots_of_def linked_def map_update)
  then show ?thesis
    using i(1) inv' first_free_slots [OF inv _ _ i(4)] ins by (simp add: insertable_def)
qed

lemma id_remove_call:
  assumes inv: "hashid_inv hi"
  shows "\<exists>hi'. hashid_remove hi x = Inr (fst (id_spec (Remove_id x) (slots_of hi)), hi') \<and> hashid_inv hi' \<and>
    slots_of hi' = snd (id_spec (Remove_id x) (slots_of hi))"
proof -
  obtain hi' where h: "hashid_remove hi x = Inr (case slot_of hi x of None \<Rightarrow> -1 | Some i \<Rightarrow> int i, hi')"
      "hashid_inv hi'" "slot_of hi' = (slot_of hi)(x := None)" "cap hi' = cap hi"
    using hashid_remove_slot [OF inv, of x] by blast
  have "length (ids hi') = length (ids hi)"
    using h(4) hash_shape_cap(3) [OF hashid_invD(1) [OF h(2)]] hash_shape_cap(3) [OF hashid_invD(1) [OF inv]] by simp
  then have "slots_of hi' = map (\<lambda>y. if y = Some x then None else y) (slots_of hi)"
    using h(3) slots_nth(1) [OF inv] hid.slot_inj [OF inv] by (intro slots_eqI [OF h(2)]) auto
  then show ?thesis using h(1,2) slot_index_slots [OF inv] by simp
qed

definition table_holds :: "hashid \<Rightarrow> int option list \<Rightarrow> bool" where
  "table_holds hi xs \<longleftrightarrow> hashid_inv hi \<and> slots_of hi = xs"

interpretation idt: operations table_holds id_call id_legal id_spec
proof
  fix hi xs p assume "table_holds hi xs" and legal: "id_legal p xs"
  then have inv: "hashid_inv hi" and xs: "xs = slots_of hi" by (simp_all add: table_holds_def)
  show "\<exists>hi'. id_call p hi = Inr (fst (id_spec p xs), hi') \<and> table_holds hi' (snd (id_spec p xs))"
  proof (cases p)
    case (Insert_id x)
    then show ?thesis using id_insert_call [OF inv] legal by (simp add: table_holds_def xs)
  next
    case (Remove_id x)
    then show ?thesis using id_remove_call [OF inv, of x] by (simp add: table_holds_def xs)
  next
    case (Lookup_id x)
    then show ?thesis
      using inv hashid_lookup_slot [OF inv, of x] slot_index_slots [OF inv, of x] by (simp add: table_holds_def xs)
  next
    case Is_full
    then show ?thesis using inv slots_full [OF inv] by (simp add: table_holds_def xs)
  qed
qed

section \<open>Properties\<close>

text \<open>C7. The id table is a table.  A table made by \<open>hashid_init\<close> answers every legal script of insertions, removals,
  lookups and questions whether it is full exactly like the reference table: no call faults or loops,
  every slot number is the same, and at the end the nodes hold the same ids in the same slots.\<close>

theorem id_table_script:
  assumes "0 \<le> mx" and "mx \<le> 2 ^ 30" and "\<forall>n. mem n" and "legal_run id_legal id_spec ps (replicate (nat mx) None)"
  shows "\<exists>hi hi'. hashid_init mem mx = Inr hi \<and>
    calls id_call ps hi = Inr (fst (answers id_spec ps (replicate (nat mx) None)), hi') \<and> hashid_inv hi' \<and>
    slots_of hi' = snd (answers id_spec ps (replicate (nat mx) None))"
proof -
  obtain hi where hi: "hashid_init mem mx = Inr hi" "hashid_inv hi" "slot_of hi = Map.empty" "cap hi = mx"
    using hashid_init_table [OF assms(1-3)] by blast
  have "length (ids hi) = nat mx" using hash_shape_cap(3) [OF hashid_invD(1) [OF hi(2)]] hi(4) by simp
  then have "slots_of hi = replicate (nat mx) None" using hi(3) by (intro slots_eqI [OF hi(2)]) simp_all
  then have "table_holds hi (replicate (nat mx) None)" using hi(2) by (simp add: table_holds_def)
  from idt.script [OF this assms(4)] show ?thesis using hi(1) by (auto simp: table_holds_def)
qed

theorem id_table_script_witness:
  "\<exists>hi hi'. hashid_init (\<lambda>_. True) 3 = Inr hi \<and>
    calls id_call [Insert_id 7, Insert_id 4, Lookup_id 4, Remove_id 7, Lookup_id 7, Insert_id 16, Is_full] hi =
      Inr ([1, 2, 2, 1, -1, 1, 0], hi') \<and>
    slots_of hi' = [None, Some 16, Some 4]"
proof -
  let ?ps = "[Insert_id 7, Insert_id 4, Lookup_id 4, Remove_id 7, Lookup_id 7, Insert_id 16, Is_full]"
  have "legal_run id_legal id_spec ?ps (replicate (nat 3) None) \<and>
      answers id_spec ?ps (replicate (nat 3) None) = ([1, 2, 2, 1, -1, 1, 0], [None, Some 16, Some 4])"
    by code_simp
  then show ?thesis using id_table_script [of 3 "\<lambda>_. True" ?ps] by auto
qed

end
