(* ===== verification/Watchdog.thy ===== *)
theory Watchdog
  imports Gate_Service
begin

text \<open>
  The watchdog service (\<^verbatim>\<open>Watchdog.cpp\<close>, \<^verbatim>\<open>service_watchdog.cpp\<close>) and its work with the gate: it starts
  the gate with the address it was given and its own handle, and reads the socket number at the
  start of the messages the gate sends it.  The class has no fields, so an operation is described
  by what it does to the outside, a list of \<open>dog_effect\<close>.  Creating a service is a call of the
  framework, a parameter that answers the handle of the new service or nothing.
\<close>

section \<open>The service\<close>

datatype dog_effect =
    Printed "byte list"
  | New_service "byte list" "byte list"   \<comment> \<open>\<^verbatim>\<open>skynet_context_new\<close>: name and parameter\<close>
  | Dog_callback

definition watchdog_create :: "bool \<Rightarrow> addr \<Rightarrow> (addr \<rightharpoonup> unit) \<Rightarrow> (ptr \<times> (addr \<rightharpoonup> unit)) res" where
  \<comment> \<open>\<^verbatim>\<open>new\<close> gives the address \<open>a\<close> or throws; the constructor does nothing\<close>
  "watchdog_create granted a m = (if granted then Inr (Some a, m(a \<mapsto> ())) else Inl Thrown)"

definition watchdog_release :: "ptr \<Rightarrow> (addr \<rightharpoonup> unit) \<Rightarrow> (addr \<rightharpoonup> unit) res" where
  "watchdog_release dog m = dealloc m dog"

definition dog_init :: "byte list \<Rightarrow> bool" where
  "dog_init p = True"

definition service_init :: "byte list \<Rightarrow> bool" where
  "service_init p = True"

definition watchdog_poll :: "byte list option \<Rightarrow> int \<Rightarrow> (byte list option \<times> dog_effect list) res" where
  \<comment> \<open>\<open>data\<close> is the memory of the message, which \<^verbatim>\<open>strsep\<close> writes to; a message without data is a null
    pointer, for which \<^verbatim>\<open>strsep\<close> answers the null pointer \<^verbatim>\<open>atoi\<close> then reads\<close>
  "watchdog_poll data type =
     (if type = PTYPE_TEXT \<or> type = PTYPE_CLIENT
      then (case data of None \<Rightarrow> Inl NullDeref
        | Some data \<Rightarrow>
            bind_res (strsep data (Some 0) 32) (\<lambda>(tok, data, c).
            bind_res (c_str data 0) (\<lambda>s.
            Inr (Some data, [Printed (str ''watchdog_poll fd='' @ dec (atoi s))]))))
      else Inr (data, []))"

definition watchdog_cb :: "int \<Rightarrow> byte list option \<Rightarrow> (int \<times> byte list option \<times> dog_effect list) res" where
  "watchdog_cb type msg = bind_res (watchdog_poll msg type) (\<lambda>(msg, es). Inr (0, msg, es))"

definition sendline :: "byte list \<Rightarrow> 32 word \<Rightarrow> byte list" where
  \<comment> \<open>\<^verbatim>\<open>snprintf(sendline, 100, "%s %u", parm, handle)\<close>\<close>
  "sendline p handle = take 99 (p @ [32] @ udec handle)"

definition watchdog_init ::
    "(byte list \<Rightarrow> byte list \<Rightarrow> 32 word option) \<Rightarrow> 32 word \<Rightarrow> byte list \<Rightarrow> int \<times> dog_effect list" where
  "watchdog_init context_new handle p =
     (let line = sendline p handle;
          es = [Printed (str ''watchdog_init sendline='' @ line), New_service (str ''gate'') line] in
      case context_new (str ''gate'') line of
        None \<Rightarrow> (-1, es @ [Printed (str ''create gate error'')])
      | Some gate \<Rightarrow>
          let temp = udec gate in
          if \<not> service_init temp then (-1, es @ [Printed (str ''service init failed.'')])
          else (0, es @ [Dog_callback]))"

lemma watchdog_create_release:
  "m a = None \<Longrightarrow> bind_res (watchdog_create True a m) (\<lambda>(dog, m). watchdog_release dog m) = Inr m"
  by (auto simp: watchdog_create_def watchdog_release_def)

section \<open>Messages from the gate\<close>

definition delivered :: "effect \<Rightarrow> byte list \<Rightarrow> (int \<times> byte list option) option" where
  \<comment> \<open>what the framework hands to the callback of the receiver: the type without its flags, and
    the message memory, which may be longer than the message\<close>
  "delivered ef slack = (case ef of Send _ _ type _ msg \<Rightarrow> Some (type AND 255, Some (msg @ slack)) | _ \<Rightarrow> None)"

definition dog_sees :: "effect \<Rightarrow> byte list \<Rightarrow> (int \<times> byte list option \<times> dog_effect list) res option" where
  "dog_sees ef slack = map_option (\<lambda>(type, msg). watchdog_cb type msg) (delivered ef slack)"

lemma atoi_dec: "in_int n \<Longrightarrow> atoi (dec n) = n"
  using in_intD [of n] by (simp add: atoi_def strtol_dec)

lemma poll_fd:
  assumes "in_int fd"
  shows "watchdog_cb PTYPE_CLIENT (Some (dec fd @ [32] @ rest)) =
    Inr (0, Some (dec fd @ [0] @ rest), [Printed (str ''watchdog_poll fd='' @ dec fd)])"
  using strsep_token [of 32 "dec fd" "[]" rest] c_str_terminated [of "dec fd" "[]" rest]
  by (simp add: watchdog_cb_def watchdog_poll_def atoi_dec assms)

lemma poll_report:
  "watchdog_cb PTYPE_TEXT (Some (0 # rest)) = Inr (0, Some (0 # rest), [Printed (str ''watchdog_poll fd='' @ dec 0)])"
  by (simp add: watchdog_cb_def watchdog_poll_def strsep_def c_str_def atoi_def strtol_def read_number_def Let_def LONG_MAX_def in_intI)

lemma client_type: "d AND 255 = 0 \<Longrightarrow> (PTYPE_CLIENT OR d) AND 255 = PTYPE_CLIENT"
  by (simp add: PTYPE_CLIENT_def bit.conj_disj_distrib2)

lemma packet_seen:
  assumes "a_broker a = 0" and "ac_agent k = 0" and "a_tag a = PTYPE_CLIENT" and "dontcopy e AND 255 = 0" and "in_int (ac_id k)"
  shows "dog_sees (route e a k p) slack =
    Some (Inr (0, Some (dec (ac_id k) @ [0] @ p @ slack), [Printed (str ''watchdog_poll fd='' @ dec (ac_id k))]))"
  using poll_fd [OF assms(5), of "p @ slack"] assms(1-4)
  by (simp add: route_def Let_def dog_sees_def delivered_def client_type)

lemma reported_seen:
  assumes "watchdog (st_gate st) \<noteq> 0"
  shows "\<exists>ef. reported st d = [ef] \<and> (\<forall>slack. \<exists>m. dog_sees ef slack = Some (Inr (0, m, [Printed (str ''watchdog_poll fd=0'')])))"
proof -
  have "PTYPE_TEXT AND 255 = PTYPE_TEXT" by (simp add: PTYPE_TEXT_def)
  moreover have "str ''watchdog_poll fd='' @ dec 0 = str ''watchdog_poll fd=0''"
    by (simp add: dec_def str_def digits.simps)
  ultimately show ?thesis
    using assms by (simp add: reported_def dog_sees_def delivered_def poll_report)
qed

section \<open>Starting the gate\<close>

lemma sendline_whole: "length p + 1 + length (udec h) \<le> 99 \<Longrightarrow> sendline p h = p @ [32] @ udec h"
  by (simp add: sendline_def)

lemma sendline_cut:
  assumes "98 \<le> length p" and p: "\<And>b. b \<in> set p \<Longrightarrow> \<not> isspace b"
  shows "scan_binding (sendline p h) = Inl Uninitialised"
proof -
  have q: "\<And>b. b \<in> set (take 99 p) \<Longrightarrow> \<not> isspace b" using p by (meson in_set_takeD)
  have ne: "take 99 p \<noteq> []" using assms(1) by auto
  then have drop: "dropWhile isspace (take 99 p @ r) = take 99 p @ r" for r
    using q by (cases "take 99 p") auto
  consider "length p = 98" | "99 \<le> length p" using assms(1) by linarith
  then have "sendline p h = take 99 p @ (if length p = 98 then [32] else [])" using assms(1)
    by cases (simp_all add: sendline_def)
  moreover have "takeWhile (\<lambda>b. \<not> isspace b) (take 99 p @ r) = take 99 p" if "r = [] \<or> r = [32]" for r
    using q that isspace_blank by (subst takeWhile_append2) auto
  ultimately show ?thesis
    using ne drop isspace_blank by (simp add: scan_binding_def Let_def)
qed

section \<open>Properties\<close>

text \<open>C11.  Gate and watchdog together.  Let a client write the packets \<open>ps\<close> to a connection without agent
  and broker, cut anywhere and interleaved with any other messages that neither close the connection nor
  change its receiver.  Then the gate reaches the end of the messages, and the watchdog is called once for
  each packet, in order: it reads back exactly the id the gate keeps for the connection, and what it leaves of
  the message still holds the packet, whatever follows the message in memory.\<close>

theorem watchdog_reads_packets:
  assumes "gate_is e st a" and "a_conns a fd = Some k" and "ac_stream k = []" and "legal_msgs e ms a"
    and "\<forall>m \<in> set ms. quiet fd m" and "data_of fd ms = wire ps" and "\<And>p. p \<in> set ps \<Longrightarrow> p \<noteq> [] \<and> length p < 2 ^ 24"
    and "a_broker a = 0" and "ac_agent k = 0" and "a_tag a = PTYPE_CLIENT" and "dontcopy e AND 255 = 0" and "in_int (ac_id k)"
  shows "(\<exists>tr st'. gate_runs e st tr st' \<and> map fst tr = ms) \<and>
    (\<forall>tr st' slack. gate_runs e st tr st' \<and> map fst tr = ms \<longrightarrow>
      map (\<lambda>ef. dog_sees ef slack) (sent_for fd tr) = map (\<lambda>p. Some (Inr (0, Some (dec (ac_id k) @ [0] @ p @ slack),
        [Printed (str ''watchdog_poll fd='' @ dec (ac_id k))]))) ps)"
proof -
  have "map (\<lambda>ef. dog_sees ef slack) (map (route e a k) ps) = map (\<lambda>p. Some (Inr (0, Some (dec (ac_id k) @ [0] @ p @ slack),
      [Printed (str ''watchdog_poll fd='' @ dec (ac_id k))]))) ps" for slack
    using packet_seen [OF assms(8-12)] by simp
  then show ?thesis using run_delivers [OF assms(1-7)] by metis
qed

theorem watchdog_reads_packets_witness:
  "\<exists>st tr st'. gate_runs demo_env st tr st' \<and> map fst tr = [Data 5 [0, 0, 0, 2, 65], Kick 5, Data 5 [66]] \<and>
    map (\<lambda>ef. dog_sees ef []) (sent_for 5 tr) =
      [Some (Inr (0, Some (dec 5 @ [0, 65, 66]), [Printed (str ''watchdog_poll fd='' @ dec 5)]))]"
proof -
  let ?ms = "[Data 5 [0, 0, 0, 2, 65], Kick 5, Data 5 [66]]"
  let ?k = "\<lparr>ac_id = 5, ac_agent = 0, ac_client = 0, ac_stream = []\<rparr>"
  obtain st where st: "gate_is demo_env st demo_a" using demo_is by blast
  have conn: "a_conns demo_a 5 = Some ?k" "a_broker demo_a = 0" "a_tag demo_a = PTYPE_CLIENT" by (simp_all add: demo_a_def)
  have legal: "legal_msgs demo_env ?ms demo_a"
    by (simp add: demo_a_def demo_frames rest_of_def Let_def INT_MAX_def in_intI)
  have w: "data_of 5 ?ms = wire [[65, 66]]" by (simp add: wire_def be_bytes_def)
  have copy: "dontcopy demo_env AND 255 = 0" by (simp add: demo_env_def)
  have "(\<exists>tr st'. gate_runs demo_env st tr st' \<and> map fst tr = ?ms) \<and>
    (\<forall>tr st' slack. gate_runs demo_env st tr st' \<and> map fst tr = ?ms \<longrightarrow>
      map (\<lambda>ef. dog_sees ef slack) (sent_for 5 tr) = map (\<lambda>p. Some (Inr (0, Some (dec (ac_id ?k) @ [0] @ p @ slack),
        [Printed (str ''watchdog_poll fd='' @ dec (ac_id ?k))]))) [[65, 66]])"
    by (rule watchdog_reads_packets [OF st conn(1) _ legal _ w _ conn(2) _ conn(3) copy]) (simp_all add: in_intI)
  then obtain tr st' where "gate_runs demo_env st tr st'" "map fst tr = ?ms"
      "map (\<lambda>ef. dog_sees ef []) (sent_for 5 tr) = map (\<lambda>p. Some (Inr (0, Some (dec (ac_id ?k) @ [0] @ p @ []),
        [Printed (str ''watchdog_poll fd='' @ dec (ac_id ?k))]))) [[65, 66]]"
    by metis
  then show ?thesis by (intro exI conjI) simp_all
qed

text \<open>C17.  The gate announces every socket that opens or closes to the watchdog.  The watchdog takes
  both announcements for messages of the socket 0, whatever the socket is: the announcement
  begins with a binary type field, whose first byte is zero.\<close>

theorem watchdog_misreads_reports:
  assumes "gate_holds RB st ss" and "watchdog (st_gate st) \<noteq> 0" and "sm_id m = listen_id (st_gate st)"
    and "slot_of (g_hash (st_gate st)) (sm_ud m) = None" and "0 \<le> sm_ud m"
    and "sm_ud m + int (length (g_conn (st_gate st))) \<le> INT_MAX" and "\<not> hashid_full (g_hash (st_gate st))"
    and "sm_id m' = sm_ud m"
  shows "\<exists>st1 st2 opened closed l1 l2. on_accept m st = Inr st1 \<and> on_close m' st1 = Inr st2 \<and>
    st_out st2 = st_out st @ [opened, Log l1, Log l2, closed] \<and>
    (\<forall>slack. (\<exists>d. dog_sees opened slack = Some (Inr (0, d, [Printed (str ''watchdog_poll fd=0'')]))) \<and>
       (\<exists>d. dog_sees closed slack = Some (Inr (0, d, [Printed (str ''watchdog_poll fd=0'')]))))"
proof -
  obtain c st1 where 1: "on_accept m st = Inr st1" "gate_holds RB st1 ss"
      "slot_of (g_hash (st_gate st1)) = (slot_of (g_hash (st_gate st)))(sm_ud m \<mapsto> c)"
      "watchdog (st_gate st1) = watchdog (st_gate st)"
      "st_out st1 = st_out st @ reported st (str ''gate accept '' @ dec (sm_ud m) @ [32] @
        takeWhile (\<lambda>b. b \<noteq> 0) (take 31 (sm_name m))) @ [Log (str ''socket open: '' @ dec (sm_ud m))]"
    using on_accept_ok [OF assms(1,3-7)] by blast
  have s: "slot_of (g_hash (st_gate st1)) (sm_id m') = Some c" using 1(3) assms(8) by simp
  have "in_int (sm_id m')" using assms(5,6,8) by (auto simp: in_int_def INT_MIN_def)
  from on_close_known [OF 1(2) s this] obtain st2 l d where
    2: "on_close m' st1 = Inr st2" "st_out st2 = st_out st1 @ [Log l] @ reported st1 d" by blast
  obtain opened where o: "reported st (str ''gate accept '' @ dec (sm_ud m) @ [32] @
        takeWhile (\<lambda>b. b \<noteq> 0) (take 31 (sm_name m))) = [opened]"
      "\<forall>slack. \<exists>d. dog_sees opened slack = Some (Inr (0, d, [Printed (str ''watchdog_poll fd=0'')]))"
    using reported_seen [OF assms(2)] by blast
  obtain closed where "reported st1 d = [closed]"
      "\<forall>slack. \<exists>d. dog_sees closed slack = Some (Inr (0, d, [Printed (str ''watchdog_poll fd=0'')]))"
    using reported_seen [of st1 d] 1(4) assms(2) by auto
  then show ?thesis using 1(1,5) 2 o
    by (intro exI [of _ st1] exI [of _ st2] exI [of _ opened] exI [of _ closed]
        exI [of _ "str ''socket open: '' @ dec (sm_ud m)"] exI [of _ l]) simp
qed

theorem watchdog_misreads_reports_witness:
  "\<exists>hi st1 st2 opened closed l1 l2 d.
    on_accept \<lparr>sm_type = SOCKET_ACCEPT, sm_id = -1, sm_ud = 9, sm_buffer = NULL, sm_name = [65]\<rparr> (demo_st hi) = Inr st1 \<and>
    on_close \<lparr>sm_type = SOCKET_CLOSE, sm_id = 9, sm_ud = 0, sm_buffer = NULL, sm_name = []\<rparr> st1 = Inr st2 \<and>
    st_out st2 = [opened, Log l1, Log l2, closed] \<and>
    dog_sees opened [] = Some (Inr (0, d, [Printed (str ''watchdog_poll fd=0'')]))"
proof -
  let ?m = "\<lparr>sm_type = SOCKET_ACCEPT, sm_id = -1, sm_ud = 9, sm_buffer = NULL, sm_name = [65]\<rparr>"
  let ?m' = "\<lparr>sm_type = SOCKET_CLOSE, sm_id = 9, sm_ud = 0, sm_buffer = NULL, sm_name = []\<rparr>"
  obtain hi where hi: "hashid_inv hi" "slot_of hi = Map.empty" "cap hi = 1"
    using hashid_init_table [of 1 "\<lambda>_. True"] by auto
  have g: "gate_holds {} (demo_st hi) [[]]" using demo_ready [OF hi(1,3)] by (simp add: ready_def)
  have l: "sm_id ?m = listen_id (st_gate (demo_st hi))" by (simp add: demo_st_def init_gate_def created_def)
  have room: "\<not> hashid_full (g_hash (st_gate (demo_st hi)))" using full_empty [OF hi(1,2)] hi(3) by simp
  have new: "slot_of (g_hash (st_gate (demo_st hi))) (sm_ud ?m) = None" "0 \<le> sm_ud ?m"
      "sm_ud ?m + int (length (g_conn (st_gate (demo_st hi)))) \<le> INT_MAX" "watchdog (st_gate (demo_st hi)) \<noteq> 0" "sm_id ?m' = sm_ud ?m"
    using hi(2) by (simp_all add: INT_MAX_def)
  obtain st1 st2 opened closed l1 l2 where run: "on_accept ?m (demo_st hi) = Inr st1" "on_close ?m' st1 = Inr st2"
      "st_out st2 = st_out (demo_st hi) @ [opened, Log l1, Log l2, closed]"
    and read: "\<forall>slack. (\<exists>d. dog_sees opened slack = Some (Inr (0, d, [Printed (str ''watchdog_poll fd=0'')]))) \<and>
       (\<exists>d. dog_sees closed slack = Some (Inr (0, d, [Printed (str ''watchdog_poll fd=0'')])))"
    using watchdog_misreads_reports [OF g new(4) l new(1-3) room new(5)] by (elim exE conjE)
  obtain d where "dog_sees opened [] = Some (Inr (0, d, [Printed (str ''watchdog_poll fd=0'')]))" using read by blast
  then show ?thesis using run by (intro exI [of _ hi] exI [of _ st1] exI [of _ st2] exI [of _ opened] exI [of _ closed]
      exI [of _ l1] exI [of _ l2] exI [of _ d]) simp
qed

text \<open>C12.  The gate the watchdog starts is given the address and the handle of the watchdog, and
  \<^verbatim>\<open>gate_init\<close> stores that handle, as long as both fit into 99 characters.  An address of 98
  characters or more leaves no room for the handle: the gate then uses a handle that was never read.\<close>

theorem watchdog_starts_gate:
  assumes env: "\<forall>k. mem e k" "getenv e (str ''max_online'') = Some mo" "0 \<le> atoi mo" "atoi mo \<le> 2 ^ 30"
    and w: "w \<noteq> []" "\<And>b. b \<in> set w \<Longrightarrow> \<not> isspace b"
    and init: "watchdog_init context_new h w = (r0, es)"
  shows "\<exists>line. New_service (str ''gate'') line \<in> set es \<and>
    (length w + 1 + length (udec h) \<le> 99 \<longrightarrow>
      (\<exists>r st. gate_init e (Some line) start_st = Inr (r, st) \<and> gate_holds {} st (replicate (nat (atoi mo)) []) \<and>
         watchdog (st_gate st) = h)) \<and>
    (98 \<le> length w \<longrightarrow> gate_init e (Some line) start_st = Inl Uninitialised)"
proof -
  have "New_service (str ''gate'') (sendline w h) \<in> set es"
    using init by (auto simp: watchdog_init_def Let_def service_init_def split: option.splits)
  moreover have "\<exists>r st. gate_init e (Some (sendline w h)) start_st = Inr (r, st) \<and>
      gate_holds {} st (replicate (nat (atoi mo)) []) \<and> watchdog (st_gate st) = h"
    if "length w + 1 + length (udec h) \<le> 99"
    using gate_init_ok [OF env w, of h] that by (auto simp: sendline_whole)
  moreover have "gate_init e (Some (sendline w h)) start_st = Inl Uninitialised" if "98 \<le> length w"
    using sendline_cut [OF that w(2)] by (simp add: gate_init_def Let_def)
  ultimately show ?thesis by blast
qed

theorem watchdog_starts_gate_witness:
  "\<exists>line r st. New_service (str ''gate'') line \<in> set (snd (watchdog_init (\<lambda>_ _. None) 7 (str ''127.0.0.1:8888''))) \<and>
     gate_init demo_env (Some line) start_st = Inr (r, st) \<and> watchdog (st_gate st) = 7"
proof -
  have e: "getenv demo_env (str ''max_online'') = Some (str ''1'')" by (simp add: demo_env_def)
  have a: "atoi (str ''1'') = 1" using atoi_dec [of 1] by (simp add: dec_def str_def digits.simps in_intI)
  have w: "str ''127.0.0.1:8888'' \<noteq> []" by (simp add: str_def)
  have nb: "\<not> isspace b" if "b \<in> set (str ''127.0.0.1:8888'')" for b using that by (auto simp: str_def isspace_def)
  have len: "length (str ''127.0.0.1:8888'') + 1 + length (udec 7) \<le> 99" using udec_length [of 7] by (simp add: str_def)
  show ?thesis
    using watchdog_starts_gate [OF demo_sel(4) e _ _ w nb prod.collapse [symmetric], of "\<lambda>_ _. None" 7] a len by auto
qed

end
