(* ===== verification/Adlist.thy ===== *)
theory Adlist
  imports C_Base
begin

text \<open>
  The doubly linked list of Redis, \<^verbatim>\<open>adlist.c\<close> and \<^verbatim>\<open>adlist.h\<close>.  Nodes, list headers and
  iterators live in maps of one heap; \<^verbatim>\<open>malloc\<close> gives the address \<open>lbrk\<close> or, when the parameter
  \<open>mem\<close> says no for this call, NULL.  A value is a \<^verbatim>\<open>void *\<close>.  The client's functions are the
  fields of the header: \<open>l_dup\<close> and \<open>l_match\<close> are functions (a copy may depend on the number of
  calls made before, \<open>ticks\<close>); what \<open>l_dup\<close> returns is recorded in \<open>made\<close>, a call of the function \<open>l_free\<close> names in
  \<open>freed\<close>.

  \<open>list_at h l as vs\<close>: the list at \<open>l\<close> has the nodes \<open>as\<close> with the values \<open>vs\<close>.  Scripts
  of calls, and what a client sees of them, are in \<open>Adlist_Script\<close>.
\<close>

section \<open>Data\<close>

type_synonym val = "nat option"

record lnode =
  n_prev :: ptr
  n_next :: ptr
  n_value :: val

record llist =
  l_head :: ptr
  l_tail :: ptr
  l_dup :: "(nat \<Rightarrow> val \<Rightarrow> val) option"
  l_free :: "nat option"
  l_match :: "(val \<Rightarrow> val \<Rightarrow> val) option"
  l_len :: "64 word"

record liter =
  i_next :: ptr
  i_direction :: int

record lheap =
  nodes :: "addr \<rightharpoonup> lnode"
  lists :: "addr \<rightharpoonup> llist"
  iters :: "addr \<rightharpoonup> liter"
  freed :: "(nat \<times> val) list"   \<comment> \<open>calls of the clients' free functions\<close>
  made :: "val list"               \<comment> \<open>values the clients' copy functions returned\<close>
  ticks :: nat                     \<comment> \<open>calls of \<^verbatim>\<open>malloc\<close> and of copy functions\<close>
  lbrk :: addr

definition AL_START_HEAD :: int where "AL_START_HEAD = 0"

definition AL_START_TAIL :: int where "AL_START_TAIL = 1"

definition malloc :: "(nat \<Rightarrow> bool) \<Rightarrow> lheap \<Rightarrow> ptr \<times> lheap" where
  "malloc mem h =
     (if mem (ticks h) then (Some (lbrk h), h\<lparr>ticks := ticks h + 1, lbrk := lbrk h + 1\<rparr>)
      else (NULL, h\<lparr>ticks := ticks h + 1\<rparr>))"

definition get_list :: "lheap \<Rightarrow> ptr \<Rightarrow> llist res" where
  "get_list h l = deref (lists h) l"

definition set_list :: "lheap \<Rightarrow> ptr \<Rightarrow> (llist \<Rightarrow> llist) \<Rightarrow> lheap res" where
  "set_list h l f = bind_res (assign (lists h) l f) (\<lambda>m. Inr (h\<lparr>lists := m\<rparr>))"

definition get_node :: "lheap \<Rightarrow> ptr \<Rightarrow> lnode res" where
  "get_node h p = deref (nodes h) p"

definition set_node :: "lheap \<Rightarrow> ptr \<Rightarrow> (lnode \<Rightarrow> lnode) \<Rightarrow> lheap res" where
  "set_node h p f = bind_res (assign (nodes h) p f) (\<lambda>m. Inr (h\<lparr>nodes := m\<rparr>))"

definition new_node :: "lheap \<Rightarrow> addr \<Rightarrow> lnode \<Rightarrow> lheap" where
  "new_node h a n = h\<lparr>nodes := (nodes h)(a \<mapsto> n)\<rparr>"

section \<open>Operations\<close>

definition listCreate :: "(nat \<Rightarrow> bool) \<Rightarrow> lheap \<Rightarrow> ptr \<times> lheap" where
  "listCreate mem h = (case malloc mem h of
       (None, h) \<Rightarrow> (NULL, h)
     | (Some a, h) \<Rightarrow> (Some a, h\<lparr>lists := (lists h)(a \<mapsto>
         \<lparr>l_head = NULL, l_tail = NULL, l_dup = None, l_free = None, l_match = None, l_len = 0\<rparr>)\<rparr>))"

definition call_free :: "nat option \<Rightarrow> val \<Rightarrow> lheap \<Rightarrow> lheap" where
  \<comment> \<open>\<^verbatim>\<open>if (list->free) list->free(value)\<close>\<close>
  "call_free f v h = (case f of None \<Rightarrow> h | Some g \<Rightarrow> h\<lparr>freed := freed h @ [(g, v)]\<rparr>)"

primrec release_loop :: "nat \<Rightarrow> ptr \<Rightarrow> ptr \<Rightarrow> lheap \<Rightarrow> lheap res" where
  "release_loop 0 l current h = Inr h"
| "release_loop (Suc len) l current h =
     bind_res (get_node h current) (\<lambda>n.
     bind_res (get_list h l) (\<lambda>L.
     let h = call_free (l_free L) (n_value n) h in
     bind_res (dealloc (nodes h) current) (\<lambda>m.
     release_loop len l (n_next n) (h\<lparr>nodes := m\<rparr>))))"

definition listRelease :: "lheap \<Rightarrow> ptr \<Rightarrow> lheap res" where
  "listRelease h l =
     bind_res (get_list h l) (\<lambda>L.
     bind_res (release_loop (unat (l_len L)) l (l_head L) h) (\<lambda>h.
     bind_res (dealloc (lists h) l) (\<lambda>m. Inr (h\<lparr>lists := m\<rparr>))))"

definition listAddNodeHead :: "(nat \<Rightarrow> bool) \<Rightarrow> lheap \<Rightarrow> ptr \<Rightarrow> val \<Rightarrow> (ptr \<times> lheap) res" where
  "listAddNodeHead mem h l v = (case malloc mem h of
       (None, h) \<Rightarrow> Inr (NULL, h)
     | (Some a, h) \<Rightarrow>
         bind_res (get_list h l) (\<lambda>L.
         bind_res
           (if l_len L = 0
            then bind_res (set_list h l (\<lambda>L. L\<lparr>l_head := Some a, l_tail := Some a\<rparr>)) (\<lambda>h.
                 Inr (new_node h a \<lparr>n_prev = NULL, n_next = NULL, n_value = v\<rparr>))
            else let h = new_node h a \<lparr>n_prev = NULL, n_next = l_head L, n_value = v\<rparr> in
                 bind_res (set_node h (l_head L) (\<lambda>n. n\<lparr>n_prev := Some a\<rparr>)) (\<lambda>h.
                 set_list h l (\<lambda>L. L\<lparr>l_head := Some a\<rparr>))) (\<lambda>h.
         bind_res (set_list h l (\<lambda>L. L\<lparr>l_len := l_len L + 1\<rparr>)) (\<lambda>h.
         Inr (l, h)))))"

definition listAddNodeTail :: "(nat \<Rightarrow> bool) \<Rightarrow> lheap \<Rightarrow> ptr \<Rightarrow> val \<Rightarrow> (ptr \<times> lheap) res" where
  "listAddNodeTail mem h l v = (case malloc mem h of
       (None, h) \<Rightarrow> Inr (NULL, h)
     | (Some a, h) \<Rightarrow>
         bind_res (get_list h l) (\<lambda>L.
         bind_res
           (if l_len L = 0
            then bind_res (set_list h l (\<lambda>L. L\<lparr>l_head := Some a, l_tail := Some a\<rparr>)) (\<lambda>h.
                 Inr (new_node h a \<lparr>n_prev = NULL, n_next = NULL, n_value = v\<rparr>))
            else let h = new_node h a \<lparr>n_prev = l_tail L, n_next = NULL, n_value = v\<rparr> in
                 bind_res (set_node h (l_tail L) (\<lambda>n. n\<lparr>n_next := Some a\<rparr>)) (\<lambda>h.
                 set_list h l (\<lambda>L. L\<lparr>l_tail := Some a\<rparr>))) (\<lambda>h.
         bind_res (set_list h l (\<lambda>L. L\<lparr>l_len := l_len L + 1\<rparr>)) (\<lambda>h.
         Inr (l, h)))))"

definition listInsertNode :: "(nat \<Rightarrow> bool) \<Rightarrow> lheap \<Rightarrow> ptr \<Rightarrow> ptr \<Rightarrow> val \<Rightarrow> bool \<Rightarrow> (ptr \<times> lheap) res" where
  "listInsertNode mem h l old_node v after = (case malloc mem h of
       (None, h) \<Rightarrow> Inr (NULL, h)
     | (Some a, h) \<Rightarrow>
         bind_res (get_node h old_node) (\<lambda>old.
         bind_res (get_list h l) (\<lambda>L.
         let node = (if after then \<lparr>n_prev = old_node, n_next = n_next old, n_value = v\<rparr>
                     else \<lparr>n_prev = n_prev old, n_next = old_node, n_value = v\<rparr>) in
         bind_res (set_list (new_node h a node) l (\<lambda>L.
           if after then (if l_tail L = old_node then L\<lparr>l_tail := Some a\<rparr> else L)
           else (if l_head L = old_node then L\<lparr>l_head := Some a\<rparr> else L))) (\<lambda>h.
         bind_res (if n_prev node \<noteq> NULL then set_node h (n_prev node) (\<lambda>n. n\<lparr>n_next := Some a\<rparr>) else Inr h) (\<lambda>h.
         bind_res (if n_next node \<noteq> NULL then set_node h (n_next node) (\<lambda>n. n\<lparr>n_prev := Some a\<rparr>) else Inr h) (\<lambda>h.
         bind_res (set_list h l (\<lambda>L. L\<lparr>l_len := l_len L + 1\<rparr>)) (\<lambda>h.
         Inr (l, h))))))))"

definition listDelNode :: "lheap \<Rightarrow> ptr \<Rightarrow> ptr \<Rightarrow> lheap res" where
  "listDelNode h l node =
     bind_res (get_node h node) (\<lambda>n.
     bind_res (if n_prev n \<noteq> NULL then set_node h (n_prev n) (\<lambda>m. m\<lparr>n_next := n_next n\<rparr>)
               else set_list h l (\<lambda>L. L\<lparr>l_head := n_next n\<rparr>)) (\<lambda>h.
     bind_res (if n_next n \<noteq> NULL then set_node h (n_next n) (\<lambda>m. m\<lparr>n_prev := n_prev n\<rparr>)
               else set_list h l (\<lambda>L. L\<lparr>l_tail := n_prev n\<rparr>)) (\<lambda>h.
     bind_res (get_list h l) (\<lambda>L.
     let h = call_free (l_free L) (n_value n) h in
     bind_res (dealloc (nodes h) node) (\<lambda>m.
     set_list (h\<lparr>nodes := m\<rparr>) l (\<lambda>L. L\<lparr>l_len := l_len L - 1\<rparr>))))))"

definition listGetIterator :: "(nat \<Rightarrow> bool) \<Rightarrow> lheap \<Rightarrow> ptr \<Rightarrow> int \<Rightarrow> (ptr \<times> lheap) res" where
  "listGetIterator mem h l direction = (case malloc mem h of
       (None, h) \<Rightarrow> Inr (NULL, h)
     | (Some a, h) \<Rightarrow>
         bind_res (get_list h l) (\<lambda>L.
         Inr (Some a, h\<lparr>iters := (iters h)(a \<mapsto>
           \<lparr>i_next = (if direction = AL_START_HEAD then l_head L else l_tail L), i_direction = direction\<rparr>)\<rparr>)))"

definition listNext :: "lheap \<Rightarrow> ptr \<Rightarrow> (ptr \<times> lheap) res" where
  "listNext h iter =
     bind_res (deref (iters h) iter) (\<lambda>it.
     if i_next it = NULL then Inr (NULL, h)
     else bind_res (get_node h (i_next it)) (\<lambda>current.
          bind_res (assign (iters h) iter (\<lambda>it.
            it\<lparr>i_next := if i_direction it = AL_START_HEAD then n_next current else n_prev current\<rparr>)) (\<lambda>m.
          Inr (i_next it, h\<lparr>iters := m\<rparr>))))"

definition listReleaseIterator :: "lheap \<Rightarrow> ptr \<Rightarrow> lheap res" where
  "listReleaseIterator h iter = bind_res (dealloc (iters h) iter) (\<lambda>m. Inr (h\<lparr>iters := m\<rparr>))"

definition dup_value :: "(nat \<Rightarrow> val \<Rightarrow> val) option \<Rightarrow> val \<Rightarrow> lheap \<Rightarrow> val option \<times> lheap" where
  \<comment> \<open>the value for the copy, \<open>None\<close> when the copy function returned NULL\<close>
  "dup_value d v h = (case d of
       None \<Rightarrow> (Some v, h)
     | Some f \<Rightarrow> (let w = f (ticks h) v; h = h\<lparr>ticks := ticks h + 1\<rparr> in
         if w = None then (None, h) else (Some w, h\<lparr>made := made h @ [w]\<rparr>)))"

definition abort_dup :: "lheap \<Rightarrow> ptr \<Rightarrow> ptr \<Rightarrow> (ptr \<times> lheap) res" where
  "abort_dup h copy iter =
     bind_res (listRelease h copy) (\<lambda>h. bind_res (listReleaseIterator h iter) (\<lambda>h. Inr (NULL, h)))"

fun dup_loop :: "nat \<Rightarrow> (nat \<Rightarrow> bool) \<Rightarrow> lheap \<Rightarrow> ptr \<Rightarrow> ptr \<Rightarrow> (ptr \<times> lheap) res" where
  "dup_loop 0 mem h copy iter = Inl Diverges"
| "dup_loop (Suc fuel) mem h copy iter =
     bind_res (listNext h iter) (\<lambda>(node, h).
     if node = NULL then bind_res (listReleaseIterator h iter) (\<lambda>h. Inr (copy, h))
     else bind_res (get_list h copy) (\<lambda>L.
          bind_res (get_node h node) (\<lambda>n.
          case dup_value (l_dup L) (n_value n) h of
            (None, h) \<Rightarrow> abort_dup h copy iter
          | (Some v, h) \<Rightarrow>
              bind_res (listAddNodeTail mem h copy v) (\<lambda>(r, h).
              if r = NULL then abort_dup h copy iter else dup_loop fuel mem h copy iter))))"

definition listDup :: "(nat \<Rightarrow> bool) \<Rightarrow> lheap \<Rightarrow> ptr \<Rightarrow> (ptr \<times> lheap) res" where
  "listDup mem h orig = (case listCreate mem h of
       (None, h) \<Rightarrow> Inl MissingReturn
     | (copy, h) \<Rightarrow>
         bind_res (get_list h orig) (\<lambda>G.
         bind_res (set_list h copy (\<lambda>L. L\<lparr>l_dup := l_dup G, l_free := l_free G, l_match := l_match G\<rparr>)) (\<lambda>h.
         bind_res (listGetIterator mem h orig AL_START_HEAD) (\<lambda>(iter, h).
         dup_loop (Suc (lbrk h)) mem h copy iter))))"

definition matches :: "(val \<Rightarrow> val \<Rightarrow> val) option \<Rightarrow> val \<Rightarrow> val \<Rightarrow> bool" where
  "matches mt key v = (case mt of Some f \<Rightarrow> f v key \<noteq> None | None \<Rightarrow> key = v)"

fun search_loop :: "nat \<Rightarrow> lheap \<Rightarrow> ptr \<Rightarrow> ptr \<Rightarrow> val \<Rightarrow> (ptr \<times> lheap) res" where
  "search_loop 0 h l iter key = Inl Diverges"
| "search_loop (Suc fuel) h l iter key =
     bind_res (listNext h iter) (\<lambda>(node, h).
     if node = NULL then bind_res (listReleaseIterator h iter) (\<lambda>h. Inr (NULL, h))
     else bind_res (get_list h l) (\<lambda>L.
          bind_res (get_node h node) (\<lambda>n.
          if matches (l_match L) key (n_value n)
          then bind_res (listReleaseIterator h iter) (\<lambda>h. Inr (node, h))
          else search_loop fuel h l iter key)))"

definition listSearchKey :: "(nat \<Rightarrow> bool) \<Rightarrow> lheap \<Rightarrow> ptr \<Rightarrow> val \<Rightarrow> (ptr \<times> lheap) res" where
  "listSearchKey mem h l key =
     bind_res (listGetIterator mem h l AL_START_HEAD) (\<lambda>(iter, h).
     search_loop (Suc (lbrk h)) h l iter key)"

primrec walk :: "(lnode \<Rightarrow> ptr) \<Rightarrow> lheap \<Rightarrow> nat \<Rightarrow> ptr \<Rightarrow> ptr res" where
  \<comment> \<open>\<^verbatim>\<open>while (index-- && n) n = n->next\<close>, or \<^verbatim>\<open>prev\<close>\<close>
  "walk f h 0 n = Inr n"
| "walk f h (Suc index) n =
     (if n = NULL then Inr n else bind_res (get_node h n) (\<lambda>x. walk f h index (f x)))"

definition LONG_MIN :: int where "LONG_MIN = - (2 ^ 63)"

definition listIndex :: "lheap \<Rightarrow> ptr \<Rightarrow> int \<Rightarrow> ptr res" where
  "listIndex h l index =
     (if index < 0
      then check (index \<noteq> LONG_MIN) SignedOverflow (
           bind_res (get_list h l) (\<lambda>L. walk n_prev h (nat (- index - 1)) (l_tail L)))
      else bind_res (get_list h l) (\<lambda>L. walk n_next h (nat index) (l_head L)))"

definition listRewind :: "lheap \<Rightarrow> ptr \<Rightarrow> ptr \<Rightarrow> lheap res" where
  "listRewind h l li =
     bind_res (get_list h l) (\<lambda>L.
     bind_res (assign (iters h) li (\<lambda>i. i\<lparr>i_direction := AL_START_HEAD, i_next := l_head L\<rparr>)) (\<lambda>m.
     Inr (h\<lparr>iters := m\<rparr>)))"

definition listRewindTail :: "lheap \<Rightarrow> ptr \<Rightarrow> ptr \<Rightarrow> lheap res" where
  "listRewindTail h l li =
     bind_res (get_list h l) (\<lambda>L.
     bind_res (assign (iters h) li (\<lambda>i. i\<lparr>i_direction := AL_START_TAIL, i_next := l_tail L\<rparr>)) (\<lambda>m.
     Inr (h\<lparr>iters := m\<rparr>)))"

definition listRotate :: "lheap \<Rightarrow> ptr \<Rightarrow> lheap res" where
  "listRotate h l =
     bind_res (get_list h l) (\<lambda>L.
     if l_len L \<le> 1 then Inr h
     else bind_res (get_node h (l_tail L)) (\<lambda>t.
          bind_res (set_list h l (\<lambda>L. L\<lparr>l_tail := n_prev t\<rparr>)) (\<lambda>h.
          bind_res (set_node h (n_prev t) (\<lambda>n. n\<lparr>n_next := NULL\<rparr>)) (\<lambda>h.
          bind_res (set_node h (l_tail L) (\<lambda>n. n\<lparr>n_next := l_head L, n_prev := NULL\<rparr>)) (\<lambda>h.
          bind_res (set_node h (l_head L) (\<lambda>n. n\<lparr>n_prev := l_tail L\<rparr>)) (\<lambda>h.
          set_list h l (\<lambda>M. M\<lparr>l_head := l_tail L\<rparr>)))))))"

section \<open>Representation\<close>

fun dl :: "(addr \<rightharpoonup> lnode) \<Rightarrow> ptr \<Rightarrow> addr list \<Rightarrow> val list \<Rightarrow> ptr \<Rightarrow> bool" where
  \<comment> \<open>the nodes \<open>as\<close> with the values \<open>vs\<close>, linked both ways between \<open>p\<close> and \<open>q\<close>\<close>
  "dl m p [] [] q = True"
| "dl m p (a # as) (v # vs) q =
     (m a = Some \<lparr>n_prev = p, n_next = hd_ptr as q, n_value = v\<rparr> \<and> dl m (Some a) as vs q)"
| "dl m p _ _ q = False"

definition list_at :: "lheap \<Rightarrow> addr \<Rightarrow> addr list \<Rightarrow> val list \<Rightarrow> bool" where
  "list_at h l as vs \<longleftrightarrow> (\<exists>L. lists h l = Some L \<and> l_head L = hd_ptr as NULL \<and>
     l_tail L = last_ptr as NULL \<and> l_len L = of_nat (length as) \<and> length as < 2 ^ 64 \<and>
     dl (nodes h) NULL as vs NULL)"

definition heap_ok :: "lheap \<Rightarrow> bool" where
  "heap_ok h \<longleftrightarrow> (\<forall>a \<ge> lbrk h. nodes h a = None \<and> lists h a = None \<and> iters h a = None)"

definition only :: "addr set \<Rightarrow> addr set \<Rightarrow> lheap \<Rightarrow> lheap \<Rightarrow> bool" where
  \<comment> \<open>of the memory, only the nodes \<open>A\<close> and the headers \<open>B\<close> have changed\<close>
  "only A B h h' \<longleftrightarrow> (\<forall>a. a \<notin> A \<longrightarrow> nodes h' a = nodes h a) \<and>
     (\<forall>a. a \<notin> B \<longrightarrow> lists h' a = lists h a) \<and> iters h' = iters h \<and> lbrk h \<le> lbrk h'"

lemma dl_length: "dl m p as vs q \<Longrightarrow> length vs = length as"
  by (induction m p as vs q rule: dl.induct) auto

lemma dl_append:
  "length vs = length as \<Longrightarrow> dl m p (as @ bs) (vs @ ws) q \<longleftrightarrow>
     dl m p as vs (hd_ptr bs q) \<and> dl m (last_ptr as p) bs ws q"
proof (induction as arbitrary: p vs)
  case (Cons a as)
  then show ?case by (cases vs) (auto simp: hd_ptr_append last_ptr_def)
qed simp

lemma dl_upd [simp]: "a \<notin> set as \<Longrightarrow> dl (m(a := n)) p as vs q = dl m p as vs q"
  by (induction m p as vs q rule: dl.induct) auto

lemma dl_cong: "(\<And>a. a \<in> set as \<Longrightarrow> m' a = m a) \<Longrightarrow> dl m' p as vs q = dl m p as vs q"
  by (induction m p as vs q rule: dl.induct) auto

lemma dl_lseg: "dl m p as vs q \<Longrightarrow> lseg n_next m (hd_ptr as q) as q"
  by (induction m p as vs q rule: dl.induct) auto

lemma dl_distinct: "dl m p as vs NULL \<Longrightarrow> distinct as"
  using lseg_distinct [OF dl_lseg] .

lemma dl_dom: "dl m p as vs q \<Longrightarrow> a \<in> set as \<Longrightarrow> m a \<noteq> None"
  by (induction m p as vs q rule: dl.induct) auto

lemma list_atE:
  assumes "list_at h l as vs"
  obtains L where "lists h l = Some L" and "l_head L = hd_ptr as NULL" and "l_tail L = last_ptr as NULL"
    and "l_len L = of_nat (length as)" and "length as < 2 ^ 64" and "dl (nodes h) NULL as vs NULL"
  using assms by (auto simp: list_at_def)

lemma len_zero_iff: "n < 2 ^ 64 \<Longrightarrow> (of_nat n :: 64 word) = 0 \<longleftrightarrow> n = 0"
  by (simp add: word_of_nat_eq_0_iff nat_dvd_not_less) (metis dvd_0_right nat_dvd_not_less not_gr_zero)

lemma list_at_nodes: "list_at h l as vs \<Longrightarrow> heap_ok h \<Longrightarrow> a \<in> set as \<Longrightarrow> a < lbrk h"
  by (metis dl_dom heap_ok_def list_atE not_le)

lemma list_at_header: "list_at h l as vs \<Longrightarrow> heap_ok h \<Longrightarrow> l < lbrk h"
  by (metis heap_ok_def list_atE not_le option.distinct(1))

lemma list_at_distinct: "list_at h l as vs \<Longrightarrow> distinct as"
  by (metis dl_distinct list_atE)

lemma list_at_length: "list_at h l as vs \<Longrightarrow> length vs = length as"
  by (metis dl_length list_atE)

lemma list_at_other:
  \<comment> \<open>work on other nodes and headers does not touch the list\<close>
  assumes "list_at h l as vs" and "only A B h h'" and "set as \<inter> A = {}" and "l \<notin> B"
  shows "list_at h' l as vs"
proof -
  have "dl (nodes h') NULL as vs NULL \<longleftrightarrow> dl (nodes h) NULL as vs NULL"
    using assms(2,3) by (intro dl_cong) (auto simp: only_def)
  then show ?thesis using assms by (simp add: list_at_def only_def)
qed

lemma only_refl [simp]: "only A B h h"
  by (simp add: only_def)

lemma only_trans: "only A B h h' \<Longrightarrow> only A B h' h'' \<Longrightarrow> only A B h h''"
  by (auto simp: only_def)

lemma only_mono: "only A B h h' \<Longrightarrow> A \<subseteq> A' \<Longrightarrow> B \<subseteq> B' \<Longrightarrow> only A' B' h h'"
  by (auto simp: only_def)

lemma dl_set_prev:
  "dl m p (a # as) (v # vs) q \<Longrightarrow> a \<notin> set as \<Longrightarrow>
   dl (m(a \<mapsto> \<lparr>n_prev = p', n_next = hd_ptr as q, n_value = v\<rparr>)) p' (a # as) (v # vs) q"
  by simp

lemma dl_set_next:
  assumes "dl m p (as @ [a]) (vs @ [v]) q" and "length vs = length as" and "a \<notin> set as"
  shows "m a = Some \<lparr>n_prev = last_ptr as p, n_next = q, n_value = v\<rparr>"
    and "dl (m(a \<mapsto> \<lparr>n_prev = last_ptr as p, n_next = q', n_value = v\<rparr>)) p (as @ [a]) (vs @ [v]) q'"
  using assms by (auto simp: dl_append)

section \<open>Adding\<close>

definition header :: "lheap \<Rightarrow> addr \<Rightarrow> (nat \<Rightarrow> val \<Rightarrow> val) option \<times> nat option \<times> (val \<Rightarrow> val \<Rightarrow> val) option" where
  \<comment> \<open>the client's functions of a list\<close>
  "header h l = (case lists h l of Some L \<Rightarrow> (l_dup L, l_free L, l_match L) | None \<Rightarrow> (None, None, None))"

lemma malloc_ok: "mem (ticks h) \<Longrightarrow> malloc mem h = (Some (lbrk h), h\<lparr>ticks := ticks h + 1, lbrk := lbrk h + 1\<rparr>)"
  by (simp add: malloc_def)

lemmas heap_defs = get_list_def set_list_def get_node_def set_node_def new_node_def

abbreviation grown :: "lheap \<Rightarrow> addr \<Rightarrow> addr list \<Rightarrow> lheap \<Rightarrow> bool" where
  \<comment> \<open>one node was allocated for the list with the nodes \<open>as\<close>, and nothing else changed\<close>
  "grown h l as h' \<equiv> heap_ok h' \<and> only (set (lbrk h # as)) {l} h h' \<and> header h' l = header h l \<and> freed h' = freed h \<and>
    ticks h' = Suc (ticks h) \<and> lbrk h' = Suc (lbrk h)"

lemma grownI:
  assumes ok: "heap_ok h" and l: "lists h l = Some L" and as: "\<And>a. a \<in> set as \<Longrightarrow> nodes h a \<noteq> None"
    and h': "h' = h\<lparr>ticks := ticks h + 1, lbrk := lbrk h + 1, nodes := m, lists := (lists h)(l \<mapsto> L')\<rparr>"
    and m: "\<And>a. a \<notin> set (lbrk h # as) \<Longrightarrow> m a = nodes h a" and L': "(l_dup L', l_free L', l_match L') = (l_dup L, l_free L, l_match L)"
  shows "grown h l as h'"
proof -
  have "l < lbrk h" using ok l by (metis heap_ok_def linorder_not_le option.distinct(1))
  moreover have "m a = None" if "lbrk h + 1 \<le> a" for a
    using that ok as m [of a] by (force simp: heap_ok_def)
  ultimately show ?thesis using ok l m L' unfolding h' by (auto simp: heap_ok_def only_def header_def)
qed

lemma add_first:
  assumes at: "list_at h l [] vs" and ok: "heap_ok h" and mem: "mem (ticks h)"
  shows "\<exists>h'. listAddNodeHead mem h (Some l) v = Inr (Some l, h') \<and> listAddNodeTail mem h (Some l) v = Inr (Some l, h') \<and>
    list_at h' l [lbrk h] [v] \<and> grown h l [] h'"
proof -
  obtain L where L: "lists h l = Some L" "l_len L = 0" using at by (auto elim: list_atE)
  let ?a = "lbrk h"
  let ?L = "L\<lparr>l_head := Some ?a, l_tail := Some ?a, l_len := 1\<rparr>"
  let ?m = "(nodes h)(?a \<mapsto> \<lparr>n_prev = NULL, n_next = NULL, n_value = v\<rparr>)"
  let ?h = "h\<lparr>ticks := ticks h + 1, lbrk := lbrk h + 1, nodes := ?m, lists := (lists h)(l \<mapsto> ?L)\<rparr>"
  have "listAddNodeHead mem h (Some l) v = Inr (Some l, ?h)" "listAddNodeTail mem h (Some l) v = Inr (Some l, ?h)"
    using L mem by (simp_all add: listAddNodeHead_def listAddNodeTail_def malloc_ok heap_defs)
  moreover have "list_at ?h l [?a] [v]" by (simp add: list_at_def)
  moreover have "grown h l [] ?h" by (rule grownI [OF ok L(1) _ refl]) simp_all
  ultimately show ?thesis by (intro exI [of _ ?h] conjI) simp_all
qed

lemma addHead_at:
  assumes at: "list_at h l as vs" and ok: "heap_ok h" and mem: "mem (ticks h)" and len: "Suc (length as) < 2 ^ 64"
  shows "\<exists>h'. listAddNodeHead mem h (Some l) v = Inr (Some l, h') \<and> list_at h' l (lbrk h # as) (v # vs) \<and> grown h l as h'"
proof (cases as)
  case Nil
  then show ?thesis using add_first [where mem = mem and v = v, OF at [unfolded Nil] ok mem] list_at_length [OF at] by auto
next
  case (Cons b as')
  obtain L where L: "lists h l = Some L" "l_head L = hd_ptr as NULL" "l_tail L = last_ptr as NULL"
      "l_len L = of_nat (length as)" "length as < 2 ^ 64" "dl (nodes h) NULL as vs NULL"
    using at by (rule list_atE)
  let ?a = "lbrk h"
  have new: "?a \<notin> set as" using list_at_nodes [OF at ok] by auto
  obtain w ws where vs': "vs = w # ws" using list_at_length [OF at] Cons by (cases vs) auto
  let ?m = "(nodes h)(?a \<mapsto> \<lparr>n_prev = NULL, n_next = Some b, n_value = v\<rparr>,
      b \<mapsto> \<lparr>n_prev = Some ?a, n_next = hd_ptr as' NULL, n_value = w\<rparr>)"
  let ?L = "L\<lparr>l_head := Some ?a, l_len := l_len L + 1\<rparr>"
  define h' where "h' = h\<lparr>ticks := ticks h + 1, lbrk := lbrk h + 1, nodes := ?m, lists := (lists h)(l \<mapsto> ?L)\<rparr>"
  have b: "nodes h b = Some \<lparr>n_prev = NULL, n_next = hd_ptr as' NULL, n_value = w\<rparr>" "b \<notin> set as'" "b \<noteq> ?a"
    using L(6) dl_distinct [OF L(6)] new by (auto simp: Cons vs')
  have "l_len L \<noteq> 0" using L(4,5) len_zero_iff [OF L(5)] Cons by simp
  then have "listAddNodeHead mem h (Some l) v = Inr (Some l, h')"
    using L(1,2) Cons mem b by (simp add: listAddNodeHead_def malloc_ok heap_defs h'_def Let_def)
  moreover have "list_at h' l (?a # as) (v # vs)"
    using L new b len unfolding list_at_def by (auto simp: h'_def Cons vs')
  moreover have "grown h l as h'"
    by (rule grownI [OF ok L(1) dl_dom [OF L(6)] h'_def]) (simp_all add: Cons)
  ultimately show ?thesis by blast
qed

lemma addTail_at:
  assumes at: "list_at h l as vs" and ok: "heap_ok h" and mem: "mem (ticks h)" and len: "Suc (length as) < 2 ^ 64"
  shows "\<exists>h'. listAddNodeTail mem h (Some l) v = Inr (Some l, h') \<and> list_at h' l (as @ [lbrk h]) (vs @ [v]) \<and> grown h l as h'"
proof (cases as rule: rev_cases)
  case Nil
  then show ?thesis using add_first [where mem = mem and v = v, OF at [unfolded Nil] ok mem] list_at_length [OF at] by auto
next
  case (snoc as' b)
  obtain L where L: "lists h l = Some L" "l_head L = hd_ptr as NULL" "l_tail L = last_ptr as NULL"
      "l_len L = of_nat (length as)" "length as < 2 ^ 64" "dl (nodes h) NULL as vs NULL"
    using at by (rule list_atE)
  let ?a = "lbrk h"
  have vs: "length vs = length as" by (rule list_at_length [OF at])
  then obtain w ws where vs': "vs = ws @ [w]" using snoc by (cases vs rule: rev_cases) auto
  let ?m = "(nodes h)(?a \<mapsto> \<lparr>n_prev = Some b, n_next = NULL, n_value = v\<rparr>,
      b \<mapsto> \<lparr>n_prev = last_ptr as' NULL, n_next = Some ?a, n_value = w\<rparr>)"
  let ?L = "L\<lparr>l_tail := Some ?a, l_len := l_len L + 1\<rparr>"
  define h' where "h' = h\<lparr>ticks := ticks h + 1, lbrk := lbrk h + 1, nodes := ?m, lists := (lists h)(l \<mapsto> ?L)\<rparr>"
  have "?a \<notin> set as" using list_at_nodes [OF at ok] by auto
  then have dist: "b \<notin> set as'" "b \<noteq> ?a" "?a \<notin> set as'" using dl_distinct [OF L(6)] by (auto simp: snoc)
  have b: "nodes h b = Some \<lparr>n_prev = last_ptr as' NULL, n_next = NULL, n_value = w\<rparr>"
    using dl_set_next(1) [of "nodes h" NULL as' b ws w NULL] L(6) dist(1) vs by (simp add: snoc vs')
  have "l_len L \<noteq> 0" using L(4,5) len_zero_iff [OF L(5)] snoc by simp
  then have "listAddNodeTail mem h (Some l) v = Inr (Some l, h')"
    using L(1,3) snoc mem b dist by (simp add: listAddNodeTail_def malloc_ok heap_defs h'_def Let_def)
  moreover have "dl ?m NULL (as' @ [b, ?a]) (ws @ [w, v]) NULL"
    using L(6) dist vs by (simp add: snoc vs' dl_append)
  then have "list_at h' l (as @ [?a]) (vs @ [v])"
    using L len unfolding list_at_def by (simp add: h'_def snoc vs' hd_ptr_append last_ptr_def)
  moreover have "grown h l as h'"
    by (rule grownI [OF ok L(1) dl_dom [OF L(6)] h'_def]) (simp_all add: snoc)
  ultimately show ?thesis by blast
qed

lemma add_no_memory:
  assumes "\<not> mem (ticks h)"
  shows "listAddNodeHead mem h l v = Inr (NULL, h\<lparr>ticks := ticks h + 1\<rparr>)"
    and "listAddNodeTail mem h l v = Inr (NULL, h\<lparr>ticks := ticks h + 1\<rparr>)"
    and "listInsertNode mem h l p v after = Inr (NULL, h\<lparr>ticks := ticks h + 1\<rparr>)"
  using assms by (simp_all add: malloc_def listAddNodeHead_def listAddNodeTail_def listInsertNode_def)

section \<open>Relinking\<close>

definition link_next :: "(addr \<rightharpoonup> lnode) \<Rightarrow> addr list \<Rightarrow> ptr \<Rightarrow> (addr \<rightharpoonup> lnode)" where
  \<comment> \<open>the last of the nodes, if any, points forward to \<open>q\<close>\<close>
  "link_next m as q = (if as = [] then m else m(last as := map_option (\<lambda>n. n\<lparr>n_next := q\<rparr>) (m (last as))))"

definition link_prev :: "(addr \<rightharpoonup> lnode) \<Rightarrow> addr list \<Rightarrow> ptr \<Rightarrow> (addr \<rightharpoonup> lnode)" where
  \<comment> \<open>the first of the nodes, if any, points back to \<open>p\<close>\<close>
  "link_prev m as p = (if as = [] then m else m(hd as := map_option (\<lambda>n. n\<lparr>n_prev := p\<rparr>) (m (hd as))))"

lemma link_outside [simp]:
  "a \<notin> set as \<Longrightarrow> link_next m as q a = m a" "a \<notin> set as \<Longrightarrow> link_prev m as q a = m a"
  by (auto simp: link_next_def link_prev_def)

lemma dom_link [simp]: "(link_next m as q a = None) = (m a = None)" "(link_prev m as q a = None) = (m a = None)"
  by (auto simp: link_next_def link_prev_def)

lemma dl_link_other [simp]:
  "set as \<inter> set bs = {} \<Longrightarrow> dl (link_next m bs r) p as vs q = dl m p as vs q"
  "set as \<inter> set bs = {} \<Longrightarrow> dl (link_prev m bs r) p as vs q = dl m p as vs q"
  by (auto intro!: dl_cong simp: disjoint_iff)

lemma dl_Nil: "dl m p [] vs q \<longleftrightarrow> vs = []"
  by (cases vs) simp_all

lemma dl_link_next:
  assumes "dl m p as vs q" and "distinct as"
  shows "dl (link_next m as r) p as vs r"
proof (cases as rule: rev_cases)
  case (snoc as' a)
  then obtain v ws where "vs = ws @ [v]" "length ws = length as'"
    using dl_length [OF assms(1)] by (cases vs rule: rev_cases) auto
  then show ?thesis using assms snoc by (simp add: link_next_def dl_append)
qed (use assms in \<open>simp add: link_next_def dl_Nil\<close>)

lemma dl_link_prev:
  assumes "dl m p as vs q" and "distinct as"
  shows "dl (link_prev m as r) r as vs q"
proof (cases as)
  case (Cons a as')
  then obtain v ws where "vs = v # ws" using dl_length [OF assms(1)] by (cases vs) auto
  then show ?thesis using assms Cons by (simp add: link_prev_def)
qed (use assms in \<open>simp add: link_prev_def dl_Nil\<close>)

lemma set_node_link:
  "as \<noteq> [] \<Longrightarrow> nodes h (last as) \<noteq> None \<Longrightarrow>
     set_node h (last_ptr as NULL) (\<lambda>n. n\<lparr>n_next := q\<rparr>) = Inr (h\<lparr>nodes := link_next (nodes h) as q\<rparr>)"
  "as \<noteq> [] \<Longrightarrow> nodes h (hd as) \<noteq> None \<Longrightarrow>
     set_node h (hd_ptr as NULL) (\<lambda>n. n\<lparr>n_prev := p\<rparr>) = Inr (h\<lparr>nodes := link_prev (nodes h) as p\<rparr>)"
  by (cases as, auto simp: set_node_def link_next_def link_prev_def last_ptr_def)+

section \<open>Deleting\<close>

lemma unlink_front:
  assumes "lists h l = Some L" and "as \<noteq> [] \<Longrightarrow> nodes h (last as) \<noteq> None" and "as \<noteq> [] \<Longrightarrow> l_head L = p"
    and "as = [] \<Longrightarrow> p = q"
  shows "(if last_ptr as NULL \<noteq> NULL then set_node h (last_ptr as NULL) (\<lambda>m. m\<lparr>n_next := q\<rparr>)
      else set_list h (Some l) (\<lambda>L. L\<lparr>l_head := q\<rparr>)) =
    Inr (h\<lparr>nodes := link_next (nodes h) as q, lists := (lists h)(l \<mapsto> L\<lparr>l_head := p\<rparr>)\<rparr>)"
proof (cases "as = []")
  case True
  then show ?thesis using assms(1,4) by (simp add: set_list_def link_next_def)
next
  case False
  then have "(lists h)(l \<mapsto> L\<lparr>l_head := p\<rparr>) = lists h" using assms(1,3) by (simp add: fun_upd_idem)
  then show ?thesis using set_node_link(1) [OF False assms(2) [OF False], of q] False by simp
qed

lemma unlink_back:
  assumes "lists h l = Some L" and "bs \<noteq> [] \<Longrightarrow> nodes h (hd bs) \<noteq> None" and "bs \<noteq> [] \<Longrightarrow> l_tail L = q"
    and "bs = [] \<Longrightarrow> q = p"
  shows "(if hd_ptr bs NULL \<noteq> NULL then set_node h (hd_ptr bs NULL) (\<lambda>m. m\<lparr>n_prev := p\<rparr>)
      else set_list h (Some l) (\<lambda>L. L\<lparr>l_tail := p\<rparr>)) =
    Inr (h\<lparr>nodes := link_prev (nodes h) bs p, lists := (lists h)(l \<mapsto> L\<lparr>l_tail := q\<rparr>)\<rparr>)"
proof (cases "bs = []")
  case True
  then show ?thesis using assms(1,4) by (simp add: set_list_def link_prev_def)
next
  case False
  then have "(lists h)(l \<mapsto> L\<lparr>l_tail := q\<rparr>) = lists h" using assms(1,3) by (simp add: fun_upd_idem)
  then show ?thesis using set_node_link(2) [OF False, of h p] assms(2) False by simp
qed

lemma dl_unlink:
  assumes "dl m NULL (as @ b # bs) (vs @ w # ws) NULL" and "length vs = length as"
  shows "dl ((link_prev (link_next m as (hd_ptr bs NULL)) bs (last_ptr as NULL))(b := None)) NULL (as @ bs) (vs @ ws) NULL"
proof -
  let ?p = "last_ptr as NULL" and ?q = "hd_ptr bs NULL"
  let ?m = "link_prev (link_next m as ?q) bs ?p"
  have dist: "distinct (as @ b # bs)" by (rule dl_distinct [OF assms(1)])
  have "dl m NULL as vs (Some b)" "dl m (Some b) bs ws NULL" using assms by (simp_all add: dl_append)
  then have "dl ?m NULL as vs ?q" "dl ?m ?p bs ws NULL"
    using dl_link_next [of m NULL as vs "Some b" ?q] dl_link_prev [of "link_next m as ?q" "Some b" bs ws NULL ?p] dist
    by (auto simp: Int_commute)
  then show ?thesis using dist assms(2) by (simp add: dl_append)
qed

lemma delNode_run:
  assumes L: "lists h l = Some L" "l_head L = hd_ptr (as @ b # bs) NULL" "l_tail L = last_ptr (as @ b # bs) NULL"
    and seg: "dl (nodes h) NULL (as @ b # bs) (vs @ w # ws) NULL" and vs: "length vs = length as"
  shows "listDelNode h (Some l) (Some b) = Inr ((call_free (l_free L) w h)\<lparr>
    nodes := (link_prev (link_next (nodes h) as (hd_ptr bs NULL)) bs (last_ptr as NULL))(b := None),
    lists := (lists h)(l \<mapsto> L\<lparr>l_head := hd_ptr (as @ bs) NULL, l_tail := last_ptr (as @ bs) NULL, l_len := l_len L - 1\<rparr>)\<rparr>)"
proof -
  let ?p = "last_ptr as NULL" and ?q = "hd_ptr bs NULL"
  have b: "nodes h b = Some \<lparr>n_prev = ?p, n_next = ?q, n_value = w\<rparr>" using seg vs by (simp add: dl_append)
  have dom: "as \<noteq> [] \<Longrightarrow> nodes h (last as) \<noteq> None" "bs \<noteq> [] \<Longrightarrow> nodes h (hd bs) \<noteq> None"
    using dl_dom [OF seg, of "last as"] dl_dom [OF seg, of "hd bs"] by simp_all
  define L1 where "L1 = L\<lparr>l_head := hd_ptr (as @ bs) NULL\<rparr>"
  define L2 where "L2 = L1\<lparr>l_tail := last_ptr (as @ bs) NULL\<rparr>"
  define m1 where "m1 = link_next (nodes h) as ?q"
  define m2 where "m2 = link_prev m1 bs ?p"
  have ends: "as \<noteq> [] \<Longrightarrow> l_head L = hd_ptr (as @ bs) NULL" "bs \<noteq> [] \<Longrightarrow> l_tail L1 = last_ptr (as @ bs) NULL"
    using L(2,3) by (cases as; simp add: last_ptr_def L1_def)+
  have s1: "(if ?p \<noteq> NULL then set_node h ?p (\<lambda>m. m\<lparr>n_next := ?q\<rparr>)
      else set_list h (Some l) (\<lambda>L. L\<lparr>l_head := ?q\<rparr>)) = Inr (h\<lparr>nodes := m1, lists := (lists h)(l \<mapsto> L1)\<rparr>)"
    unfolding m1_def L1_def by (rule unlink_front [OF L(1) dom(1) ends(1)]) simp_all
  have s2: "(if ?q \<noteq> NULL then set_node (h\<lparr>nodes := m1, lists := (lists h)(l \<mapsto> L1)\<rparr>) ?q (\<lambda>m. m\<lparr>n_prev := ?p\<rparr>)
      else set_list (h\<lparr>nodes := m1, lists := (lists h)(l \<mapsto> L1)\<rparr>) (Some l) (\<lambda>L. L\<lparr>l_tail := ?p\<rparr>)) =
      Inr (h\<lparr>nodes := m2, lists := (lists h)(l \<mapsto> L2)\<rparr>)"
    using unlink_back [of "h\<lparr>nodes := m1, lists := (lists h)(l \<mapsto> L1)\<rparr>" l L1 bs "last_ptr (as @ bs) NULL" ?p] dom(2) ends(2)
    by (simp add: m1_def m2_def L2_def)
  have "l_free L2 = l_free L" "l_len L2 = l_len L" "m2 b \<noteq> None" using b by (simp_all add: L1_def L2_def m2_def m1_def)
  then have "listDelNode h (Some l) (Some b) =
      Inr ((call_free (l_free L) w h)\<lparr>nodes := m2(b := None), lists := (lists h)(l \<mapsto> L2\<lparr>l_len := l_len L - 1\<rparr>)\<rparr>)"
    unfolding listDelNode_def get_node_def deref_simps(2) [of "nodes h", OF b] bind_res_simps lnode.select_convs s1 s2
    by (cases "l_free L") (auto simp: get_list_def set_list_def call_free_def)
  then show ?thesis by (simp add: m1_def m2_def L1_def L2_def)
qed

lemma delNode_at:
  assumes at: "list_at h l (as @ b # bs) (vs @ w # ws)" and ok: "heap_ok h" and vs: "length vs = length as"
  shows "\<exists>h'. listDelNode h (Some l) (Some b) = Inr h' \<and> list_at h' l (as @ bs) (vs @ ws) \<and> heap_ok h' \<and>
    only (set (as @ b # bs)) {l} h h' \<and> header h' l = header h l \<and> nodes h' b = None \<and>
    freed h' = freed h @ (case fst (snd (header h l)) of None \<Rightarrow> [] | Some f \<Rightarrow> [(f, w)]) \<and>
    ticks h' = ticks h \<and> lbrk h' = lbrk h"
proof -
  obtain L where L: "lists h l = Some L" "l_head L = hd_ptr (as @ b # bs) NULL" "l_tail L = last_ptr (as @ b # bs) NULL"
      "l_len L = of_nat (length (as @ b # bs))" "length (as @ b # bs) < 2 ^ 64"
      "dl (nodes h) NULL (as @ b # bs) (vs @ w # ws) NULL"
    using at by (rule list_atE)
  define h' where "h' = (call_free (l_free L) w h)\<lparr>
    nodes := (link_prev (link_next (nodes h) as (hd_ptr bs NULL)) bs (last_ptr as NULL))(b := None),
    lists := (lists h)(l \<mapsto> L\<lparr>l_head := hd_ptr (as @ bs) NULL, l_tail := last_ptr (as @ bs) NULL, l_len := l_len L - 1\<rparr>)\<rparr>"
  have run: "listDelNode h (Some l) (Some b) = Inr h'"
    unfolding h'_def by (rule delNode_run [OF L(1-3,6) vs])
  have at': "list_at h' l (as @ bs) (vs @ ws)"
    using L(4,5) dl_unlink [OF L(6) vs] by (simp add: list_at_def h'_def)
  have "heap_ok h'" "only (set (as @ b # bs)) {l} h h'"
    using ok list_at_header [OF at ok] by (auto simp: heap_ok_def only_def h'_def call_free_def split: option.splits)
  moreover have "header h' l = header h l" "nodes h' b = None"
      "freed h' = freed h @ (case fst (snd (header h l)) of None \<Rightarrow> [] | Some f \<Rightarrow> [(f, w)])"
      "ticks h' = ticks h" "lbrk h' = lbrk h"
    using L(1) by (auto simp: h'_def header_def call_free_def split: option.splits)
  ultimately show ?thesis using run at' by blast
qed

section \<open>Inserting\<close>

lemma link_next_if:
  "(as \<noteq> [] \<Longrightarrow> nodes h (last as) \<noteq> None) \<Longrightarrow>
   (if last_ptr as NULL \<noteq> NULL then set_node h (last_ptr as NULL) (\<lambda>n. n\<lparr>n_next := q\<rparr>) else Inr h) =
     Inr (h\<lparr>nodes := link_next (nodes h) as q\<rparr>)"
  by (cases "as = []") (simp_all add: set_node_link link_next_def)

lemma link_prev_if:
  "(as \<noteq> [] \<Longrightarrow> nodes h (hd as) \<noteq> None) \<Longrightarrow>
   (if hd_ptr as NULL \<noteq> NULL then set_node h (hd_ptr as NULL) (\<lambda>n. n\<lparr>n_prev := p\<rparr>) else Inr h) =
     Inr (h\<lparr>nodes := link_prev (nodes h) as p\<rparr>)"
  by (cases "as = []") (simp_all add: set_node_link link_prev_def)

lemma dl_last: "dl m p as vs q \<Longrightarrow> as \<noteq> [] \<Longrightarrow> \<exists>n. m (last as) = Some n \<and> n_next n = q"
  by (induction m p as vs q rule: dl.induct) (auto simp: hd_ptr_def split: list.splits)

lemma dl_first: "dl m p as vs q \<Longrightarrow> as \<noteq> [] \<Longrightarrow> \<exists>n. m (hd as) = Some n \<and> n_prev n = p"
  by (induction m p as vs q rule: dl.induct) auto

lemma dl_insert:
  assumes "dl m NULL (as @ bs) (vs @ ws) NULL" and "length vs = length as" and "c \<notin> set (as @ bs)"
    and "m c = Some \<lparr>n_prev = last_ptr as NULL, n_next = hd_ptr bs NULL, n_value = v\<rparr>"
  shows "dl (link_prev (link_next m as (Some c)) bs (Some c)) NULL (as @ c # bs) (vs @ v # ws) NULL"
proof -
  let ?m = "link_prev (link_next m as (Some c)) bs (Some c)"
  have "distinct (as @ bs)" by (rule dl_distinct [OF assms(1)])
  moreover have "dl m NULL as vs (hd_ptr bs NULL)" "dl m (last_ptr as NULL) bs ws NULL"
    using assms(1,2) by (simp_all add: dl_append)
  ultimately have "dl ?m NULL as vs (Some c)" "dl ?m (Some c) bs ws NULL"
    using dl_link_next [of m NULL as vs _ "Some c"] dl_link_prev [of "link_next m as (Some c)" _ bs ws NULL "Some c"]
    by (auto simp: Int_commute)
  then show ?thesis using assms(2-4) by (simp add: dl_append)
qed

lemma insert_header:
  assumes "distinct (as @ bs)" and "l_head L = hd_ptr (as @ bs) NULL" and "l_tail L = last_ptr (as @ bs) NULL"
    and "if after then as \<noteq> [] \<and> old = last as else bs \<noteq> [] \<and> old = hd bs"
  shows "(if after then (if l_tail L = Some old then L\<lparr>l_tail := Some c\<rparr> else L)
      else (if l_head L = Some old then L\<lparr>l_head := Some c\<rparr> else L)) =
    L\<lparr>l_head := hd_ptr (as @ c # bs) NULL, l_tail := last_ptr (as @ c # bs) NULL\<rparr>"
proof (cases after)
  case True
  then show ?thesis using assms
    by (cases as; cases bs rule: rev_cases) (auto simp: last_ptr_def)
next
  case False
  then show ?thesis using assms
    by (cases as) (auto simp: last_ptr_def hd_ptr_def split: list.splits)
qed

lemma insertNode_run:
  assumes L: "lists h l = Some L" "l_head L = hd_ptr (as @ bs) NULL" "l_tail L = last_ptr (as @ bs) NULL"
    and dl: "dl (nodes h) NULL (as @ bs) (vs @ ws) NULL" and vs: "length vs = length as" and mem: "mem (ticks h)"
    and old: "if after then as \<noteq> [] \<and> old = last as else bs \<noteq> [] \<and> old = hd bs"
    and m: "m = (nodes h)(lbrk h \<mapsto> \<lparr>n_prev = last_ptr as NULL, n_next = hd_ptr bs NULL, n_value = v\<rparr>)"
    and L1: "L1 = L\<lparr>l_head := hd_ptr (as @ lbrk h # bs) NULL, l_tail := last_ptr (as @ lbrk h # bs) NULL\<rparr>"
  shows "listInsertNode mem h (Some l) (Some old) v after = Inr (Some l, h\<lparr>ticks := ticks h + 1, lbrk := lbrk h + 1,
    nodes := link_prev (link_next m as (Some (lbrk h))) bs (Some (lbrk h)), lists := (lists h)(l \<mapsto> L1\<lparr>l_len := l_len L + 1\<rparr>)\<rparr>)"
proof -
  let ?c = "lbrk h" and ?p = "last_ptr as NULL" and ?q = "hd_ptr bs NULL"
  let ?node = "\<lparr>n_prev = ?p, n_next = ?q, n_value = v\<rparr>"
  have seg: "dl (nodes h) NULL as vs ?q" "dl (nodes h) ?p bs ws NULL" using dl vs by (simp_all add: dl_append)
  obtain n where n: "nodes h old = Some n" "after \<Longrightarrow> n_next n = ?q" "\<not> after \<Longrightarrow> n_prev n = ?p"
    using old dl_last [OF seg(1)] dl_first [OF seg(2)] by (cases after) auto
  have "after \<Longrightarrow> Some old = ?p" "\<not> after \<Longrightarrow> Some old = ?q"
    using old by (auto simp: last_ptr_def hd_ptr_def split: list.splits)
  with n(2,3) have node: "(if after then \<lparr>n_prev = Some old, n_next = n_next n, n_value = v\<rparr>
      else \<lparr>n_prev = n_prev n, n_next = Some old, n_value = v\<rparr>) = ?node" by simp
  have hd_tl: "(if after then (if l_tail L = Some old then L\<lparr>l_tail := Some ?c\<rparr> else L)
      else (if l_head L = Some old then L\<lparr>l_head := Some ?c\<rparr> else L)) = L1"
    unfolding L1 by (rule insert_header) (use L(2,3) dl_distinct [OF dl] old in simp_all)
  let ?h0 = "h\<lparr>ticks := ticks h + 1, lbrk := lbrk h + 1\<rparr>"
  define m1 where "m1 = link_next m as (Some ?c)"
  define h1 where "h1 = ?h0\<lparr>nodes := m, lists := (lists h)(l \<mapsto> L1)\<rparr>"
  have s0: "set_list (new_node ?h0 ?c ?node) (Some l) (\<lambda>L. if after
        then (if l_tail L = Some old then L\<lparr>l_tail := Some ?c\<rparr> else L)
        else (if l_head L = Some old then L\<lparr>l_head := Some ?c\<rparr> else L)) = Inr h1"
    using L(1) by (simp add: set_list_def new_node_def hd_tl h1_def m)
  have s1: "(if ?p \<noteq> NULL then set_node h1 ?p (\<lambda>n. n\<lparr>n_next := Some ?c\<rparr>) else Inr h1) = Inr (h1\<lparr>nodes := m1\<rparr>)"
    using link_next_if [of as h1 "Some ?c"] dl_dom [OF seg(1), of "last as"] by (simp add: h1_def m m1_def)
  have s2: "(if ?q \<noteq> NULL then set_node (h1\<lparr>nodes := m1\<rparr>) ?q (\<lambda>n. n\<lparr>n_prev := Some ?c\<rparr>) else Inr (h1\<lparr>nodes := m1\<rparr>)) =
      Inr (h1\<lparr>nodes := link_prev m1 bs (Some ?c)\<rparr>)"
    using link_prev_if [of bs "h1\<lparr>nodes := m1\<rparr>" "Some ?c"] dl_dom [OF seg(2), of "hd bs"] by (simp add: h1_def m m1_def)
  have "get_node ?h0 (Some old) = Inr n" "get_list ?h0 (Some l) = Inr L" using n(1) L(1) by (simp_all add: heap_defs)
  then show ?thesis
    unfolding listInsertNode_def malloc_ok [of mem h, OF mem] prod.case option.case bind_res_simps Let_def
    by (simp only: node s0 s1 s2 bind_res_simps lnode.select_convs) (simp add: set_list_def h1_def L1 m1_def)
qed

lemma insertNode_at:
  assumes at: "list_at h l (as @ bs) (vs @ ws)" and ok: "heap_ok h" and vs: "length vs = length as"
    and mem: "mem (ticks h)" and len: "Suc (length (as @ bs)) < 2 ^ 64"
    and old: "if after then as \<noteq> [] \<and> old = last as else bs \<noteq> [] \<and> old = hd bs"
  shows "\<exists>h'. listInsertNode mem h (Some l) (Some old) v after = Inr (Some l, h') \<and>
    list_at h' l (as @ lbrk h # bs) (vs @ v # ws) \<and> grown h l (as @ bs) h'"
proof -
  obtain L where L: "lists h l = Some L" "l_head L = hd_ptr (as @ bs) NULL" "l_tail L = last_ptr (as @ bs) NULL"
      "l_len L = of_nat (length (as @ bs))" "length (as @ bs) < 2 ^ 64"
      "dl (nodes h) NULL (as @ bs) (vs @ ws) NULL"
    using at by (rule list_atE)
  let ?c = "lbrk h"
  have new: "?c \<notin> set (as @ bs)" using list_at_nodes [OF at ok] by auto
  let ?m = "(nodes h)(?c \<mapsto> \<lparr>n_prev = last_ptr as NULL, n_next = hd_ptr bs NULL, n_value = v\<rparr>)"
  let ?L = "L\<lparr>l_head := hd_ptr (as @ ?c # bs) NULL, l_tail := last_ptr (as @ ?c # bs) NULL\<rparr>"
  define m' where "m' = link_prev (link_next ?m as (Some ?c)) bs (Some ?c)"
  define h' where "h' = h\<lparr>ticks := ticks h + 1, lbrk := lbrk h + 1, nodes := m', lists := (lists h)(l \<mapsto> ?L\<lparr>l_len := l_len L + 1\<rparr>)\<rparr>"
  have "listInsertNode mem h (Some l) (Some old) v after = Inr (Some l, h')"
    unfolding h'_def m'_def by (rule insertNode_run [where mem = mem, OF L(1-3,6) vs mem old refl refl])
  moreover have "dl m' NULL (as @ ?c # bs) (vs @ v # ws) NULL"
    unfolding m'_def by (rule dl_insert) (use L(6) vs new in simp_all)
  then have "list_at h' l (as @ ?c # bs) (vs @ v # ws)" using L(4) len by (simp add: list_at_def h'_def)
  moreover have "grown h l (as @ bs) h'"
    by (rule grownI [OF ok L(1) dl_dom [OF L(6)] h'_def]) (simp_all add: m'_def)
  ultimately show ?thesis by blast
qed

section \<open>Releasing and rotating\<close>

definition free_calls :: "nat option \<Rightarrow> val list \<Rightarrow> (nat \<times> val) list" where
  \<comment> \<open>the calls of the client's free function for a list of values\<close>
  "free_calls f vs = (case f of None \<Rightarrow> [] | Some g \<Rightarrow> map (Pair g) vs)"

lemma free_calls_simps [simp]:
  "free_calls f [] = []"
  "free_calls None vs = []"
  "free_calls (Some g) vs = map (Pair g) vs"
  by (simp_all add: free_calls_def split: option.split)

lemma free_calls_append [simp]: "free_calls f (vs @ ws) = free_calls f vs @ free_calls f ws"
  by (cases f) simp_all

lemma call_free_eq: "call_free f v h = h\<lparr>freed := freed h @ free_calls f [v]\<rparr>"
  by (cases f) (simp_all add: call_free_def)

lemma release_loop_ok:
  assumes "dl (nodes h) p as vs NULL" and "distinct as" and "lists h l = Some L"
  shows "release_loop (length as) (Some l) (hd_ptr as NULL) h =
    Inr (h\<lparr>nodes := (nodes h) |` (- set as), freed := freed h @ free_calls (l_free L) vs\<rparr>)"
  using assms
proof (induction as arbitrary: p vs h)
  case Nil
  then show ?case by (cases vs) (auto simp: restrict_map_def)
next
  case (Cons a as)
  then obtain v ws where vs: "vs = v # ws" using dl_length [OF Cons.prems(1)] by (cases vs) auto
  define m where "m = (nodes h)(a := None)"
  have m: "dl m (Some a) as ws NULL" "m |` (- set as) = nodes h |` (- set (a # as))"
    using Cons.prems vs by (auto simp: m_def restrict_map_def)
  have "release_loop (length (a # as)) (Some l) (hd_ptr (a # as) NULL) h =
      release_loop (length as) (Some l) (hd_ptr as NULL) (call_free (l_free L) v h\<lparr>nodes := m\<rparr>)"
    using Cons.prems vs by (simp add: get_node_def get_list_def call_free_eq m_def)
  also have "\<dots> = Inr (h\<lparr>nodes := nodes h |` (- set (a # as)), freed := freed h @ free_calls (l_free L) vs\<rparr>)"
    using Cons.IH [of "call_free (l_free L) v h\<lparr>nodes := m\<rparr>" "Some a" ws] Cons.prems(2,3) m vs
    by (cases "l_free L") (simp_all add: call_free_eq)
  finally show ?case .
qed

lemma release_at:
  assumes at: "list_at h l as vs" and ok: "heap_ok h"
  shows "\<exists>h'. listRelease h (Some l) = Inr h' \<and> nodes h' = (nodes h) |` (- set as) \<and>
    lists h' = (lists h)(l := None) \<and> iters h' = iters h \<and> heap_ok h' \<and> ticks h' = ticks h \<and> lbrk h' = lbrk h \<and>
    made h' = made h \<and> freed h' = freed h @ free_calls (fst (snd (header h l))) vs"
proof -
  obtain L where L: "lists h l = Some L" "l_head L = hd_ptr as NULL" "l_len L = of_nat (length as)"
      "length as < 2 ^ 64" "dl (nodes h) NULL as vs NULL"
    using at by (rule list_atE) auto
  have "unat (l_len L) = length as" using L(3,4) by (simp add: unat_of_nat)
  then have "listRelease h (Some l) = Inr (h\<lparr>nodes := (nodes h) |` (- set as),
      freed := freed h @ free_calls (l_free L) vs, lists := (lists h)(l := None)\<rparr>)"
    using release_loop_ok [OF L(5) dl_distinct [OF L(5)] L(1)] L(1,2) by (simp add: listRelease_def get_list_def)
  then show ?thesis using L(1) ok by (auto simp: heap_ok_def header_def restrict_map_def)
qed

definition rotated :: "(addr \<rightharpoonup> lnode) \<Rightarrow> addr list \<Rightarrow> addr \<Rightarrow> val \<Rightarrow> addr \<rightharpoonup> lnode" where
  \<comment> \<open>the nodes after the last one, \<open>b\<close>, has been moved to the front of \<open>as\<close>\<close>
  "rotated m as b w =
     link_prev ((link_next m as NULL)(b \<mapsto> \<lparr>n_prev = NULL, n_next = hd_ptr as NULL, n_value = w\<rparr>)) as (Some b)"

lemma rotated_dl:
  assumes "dl m NULL (as @ [b]) (vs @ [w]) NULL" and "length vs = length as"
  shows "dl (rotated m as b w) NULL (b # as) (w # vs) NULL"
proof -
  have dist: "distinct as" "b \<notin> set as" using dl_distinct [OF assms(1)] by simp_all
  have "dl m NULL as vs (Some b)" using assms by (simp add: dl_append)
  then have "dl (rotated m as b w) (Some b) as vs NULL"
    unfolding rotated_def
    by (intro dl_link_prev [where p = NULL]) (use dl_link_next [of m NULL as vs "Some b" NULL] dist in simp_all)
  then show ?thesis using dist(2) by (simp add: rotated_def)
qed

lemma rotate_run:
  \<comment> \<open>the stores of the function, one after the other\<close>
  assumes L: "lists h l = Some L" "l_head L = hd_ptr (as @ [b]) NULL" "l_tail L = last_ptr (as @ [b]) NULL"
      "l_len L = of_nat (length (as @ [b]))" "length (as @ [b]) < 2 ^ 64"
    and seg: "dl (nodes h) NULL (as @ [b]) (vs @ [w]) NULL" and vs: "length vs = length as" and ne: "as \<noteq> []"
  shows "listRotate h (Some l) = Inr (h\<lparr>nodes := rotated (nodes h) as b w,
    lists := (lists h)(l \<mapsto> L\<lparr>l_tail := last_ptr as NULL, l_head := Some b\<rparr>)\<rparr>)"
proof -
  have b: "nodes h b = Some \<lparr>n_prev = last_ptr as NULL, n_next = NULL, n_value = w\<rparr>" using seg vs by (simp add: dl_append)
  have dist: "b \<notin> set as" using dl_distinct [OF seg] by simp
  have dom: "nodes h (last as) \<noteq> None" "nodes h (hd as) \<noteq> None" using dl_dom [OF seg] ne by simp_all
  have head: "l_head L = hd_ptr as NULL" using L(2) ne by (cases as) simp_all
  have tail: "l_tail L = Some b" using L(3) by simp
  have len: "\<not> l_len L \<le> 1"
    using L(4,5) ne by (simp add: word_le_nat_alt unat_of_nat del: of_nat_Suc)
  define m1 where "m1 = link_next (nodes h) as NULL"
  define m2 where "m2 = m1(b \<mapsto> \<lparr>n_prev = NULL, n_next = hd_ptr as NULL, n_value = w\<rparr>)"
  let ?h1 = "h\<lparr>lists := (lists h)(l \<mapsto> L\<lparr>l_tail := last_ptr as NULL\<rparr>)\<rparr>"
  have s0: "set_list h (Some l) (\<lambda>L. L\<lparr>l_tail := last_ptr as NULL\<rparr>) = Inr ?h1" using L(1) by (simp add: set_list_def)
  have s1: "set_node ?h1 (last_ptr as NULL) (\<lambda>n. n\<lparr>n_next := NULL\<rparr>) = Inr (?h1\<lparr>nodes := m1\<rparr>)"
    using set_node_link(1) [OF ne, of ?h1 NULL] dom(1) by (simp add: m1_def)
  have s2: "set_node (?h1\<lparr>nodes := m1\<rparr>) (Some b) (\<lambda>n. n\<lparr>n_next := hd_ptr as NULL, n_prev := NULL\<rparr>) = Inr (?h1\<lparr>nodes := m2\<rparr>)"
    using b dist by (simp add: set_node_def m2_def m1_def)
  have "m2 (hd as) \<noteq> None" using dom(2) by (simp add: m2_def m1_def del: not_None_eq)
  then have s3: "set_node (?h1\<lparr>nodes := m2\<rparr>) (hd_ptr as NULL) (\<lambda>n. n\<lparr>n_prev := Some b\<rparr>) =
      Inr (?h1\<lparr>nodes := rotated (nodes h) as b w\<rparr>)"
    using set_node_link(2) [OF ne, of "?h1\<lparr>nodes := m2\<rparr>" "Some b"] by (simp add: rotated_def m2_def m1_def)
  have "get_node h (Some b) = Inr \<lparr>n_prev = last_ptr as NULL, n_next = NULL, n_value = w\<rparr>" "get_list h (Some l) = Inr L"
    using b L(1) by (simp_all add: get_node_def get_list_def)
  then show ?thesis
    unfolding listRotate_def
    by (simp only: bind_res_simps len if_False head tail lnode.select_convs s0 s1 s2 s3) (simp add: set_list_def)
qed

lemma rotate_at:
  assumes at: "list_at h l (as @ [b]) (vs @ [w])" and ok: "heap_ok h" and vs: "length vs = length as"
  shows "\<exists>h'. listRotate h (Some l) = Inr h' \<and> list_at h' l (b # as) (w # vs) \<and> heap_ok h' \<and>
    only (set (as @ [b])) {l} h h' \<and> header h' l = header h l \<and> freed h' = freed h \<and> ticks h' = ticks h \<and> lbrk h' = lbrk h"
proof (cases "as = []")
  case True
  then have "listRotate h (Some l) = Inr h" using at by (auto simp: listRotate_def get_list_def list_at_def)
  then show ?thesis using True at ok vs by auto
next
  case False
  obtain L where L: "lists h l = Some L" "l_head L = hd_ptr (as @ [b]) NULL" "l_tail L = last_ptr (as @ [b]) NULL"
      "l_len L = of_nat (length (as @ [b]))" "length (as @ [b]) < 2 ^ 64"
      "dl (nodes h) NULL (as @ [b]) (vs @ [w]) NULL"
    using at by (rule list_atE)
  define h' where "h' = h\<lparr>nodes := rotated (nodes h) as b w,
    lists := (lists h)(l \<mapsto> L\<lparr>l_tail := last_ptr as NULL, l_head := Some b\<rparr>)\<rparr>"
  have "listRotate h (Some l) = Inr h'" unfolding h'_def by (rule rotate_run [OF L vs False])
  moreover have "list_at h' l (b # as) (w # vs)"
    using rotated_dl [OF L(6) vs] L(4,5) False by (simp add: list_at_def h'_def last_ptr_def)
  moreover have "heap_ok h'" "only (set (as @ [b])) {l} h h'"
    using ok list_at_header [OF at ok] list_at_nodes [OF at ok, of b]
    by (auto simp: heap_ok_def only_def h'_def rotated_def)
  moreover have "header h' l = header h l" "freed h' = freed h" "ticks h' = ticks h" "lbrk h' = lbrk h"
    using L(1) by (simp_all add: h'_def header_def)
  ultimately show ?thesis by blast
qed

section \<open>Indexing and iterating\<close>

lemma walk_lseg: "lseg f (nodes h) p as NULL \<Longrightarrow> walk f h k p = Inr (if k < length as then Some (as ! k) else NULL)"
proof (induction k arbitrary: p as)
  case 0
  then show ?case by (cases as) auto
next
  case (Suc k)
  then show ?case by (cases as) (auto simp: get_node_def)
qed

lemma dl_back: "dl m p as vs q \<Longrightarrow> lseg n_prev m (last_ptr as p) (rev as) p"
proof (induction m p as vs q rule: dl.induct)
  case (2 m p a as v vs q)
  then show ?case by (cases as) (auto simp: lseg_append last_ptr_def)
qed auto

lemma index_at:
  assumes "list_at h l as vs" and "LONG_MIN < i"
  shows "listIndex h (Some l) i = Inr (
    if 0 \<le> i then (if i < int (length as) then Some (as ! nat i) else NULL)
    else (if - i \<le> int (length as) then Some (as ! (length as - nat (- i))) else NULL))"
proof -
  obtain L where L: "lists h l = Some L" "l_head L = hd_ptr as NULL" "l_tail L = last_ptr as NULL"
      "dl (nodes h) NULL as vs NULL"
    using assms(1) by (rule list_atE) auto
  show ?thesis
  proof (cases "0 \<le> i")
    case True
    then show ?thesis
      using L walk_lseg [OF dl_lseg [OF L(4)], of "nat i"] by (auto simp: listIndex_def get_list_def)
  next
    case False
    then obtain k where k: "i = - int (Suc k)" by (metis not_le int_cases3 neg_int_cases negative_eq_positive Suc_pred)
    then show ?thesis
      using L walk_lseg [OF dl_back [OF L(4)], of k] assms(2)
      by (auto simp: listIndex_def get_list_def rev_nth nat_add_distrib)
  qed
qed

lemma index_overflow: "listIndex h l LONG_MIN = Inl SignedOverflow"
  by (simp add: listIndex_def LONG_MIN_def)

lemma getIterator_at:
  assumes "list_at h l as vs" and "mem (ticks h)"
  shows "listGetIterator mem h (Some l) d = Inr (Some (lbrk h), h\<lparr>ticks := ticks h + 1, lbrk := lbrk h + 1,
    iters := (iters h)(lbrk h \<mapsto> \<lparr>i_next = (if d = AL_START_HEAD then hd_ptr as NULL else last_ptr as NULL), i_direction = d\<rparr>)\<rparr>)"
  using assms by (auto simp: listGetIterator_def malloc_ok get_list_def list_at_def)

lemma next_forward:
  assumes "iters h it = Some \<lparr>i_next = hd_ptr bs NULL, i_direction = AL_START_HEAD\<rparr>" and "dl (nodes h) p bs ws NULL"
  shows "listNext h (Some it) = Inr (hd_ptr bs NULL,
    h\<lparr>iters := (iters h)(it \<mapsto> \<lparr>i_next = hd_ptr (tl bs) NULL, i_direction = AL_START_HEAD\<rparr>)\<rparr>)"
proof (cases bs)
  case Nil
  then show ?thesis using assms by (simp add: listNext_def fun_upd_idem)
next
  case (Cons b bs')
  then show ?thesis using assms by (cases ws) (simp_all add: listNext_def get_node_def)
qed

lemma next_backward:
  assumes "iters h it = Some \<lparr>i_next = last_ptr bs NULL, i_direction = AL_START_TAIL\<rparr>" and "dl (nodes h) NULL bs ws q"
  shows "listNext h (Some it) = Inr (last_ptr bs NULL,
    h\<lparr>iters := (iters h)(it \<mapsto> \<lparr>i_next = last_ptr (butlast bs) NULL, i_direction = AL_START_TAIL\<rparr>)\<rparr>)"
proof (cases bs rule: rev_cases)
  case Nil
  then show ?thesis using assms by (simp add: listNext_def fun_upd_idem)
next
  case (snoc bs' b)
  then obtain v ws' where "ws = ws' @ [v]" "length ws' = length bs'"
    using dl_length [OF assms(2)] by (cases ws rule: rev_cases) auto
  then show ?thesis
    using assms snoc by (simp add: listNext_def get_node_def dl_append AL_START_HEAD_def AL_START_TAIL_def)
qed

definition drop_iter :: "lheap \<Rightarrow> addr \<Rightarrow> lheap" where
  "drop_iter h it = h\<lparr>iters := (iters h)(it := None)\<rparr>"

lemma releaseIterator_ok: "iters h it = Some i \<Longrightarrow> listReleaseIterator h (Some it) = Inr (drop_iter h it)"
  by (simp add: listReleaseIterator_def drop_iter_def)

lemma drop_iter_upd [simp]: "drop_iter (h\<lparr>iters := (iters h)(it \<mapsto> i)\<rparr>) it = drop_iter h it"
  by (simp add: drop_iter_def)

lemma drop_iter_simps [simp]:
  "nodes (drop_iter h it) = nodes h" "lists (drop_iter h it) = lists h" "iters (drop_iter h it) = (iters h)(it := None)"
  "freed (drop_iter h it) = freed h" "ticks (drop_iter h it) = ticks h" "lbrk (drop_iter h it) = lbrk h"
  by (simp_all add: drop_iter_def)

section \<open>Searching\<close>

fun first_match :: "(val \<Rightarrow> bool) \<Rightarrow> addr list \<Rightarrow> val list \<Rightarrow> ptr" where
  "first_match P (a # as) (v # vs) = (if P v then Some a else first_match P as vs)"
| "first_match P _ _ = NULL"

lemma search_loop_ok:
  assumes "dl (nodes h) p bs ws NULL" and "lists h l = Some L" and "length bs < fuel"
    and "iters h it = Some \<lparr>i_next = hd_ptr bs NULL, i_direction = AL_START_HEAD\<rparr>"
  shows "search_loop fuel h (Some l) (Some it) key =
    Inr (first_match (matches (l_match L) key) bs ws, drop_iter h it)"
  using assms
proof (induction bs arbitrary: p ws h fuel)
  case Nil
  then obtain k where "fuel = Suc k" by (cases fuel) auto
  then show ?case using Nil next_forward [OF Nil(4,1)] by (simp add: releaseIterator_ok)
next
  case (Cons b bs)
  then obtain k w ws' where k: "fuel = Suc k" and ws: "ws = w # ws'" by (cases fuel; cases ws) auto
  let ?h = "h\<lparr>iters := (iters h)(it \<mapsto> \<lparr>i_next = hd_ptr bs NULL, i_direction = AL_START_HEAD\<rparr>)\<rparr>"
  have b: "nodes h b = Some \<lparr>n_prev = p, n_next = hd_ptr bs NULL, n_value = w\<rparr>" "dl (nodes h) (Some b) bs ws' NULL"
    using Cons.prems(1) ws by simp_all
  show ?case
  proof (cases "matches (l_match L) key w")
    case True
    then show ?thesis
      using next_forward [OF Cons.prems(4,1)] Cons.prems(2) b(1) k ws
      by (simp add: get_node_def get_list_def releaseIterator_ok)
  next
    case False
    then have "search_loop fuel h (Some l) (Some it) key = search_loop k ?h (Some l) (Some it) key"
      using next_forward [OF Cons.prems(4,1)] Cons.prems(2) b(1) k ws
      by (simp add: get_node_def get_list_def)
    then show ?thesis using Cons.IH [of ?h "Some b" ws' k] Cons.prems(2,3) b(2) k ws False by simp
  qed
qed

lemma list_at_short: assumes "list_at h l as vs" and "heap_ok h" shows "length as \<le> lbrk h"
proof -
  have "set as \<subseteq> {..<lbrk h}" using list_at_nodes [OF assms] by auto
  then have "card (set as) \<le> lbrk h" using card_mono [of "{..<lbrk h}"] by fastforce
  then show ?thesis using list_at_distinct [OF assms(1)] by (simp add: distinct_card)
qed

lemma search_at:
  assumes at: "list_at h l as vs" and ok: "heap_ok h" and mem: "mem (ticks h)"
  shows "listSearchKey mem h (Some l) key =
    Inr (first_match (matches (snd (snd (header h l))) key) as vs, h\<lparr>ticks := ticks h + 1, lbrk := lbrk h + 1\<rparr>)"
proof -
  obtain L where L: "lists h l = Some L" "dl (nodes h) NULL as vs NULL" using at by (rule list_atE) auto
  define h1 where "h1 = h\<lparr>ticks := ticks h + 1, lbrk := lbrk h + 1,
    iters := (iters h)(lbrk h \<mapsto> \<lparr>i_next = hd_ptr as NULL, i_direction = AL_START_HEAD\<rparr>)\<rparr>"
  have "listSearchKey mem h (Some l) key = search_loop (Suc (lbrk h1)) h1 (Some l) (Some (lbrk h)) key"
    using getIterator_at [where mem = mem, OF at mem, of AL_START_HEAD] by (simp add: listSearchKey_def h1_def del: search_loop.simps)
  also have "\<dots> = Inr (first_match (matches (l_match L) key) as vs, drop_iter h1 (lbrk h))"
    using list_at_short [OF at ok] L by (intro search_loop_ok [where p = NULL]) (simp_all add: h1_def)
  also have "drop_iter h1 (lbrk h) = h\<lparr>ticks := ticks h + 1, lbrk := lbrk h + 1\<rparr>"
    using ok by (simp add: h1_def drop_iter_def heap_ok_def fun_upd_idem)
  finally show ?thesis using L(1) by (simp add: header_def)
qed

lemma search_no_memory: "\<not> mem (ticks h) \<Longrightarrow> listSearchKey mem h l key = Inl NullDeref"
  by (simp add: listSearchKey_def listGetIterator_def malloc_def listNext_def)

section \<open>Copying\<close>

fun copies :: "(nat \<Rightarrow> bool) \<Rightarrow> (nat \<Rightarrow> val \<Rightarrow> val) option \<Rightarrow> nat \<Rightarrow> val list \<Rightarrow> val list option" where
  \<comment> \<open>what a copy of the values is, \<open>None\<close> when a copy function or the allocator fails on the way\<close>
  "copies mem d t [] = Some []"
| "copies mem None t (v # vs) = (if mem t then map_option (Cons v) (copies mem None (Suc t) vs) else None)"
| "copies mem (Some f) t (v # vs) =
     (if f t v \<noteq> None \<and> mem (Suc t) then map_option (Cons (f t v)) (copies mem (Some f) (Suc (Suc t)) vs) else None)"

fun attempt :: "(nat \<Rightarrow> bool) \<Rightarrow> (nat \<Rightarrow> val \<Rightarrow> val) option \<Rightarrow> nat \<Rightarrow> val list \<Rightarrow> val list \<times> val list" where
  \<comment> \<open>the values added to the copy until copying ends or fails, and a value that was copied but not added\<close>
  "attempt mem d t [] = ([], [])"
| "attempt mem None t (v # vs) = (if mem t then apfst (Cons v) (attempt mem None (Suc t) vs) else ([], []))"
| "attempt mem (Some f) t (v # vs) =
     (if f t v = None then ([], [])
      else if mem (Suc t) then apfst (Cons (f t v)) (attempt mem (Some f) (Suc (Suc t)) vs) else ([], [f t v]))"

definition by_dup :: "(nat \<Rightarrow> val \<Rightarrow> val) option \<Rightarrow> val list \<Rightarrow> val list" where
  \<comment> \<open>which of the values of a copy a copy function made: without one the copy shares those of the original\<close>
  "by_dup d vs = (if d = None then [] else vs)"

lemma copies_None_d: "(\<And>t. mem t) \<Longrightarrow> copies mem None t vs = Some vs"
  by (induction vs arbitrary: t) simp_all

definition same_heap :: "lheap \<Rightarrow> lheap \<Rightarrow> bool" where
  "same_heap h h' \<longleftrightarrow> nodes h' = nodes h \<and> lists h' = lists h \<and> iters h' = iters h"

definition copying :: "lheap \<Rightarrow> lheap \<Rightarrow> addr \<Rightarrow> addr \<Rightarrow> addr list \<Rightarrow> val list \<Rightarrow> bool" where
  \<comment> \<open>since \<open>h0\<close> a list at \<open>c\<close> with the nodes \<open>cs\<close> and the iterator at \<open>it\<close> were made, nothing else\<close>
  "copying h0 h c it cs us \<longleftrightarrow> heap_ok h0 \<and> heap_ok h \<and> list_at h c cs us \<and> lbrk h0 \<le> c \<and> lbrk h0 \<le> it \<and>
     it < lbrk h \<and> (\<forall>a \<in> set cs. lbrk h0 \<le> a) \<and> (\<forall>a. a \<notin> set cs \<longrightarrow> nodes h a = nodes h0 a) \<and>
     (\<forall>a. a \<noteq> c \<longrightarrow> lists h a = lists h0 a) \<and> (\<forall>a. a \<noteq> it \<longrightarrow> iters h a = iters h0 a) \<and> lbrk h0 \<le> lbrk h \<and>
     freed h = freed h0"

lemma copying_abort:
  assumes "copying h0 h c it cs us" and "iters h it = Some i"
  shows "\<exists>h'. abort_dup h (Some c) (Some it) = Inr (NULL, h') \<and> same_heap h0 h' \<and> heap_ok h' \<and>
    freed h' = freed h0 @ free_calls (fst (snd (header h c))) us \<and> made h' = made h"
proof -
  have at: "list_at h c cs us" and ok: "heap_ok h" using assms(1) by (simp_all add: copying_def)
  obtain h' where h': "listRelease h (Some c) = Inr h'" "nodes h' = nodes h |` (- set cs)"
      "lists h' = (lists h)(c := None)" "iters h' = iters h" "heap_ok h'"
      "freed h' = freed h @ free_calls (fst (snd (header h c))) us" "made h' = made h"
    using release_at [OF at ok] by blast
  have "same_heap h0 (drop_iter h' it)"
    using assms(1) h' unfolding same_heap_def copying_def
    by (auto simp: fun_eq_iff restrict_map_def heap_ok_def)
  moreover have "heap_ok (drop_iter h' it)" using h'(5) by (simp add: heap_ok_def)
  moreover have "freed h = freed h0" using assms(1) by (simp add: copying_def)
  ultimately show ?thesis using h'(1,4,6,7) assms(2) by (simp add: abort_dup_def releaseIterator_ok drop_iter_def)
qed

lemma copying_iter [simp]:
  "copying h0 (h\<lparr>iters := (iters h)(it \<mapsto> i)\<rparr>) c it cs us = copying h0 h c it cs us"
  "copying h0 (h\<lparr>ticks := n\<rparr>) c it cs us = copying h0 h c it cs us"
  "copying h0 (h\<lparr>made := x\<rparr>) c it cs us = copying h0 h c it cs us"
  by (auto simp: copying_def heap_ok_def list_at_def)

lemma addTail_traces:
  "listAddNodeTail mem h l v = Inr (r, h') \<Longrightarrow> made h' = made h \<and> freed h' = freed h"
  by (auto simp: listAddNodeTail_def malloc_def heap_defs Let_def split: if_splits option.splits prod.splits)

lemma copying_add:
  assumes "copying h0 h c it cs us" and "mem (ticks h)" and "Suc (length cs) < 2 ^ 64"
  shows "\<exists>h'. listAddNodeTail mem h (Some c) v = Inr (Some c, h') \<and>
    copying h0 h' c it (cs @ [lbrk h]) (us @ [v]) \<and> iters h' = iters h \<and> header h' c = header h c \<and>
    ticks h' = Suc (ticks h) \<and> made h' = made h"
proof -
  have at: "list_at h c cs us" and ok: "heap_ok h" using assms(1) by (simp_all add: copying_def)
  obtain h' where h': "listAddNodeTail mem h (Some c) v = Inr (Some c, h')" "list_at h' c (cs @ [lbrk h]) (us @ [v])"
      "heap_ok h'" "only (set (lbrk h # cs)) {c} h h'" "header h' c = header h c" "ticks h' = Suc (ticks h)"
    using addTail_at [OF at ok, of mem v] assms(2,3) by blast
  have "copying h0 h' c it (cs @ [lbrk h]) (us @ [v])"
    using assms(1) h'(2,3,4) addTail_traces [OF h'(1)] unfolding copying_def only_def by auto
  then show ?thesis using h' addTail_traces [OF h'(1)] by (simp add: only_def)
qed

lemma copies_step:
  "copies mem d (ticks h) (w # ws) = (case dup_value d w h of
       (None, h') \<Rightarrow> None
     | (Some v, h') \<Rightarrow> if mem (ticks h') then map_option (Cons v) (copies mem d (Suc (ticks h')) ws) else None)"
  by (cases d) (simp_all add: dup_value_def Let_def)

lemma attempt_step:
  "attempt mem d (ticks h) (w # ws) = (case dup_value d w h of
       (None, h') \<Rightarrow> ([], [])
     | (Some v, h') \<Rightarrow> if mem (ticks h') then apfst (Cons v) (attempt mem d (Suc (ticks h')) ws) else ([], by_dup d [v]))"
  by (cases d) (simp_all add: dup_value_def by_dup_def Let_def)

lemma dup_value_heap:
  "dup_value d w h = (x, h') \<Longrightarrow> \<exists>n. h' = h\<lparr>ticks := n, made := made h @ (case x of None \<Rightarrow> [] | Some v \<Rightarrow> by_dup d [v])\<rparr>"
  by (auto simp: dup_value_def by_dup_def Let_def split: option.splits if_splits intro: exI [of _ "ticks h"])

lemma header_eq: "header h c = (d, f, mt) \<Longrightarrow> list_at h c cs us \<Longrightarrow> \<exists>L. lists h c = Some L \<and> l_dup L = d"
  by (auto simp: header_def list_at_def)

lemma header_heap [simp]:
  "header (h\<lparr>iters := x\<rparr>) c = header h c" "header (h\<lparr>ticks := n\<rparr>) c = header h c" "header (h\<lparr>made := m\<rparr>) c = header h c" "header (drop_iter h it) c = header h c"
  by (simp_all add: header_def)

definition dup_outcome :: "(ptr \<times> lheap) res \<Rightarrow> lheap \<Rightarrow> val list \<Rightarrow> addr \<Rightarrow> addr \<Rightarrow> val list \<Rightarrow> _ \<Rightarrow> val list option \<Rightarrow>
    val list \<times> val list \<Rightarrow> bool" where
  \<comment> \<open>how copying ends: a copy of the values after \<open>us\<close>, or NULL with the copy released; \<open>m\<close> was made before\<close>
  "dup_outcome r h0 m c it us hdr vs made_now = (case vs of
       None \<Rightarrow> (\<exists>h'. r = Inr (NULL, h') \<and> same_heap h0 h' \<and> heap_ok h' \<and>
         freed h' = freed h0 @ free_calls (fst (snd hdr)) (us @ fst made_now) \<and>
         made h' = m @ by_dup (fst hdr) (fst made_now @ snd made_now))
     | Some vs \<Rightarrow> (\<exists>h' cs. r = Inr (Some c, drop_iter h' it) \<and> copying h0 h' c it cs (us @ vs) \<and> header h' c = hdr \<and>
         made h' = m @ by_dup (fst hdr) vs))"

lemma dup_outcome_cons:
  "dup_outcome r h0 (m @ by_dup (fst hdr) [v]) c it (us @ [v]) hdr vs x \<Longrightarrow>
    dup_outcome r h0 m c it us hdr (map_option (Cons v) vs) (apfst (Cons v) x)"
  by (simp add: dup_outcome_def by_dup_def split: option.splits if_splits)

lemma dup_loop_step:
  \<comment> \<open>one round: the iterator moves on, the value is copied, and the copy is added or everything released\<close>
  assumes cp: "copying h0 h c it cs us" and it: "iters h it = Some \<lparr>i_next = Some b, i_direction = AL_START_HEAD\<rparr>"
    and seg: "dl (nodes h0) p (b # bs) (w # ws) NULL" and hdr: "header h c = (d, f, mt)"
  obtains x h2 where "copying h0 h2 c it cs us" and "iters h2 it = Some \<lparr>i_next = hd_ptr bs NULL, i_direction = AL_START_HEAD\<rparr>"
    and "header h2 c = (d, f, mt)"
    and "\<And>k mem. dup_loop (Suc k) mem h (Some c) (Some it) = (case x of None \<Rightarrow> abort_dup h2 (Some c) (Some it)
      | Some v \<Rightarrow> bind_res (listAddNodeTail mem h2 (Some c) v) (\<lambda>(r, h).
          if r = NULL then abort_dup h (Some c) (Some it) else dup_loop k mem h (Some c) (Some it)))"
    and "\<And>mem. copies mem d (ticks h) (w # ws) = (case x of None \<Rightarrow> None | Some v \<Rightarrow>
      if mem (ticks h2) then map_option (Cons v) (copies mem d (Suc (ticks h2)) ws) else None)"
    and "\<And>mem. attempt mem d (ticks h) (w # ws) = (case x of None \<Rightarrow> ([], []) | Some v \<Rightarrow>
      if mem (ticks h2) then apfst (Cons v) (attempt mem d (Suc (ticks h2)) ws) else ([], by_dup d [v]))"
    and "made h2 = made h @ (case x of None \<Rightarrow> [] | Some v \<Rightarrow> by_dup d [v])"
proof -
  have ok: "heap_ok h0" and cs: "\<forall>a \<in> set cs. lbrk h0 \<le> a" and at: "list_at h c cs us"
    using cp by (simp_all add: copying_def)
  have "set (b # bs) \<inter> set cs = {}"
    using dl_dom [OF seg] ok cs unfolding heap_ok_def by (metis disjoint_iff)
  then have dl: "dl (nodes h) p (b # bs) (w # ws) NULL"
    using cp seg by (subst dl_cong [where m = "nodes h0"]) (auto simp: copying_def)
  obtain L where L: "lists h c = Some L" "l_dup L = d" using header_eq [OF hdr at] by blast
  define h1 where "h1 = h\<lparr>iters := (iters h)(it \<mapsto> \<lparr>i_next = hd_ptr bs NULL, i_direction = AL_START_HEAD\<rparr>)\<rparr>"
  obtain x h2 where x: "dup_value d w h1 = (x, h2)" by fastforce
  obtain n where h2: "h2 = h1\<lparr>ticks := n, made := made h1 @ (case x of None \<Rightarrow> [] | Some v \<Rightarrow> by_dup d [v])\<rparr>"
    using dup_value_heap [OF x] by blast
  have t: "ticks h1 = ticks h" by (simp add: h1_def)
  then have att: "attempt mem d (ticks h) (w # ws) = (case x of None \<Rightarrow> ([], []) | Some v \<Rightarrow>
      if mem (ticks h2) then apfst (Cons v) (attempt mem d (Suc (ticks h2)) ws) else ([], by_dup d [v]))" for mem
    using x attempt_step [of mem d h1 w ws] by (auto split: option.splits)
  from t have cops: "copies mem d (ticks h) (w # ws) = (case x of None \<Rightarrow> None | Some v \<Rightarrow>
      if mem (ticks h2) then map_option (Cons v) (copies mem d (Suc (ticks h2)) ws) else None)" for mem
    using x copies_step [of mem d h1 w ws] by (auto split: option.splits)
  have it': "iters h it = Some \<lparr>i_next = hd_ptr (b # bs) NULL, i_direction = AL_START_HEAD\<rparr>" using it by simp
  show thesis
  proof (rule that [of h2 x])
    fix k mem
    show "dup_loop (Suc k) mem h (Some c) (Some it) = (case x of None \<Rightarrow> abort_dup h2 (Some c) (Some it)
      | Some v \<Rightarrow> bind_res (listAddNodeTail mem h2 (Some c) v) (\<lambda>(r, h).
          if r = NULL then abort_dup h (Some c) (Some it) else dup_loop k mem h (Some c) (Some it)))"
      using next_forward [OF it' dl] dl L x
      by (simp add: h1_def [symmetric] get_list_def get_node_def split: option.split) (simp add: h1_def)
  qed (use cp hdr cops att in \<open>simp_all add: h2 h1_def\<close>)
qed

lemma dup_loop_at:
  assumes "copying h0 h c it cs us" and "iters h it = Some \<lparr>i_next = hd_ptr bs NULL, i_direction = AL_START_HEAD\<rparr>"
    and "dl (nodes h0) p bs ws NULL" and "length bs < fuel" and "length cs + length bs < 2 ^ 64"
    and "header h c = (d, f, mt)"
  shows "dup_outcome (dup_loop fuel mem h (Some c) (Some it)) h0 (made h) c it us (d, f, mt)
    (copies mem d (ticks h) ws) (attempt mem d (ticks h) ws)"
  using assms
proof (induction bs arbitrary: p ws h cs us fuel)
  case Nil
  then obtain k where k: "fuel = Suc k" by (cases fuel) auto
  have "ws = []" using Nil.prems(3) by (cases ws) simp_all
  moreover have "listNext h (Some it) = Inr (NULL, h)" using Nil.prems(2) by (simp add: listNext_def)
  ultimately show ?case
    using Nil.prems(1,2,6) k by (auto simp: dup_outcome_def by_dup_def releaseIterator_ok)
next
  case (Cons b bs)
  then obtain k w ws' where k: "fuel = Suc k" and ws: "ws = w # ws'" by (cases fuel; cases ws) auto
  obtain x h2 where inv: "copying h0 h2 c it cs us"
    and it: "iters h2 it = Some \<lparr>i_next = hd_ptr bs NULL, i_direction = AL_START_HEAD\<rparr>" and hdr: "header h2 c = (d, f, mt)"
    and run: "\<And>k mem. dup_loop (Suc k) mem h (Some c) (Some it) = (case x of None \<Rightarrow> abort_dup h2 (Some c) (Some it)
      | Some v \<Rightarrow> bind_res (listAddNodeTail mem h2 (Some c) v) (\<lambda>(r, h).
          if r = NULL then abort_dup h (Some c) (Some it) else dup_loop k mem h (Some c) (Some it)))"
    and cops: "\<And>mem. copies mem d (ticks h) (w # ws') = (case x of None \<Rightarrow> None | Some v \<Rightarrow>
      if mem (ticks h2) then map_option (Cons v) (copies mem d (Suc (ticks h2)) ws') else None)"
    and att: "\<And>mem. attempt mem d (ticks h) (w # ws') = (case x of None \<Rightarrow> ([], []) | Some v \<Rightarrow>
      if mem (ticks h2) then apfst (Cons v) (attempt mem d (Suc (ticks h2)) ws') else ([], by_dup d [v]))"
    and mk: "made h2 = made h @ (case x of None \<Rightarrow> [] | Some v \<Rightarrow> by_dup d [v])"
    by (rule dup_loop_step [OF Cons.prems(1) Cons.prems(2) [unfolded hd_ptr_simps] Cons.prems(3) [unfolded ws] Cons.prems(6)]) (rule that)
  show ?case
  proof (cases "\<exists>v. x = Some v \<and> mem (ticks h2)")
    case False
    have "\<exists>h'. dup_loop fuel mem h (Some c) (Some it) = Inr (NULL, h') \<and> same_heap h0 h' \<and> heap_ok h' \<and>
        freed h' = freed h0 @ free_calls f us \<and> made h' = made h2"
      using run [of k mem] k False copying_abort [OF inv it] copying_abort [of h0 "h2\<lparr>ticks := ticks h2 + 1\<rparr>" c it cs us] inv it hdr
      by (cases x) (simp_all add: add_no_memory)
    then show ?thesis using False cops [of mem] att [of mem] mk by (auto simp: dup_outcome_def by_dup_def ws split: option.splits)
  next
    case True
    then obtain v where v: "x = Some v" "mem (ticks h2)" by blast
    obtain h3 where h3: "listAddNodeTail mem h2 (Some c) v = Inr (Some c, h3)"
        "copying h0 h3 c it (cs @ [lbrk h2]) (us @ [v])" "iters h3 = iters h2" "header h3 c = header h2 c"
        "ticks h3 = Suc (ticks h2)" "made h3 = made h2"
      using copying_add [OF inv, of mem v] v(2) Cons.prems(5) by auto
    have "dup_outcome (dup_loop k mem h3 (Some c) (Some it)) h0 (made h3) c it (us @ [v]) (d, f, mt)
        (copies mem d (ticks h3) ws') (attempt mem d (ticks h3) ws')"
      by (rule Cons.IH [OF h3(2), of "Some b"]) (use it h3 hdr Cons.prems(3-5) k ws in simp_all)
    then show ?thesis
      using run [of k mem] k cops [of mem] att [of mem] v h3(1,5,6) mk dup_outcome_cons [of _ h0 "made h" "(d, f, mt)" v c it us]
      by (simp add: ws)
  qed
qed

lemma create_ok:
  assumes "mem (ticks h)"
  shows "listCreate mem h = (Some (lbrk h), h\<lparr>ticks := ticks h + 1, lbrk := lbrk h + 1, lists := (lists h)(lbrk h \<mapsto>
    \<lparr>l_head = NULL, l_tail = NULL, l_dup = None, l_free = None, l_match = None, l_len = 0\<rparr>)\<rparr>)"
  using assms by (simp add: listCreate_def malloc_ok)

lemma dup_at:
  assumes at: "list_at h l as vs" and ok: "heap_ok h" and mem: "mem (ticks h)" "mem (Suc (ticks h))"
  shows "dup_outcome (listDup mem h (Some l)) h (made h) (lbrk h) (Suc (lbrk h)) [] (header h l)
    (copies mem (fst (header h l)) (ticks h + 2) vs) (attempt mem (fst (header h l)) (ticks h + 2) vs)"
proof -
  obtain L where L: "lists h l = Some L" "length as < 2 ^ 64" "dl (nodes h) NULL as vs NULL"
    using at by (rule list_atE) auto
  have l: "l < lbrk h" by (rule list_at_header [OF at ok])
  let ?c = "lbrk h"
  define C where "C = \<lparr>l_head = NULL, l_tail = NULL, l_dup = l_dup L, l_free = l_free L, l_match = l_match L, l_len = 0\<rparr>"
  define h1 where "h1 = h\<lparr>ticks := Suc (ticks h), lbrk := Suc ?c, lists := (lists h)(?c \<mapsto> C)\<rparr>"
  define h2 where "h2 = h1\<lparr>ticks := ticks h1 + 1, lbrk := lbrk h1 + 1,
    iters := (iters h1)(Suc ?c \<mapsto> \<lparr>i_next = hd_ptr as NULL, i_direction = AL_START_HEAD\<rparr>)\<rparr>"
  have at1: "list_at h1 l as vs"
    using at l by (intro list_at_other [OF at, of "{}" "{?c}"]) (auto simp: only_def h1_def)
  have "listGetIterator mem h1 (Some l) AL_START_HEAD = Inr (Some (Suc ?c), h2)"
    using getIterator_at [where mem = mem, OF at1, of AL_START_HEAD] mem(2) by (simp add: h2_def h1_def)
  then have "listDup mem h (Some l) = dup_loop (Suc (lbrk h2)) mem h2 (Some ?c) (Some (Suc ?c))"
    using create_ok [of mem h] mem(1) L(1) l unfolding listDup_def
    by (simp add: get_list_def set_list_def C_def h1_def del: dup_loop.simps)
  moreover have "dup_outcome (dup_loop (Suc (lbrk h2)) mem h2 (Some ?c) (Some (Suc ?c))) h (made h2) ?c (Suc ?c) []
      (l_dup L, l_free L, l_match L) (copies mem (l_dup L) (ticks h2) vs) (attempt mem (l_dup L) (ticks h2) vs)"
  proof (rule dup_loop_at [where bs = as and cs = "[]" and p = NULL])
    show "copying h h2 ?c (Suc ?c) [] []"
      using ok by (auto simp: copying_def heap_ok_def list_at_def h2_def h1_def C_def)
  qed (use L list_at_short [OF at ok] in \<open>auto simp: h2_def h1_def C_def header_def\<close>)
  ultimately show ?thesis using L(1) by (simp add: header_def h2_def h1_def)
qed

section \<open>Deleting while iterating\<close>

fun sweep :: "nat \<Rightarrow> (val \<Rightarrow> bool) \<Rightarrow> lheap \<Rightarrow> ptr \<Rightarrow> ptr \<Rightarrow> lheap res" where
  \<comment> \<open>the usual loop of a client: \<open>listNext\<close> until NULL, deleting some of the nodes returned\<close>
  "sweep 0 P h l iter = Inl Diverges"
| "sweep (Suc fuel) P h l iter =
     bind_res (listNext h iter) (\<lambda>(node, h).
     if node = NULL then Inr h
     else bind_res (get_node h node) (\<lambda>n.
          bind_res (if P (n_value n) then listDelNode h l node else Inr h) (\<lambda>h. sweep fuel P h l iter)))"

lemma list_at_iters [simp]: "list_at (h\<lparr>iters := x\<rparr>) l as vs = list_at h l as vs"
  by (simp add: list_at_def)

lemma heap_ok_iters: "heap_ok h \<Longrightarrow> it < lbrk h \<Longrightarrow> heap_ok (h\<lparr>iters := (iters h)(it \<mapsto> i)\<rparr>)"
  by (simp add: heap_ok_def)

lemma sweep_ok:
  assumes "list_at h l (as @ bs) (vs @ ws)" and "heap_ok h" and "length vs = length as" and "length bs < fuel"
    and "iters h it = Some \<lparr>i_next = hd_ptr bs NULL, i_direction = AL_START_HEAD\<rparr>"
  shows "\<exists>h' cs. sweep fuel P h (Some l) (Some it) = Inr h' \<and> heap_ok h' \<and> list_at h' l (as @ cs) (vs @ filter (\<lambda>v. \<not> P v) ws) \<and>
    freed h' = freed h @ free_calls (fst (snd (header h l))) (filter P ws)"
  using assms
proof (induction bs arbitrary: as vs ws h fuel)
  case Nil
  then obtain k where k: "fuel = Suc k" by (cases fuel) auto
  have "ws = []" using list_at_length [OF Nil(1)] Nil(3) by simp
  then show ?case using Nil k by (auto simp: listNext_def intro: exI [of _ "[]"])
next
  case (Cons b bs)
  have "length ws = Suc (length bs)" using list_at_length [OF Cons.prems(1)] Cons.prems(3) by simp
  then obtain k w ws' where k: "fuel = Suc k" and ws: "ws = w # ws'"
    using Cons.prems(4) by (cases fuel; cases ws) auto
  let ?i = "\<lparr>i_next = hd_ptr bs NULL, i_direction = AL_START_HEAD\<rparr>"
  let ?h = "h\<lparr>iters := (iters h)(it \<mapsto> ?i)\<rparr>"
  have dl: "dl (nodes h) (last_ptr as NULL) (b # bs) (w # ws') NULL"
    using Cons.prems(1,3) ws by (auto simp: list_at_def dl_append)
  have it: "it < lbrk h" using Cons.prems(2,5) by (metis heap_ok_def not_le option.distinct(1))
  note at' = Cons.prems(1) [unfolded ws] and ok' = heap_ok_iters [OF Cons.prems(2) it]
  have run: "sweep fuel P h (Some l) (Some it) =
      bind_res (if P w then listDelNode ?h (Some l) (Some b) else Inr ?h) (\<lambda>h. sweep k P h (Some l) (Some it))"
    using next_forward [OF Cons.prems(5) dl] dl k by (simp add: get_node_def)
  show ?case
  proof (cases "P w")
    case True
    obtain h1 where h1: "listDelNode ?h (Some l) (Some b) = Inr h1" "list_at h1 l (as @ bs) (vs @ ws')" "heap_ok h1"
        "only (set (as @ b # bs)) {l} ?h h1" "header h1 l = header ?h l"
        "freed h1 = freed ?h @ (case fst (snd (header ?h l)) of None \<Rightarrow> [] | Some f \<Rightarrow> [(f, w)])"
      using delNode_at [of ?h l as b bs vs w ws'] at' ok' Cons.prems(3) by auto
    have "iters h1 it = Some ?i" using h1(4) by (simp add: only_def)
    then show ?thesis
      using Cons.IH [OF h1(2,3) Cons.prems(3), of k] h1 run True Cons.prems(4) k ws
      by (cases "fst (snd (header h l))") auto
  next
    case False
    have "\<exists>h' cs. sweep k P ?h (Some l) (Some it) = Inr h' \<and> heap_ok h' \<and>
        list_at h' l ((as @ [b]) @ cs) ((vs @ [w]) @ filter (\<lambda>v. \<not> P v) ws') \<and>
        freed h' = freed ?h @ free_calls (fst (snd (header ?h l))) (filter P ws')"
      by (rule Cons.IH) (use at' ok' Cons.prems(3,4) k in simp_all)
    then show ?thesis using run False ws by auto
  qed
qed

section \<open>Properties\<close>

definition sample :: lheap where
  \<comment> \<open>a list of three nodes whose client has a free function, for the witnesses\<close>
  "sample = \<lparr>nodes = [1 \<mapsto> \<lparr>n_prev = NULL, n_next = Some 2, n_value = Some 10\<rparr>,
       2 \<mapsto> \<lparr>n_prev = Some 1, n_next = Some 3, n_value = Some 20\<rparr>,
       3 \<mapsto> \<lparr>n_prev = Some 2, n_next = NULL, n_value = Some 30\<rparr>],
     lists = [0 \<mapsto> \<lparr>l_head = Some 1, l_tail = Some 3, l_dup = None, l_free = Some 7, l_match = None, l_len = 3\<rparr>],
     iters = [4 \<mapsto> \<lparr>i_next = Some 1, i_direction = AL_START_HEAD\<rparr>], freed = [], made = [], ticks = 0, lbrk = 5\<rparr>"

lemma sample_at: "list_at sample 0 [1, 2, 3] [Some 10, Some 20, Some 30]"
  by (simp add: list_at_def sample_def)

lemma sample_ok: "heap_ok sample"
  by (simp add: heap_ok_def sample_def)

text \<open>Releasing a list frees each of its nodes and its header, no other memory, and hands each
  value once, in order, to the client's free function.\<close>

lemma adlist_release:
  assumes "list_at h l as vs" and "heap_ok h"
  shows "\<exists>h'. listRelease h (Some l) = Inr h' \<and> nodes h' = (nodes h) |` (- set as) \<and>
    lists h' = (lists h)(l := None) \<and> iters h' = iters h \<and> heap_ok h' \<and>
    freed h' = freed h @ free_calls (fst (snd (header h l))) vs"
  using release_at [OF assms] by blast

lemma adlist_release_witness:
  "\<exists>h'. listRelease sample (Some 0) = Inr h' \<and> nodes h' = Map.empty \<and>
    freed h' = [(7, Some 10), (7, Some 20), (7, Some 30)]"
  using adlist_release [OF sample_at sample_ok]
  by (auto simp: sample_def header_def restrict_map_def fun_eq_iff)

text \<open>C35. An index counts from the head, a negative one from the tail with -1 for the last node;
  out of range gives NULL; the least \<^verbatim>\<open>long\<close> overflows when it is negated.\<close>

theorem adlist_index:
  assumes "list_at h l as vs" and "- (2 ^ 63) \<le> i"
  shows "listIndex h (Some l) i = (
    if i = - (2 ^ 63) then Inl SignedOverflow
    else if 0 \<le> i \<and> i < int (length as) then Inr (Some (as ! nat i))
    else if i < 0 \<and> - i \<le> int (length as) then Inr (Some (as ! nat (int (length as) + i)))
    else Inr NULL)"
proof -
  have "length as - nat (- i) = nat (int (length as) + i)" if "i < 0" "- i \<le> int (length as)"
    using that by simp
  then show ?thesis
    using index_at [OF assms(1), of i] index_overflow [of h "Some l"] assms(2) by (auto simp: LONG_MIN_def)
qed

theorem adlist_index_witness: "listIndex sample (Some 0) (- 3) = Inr (Some 1)"
  using adlist_index [OF sample_at, of "- 3"] by simp

text \<open>Searching returns the first node whose value the match function accepts (without one,
  whose pointer is the key), or NULL, and leaves the lists as they were; when the iterator cannot be
  allocated the code dereferences NULL.\<close>

lemma adlist_search:
  assumes "list_at h l as vs" and "heap_ok h"
  shows "listSearchKey mem h (Some l) key =
    (if mem (ticks h)
     then Inr (first_match (matches (snd (snd (header h l))) key) as vs, h\<lparr>ticks := ticks h + 1, lbrk := lbrk h + 1\<rparr>)
     else Inl NullDeref)"
  using search_at [where mem = mem, OF assms, of key] search_no_memory [of mem h "Some l" key] by simp

lemma adlist_search_witness:
  "\<exists>h'. listSearchKey (\<lambda>_. True) sample (Some 0) (Some 20) = Inr (Some 2, h')"
  using adlist_search [OF sample_at sample_ok, of "\<lambda>_. True" "Some 20"] by (simp add: sample_def header_def matches_def)

text \<open>C20.  Copying a list: with memory for the copy's header and the iterator the call either returns
  a new list with the copied values and the same functions, or NULL after giving back the nodes, the
  header and the iterator, according to the copy function and the allocator alone; the original and all other
  lists are as before.  When it fails, the values already added are handed to the free function: those the copy
  function made, or, without one, the values the original list still holds.  A value the copy function
  made before its node could not be allocated is lost: it is in no list and was not freed.  Without memory for the
  header the function returns no value, without memory for the iterator it dereferences NULL.\<close>

theorem adlist_dup:
  assumes "list_at h l as vs" and "heap_ok h"
  shows "if \<not> mem (ticks h) then listDup mem h (Some l) = Inl MissingReturn
    else if \<not> mem (Suc (ticks h)) then listDup mem h (Some l) = Inl NullDeref
    else case copies mem (fst (header h l)) (ticks h + 2) vs of
      None \<Rightarrow> \<exists>h' added lost. listDup mem h (Some l) = Inr (NULL, h') \<and> same_heap h h' \<and>
        attempt mem (fst (header h l)) (ticks h + 2) vs = (added, lost) \<and>
        freed h' = freed h @ free_calls (fst (snd (header h l))) added \<and>
        made h' = made h @ by_dup (fst (header h l)) (added @ lost)
    | Some us \<Rightarrow> \<exists>h' cs. listDup mem h (Some l) = Inr (Some (lbrk h), h') \<and> list_at h' (lbrk h) cs us \<and>
        header h' (lbrk h) = header h l \<and> (\<forall>l' ds ws. list_at h l' ds ws \<longrightarrow> list_at h' l' ds ws) \<and>
        freed h' = freed h \<and> made h' = made h @ by_dup (fst (header h l)) us"
proof -
  have "listDup mem h (Some l) = Inl MissingReturn" if "\<not> mem (ticks h)"
    using that by (simp add: listDup_def listCreate_def malloc_def)
  moreover have "listDup mem h (Some l) = Inl NullDeref" if "mem (ticks h)" "\<not> mem (Suc (ticks h))"
    using that assms list_at_header [OF assms]
    by (auto simp: listDup_def create_ok get_list_def set_list_def listGetIterator_def malloc_def listNext_def list_at_def)
  moreover have "list_at (drop_iter h' it) l' ds ws" if "copying h h' (lbrk h) it cs us" "list_at h l' ds ws" for h' it cs us l' ds ws
  proof -
    have "only (set cs) {lbrk h} h (h'\<lparr>iters := iters h\<rparr>)" using that(1) by (auto simp: copying_def only_def)
    moreover have "set ds \<inter> set cs = {}" "l' \<noteq> lbrk h"
      using that list_at_nodes [OF that(2) assms(2)] list_at_header [OF that(2) assms(2)] unfolding copying_def
      by (auto simp: disjoint_iff) (meson not_le)
    ultimately show ?thesis using list_at_other [OF that(2)] by (fastforce simp: drop_iter_def)
  qed
  moreover have "list_at (drop_iter h' it) (lbrk h) cs us" "freed (drop_iter h' it) = freed h" "made (drop_iter h' it) = made h'"
    if "copying h h' (lbrk h) it cs us" for h' it cs us
    using that by (simp_all add: copying_def list_at_iters drop_iter_def)
  ultimately show ?thesis
    using dup_at [where mem = mem, OF assms] unfolding dup_outcome_def
    by (cases "attempt mem (fst (header h l)) (ticks h + 2) vs") (auto split: option.splits, blast)
qed

definition dup_sample :: lheap where
  \<comment> \<open>the list of the witnesses with a copy function that adds one\<close>
  "dup_sample = sample\<lparr>lists := [0 \<mapsto> \<lparr>l_head = Some 1, l_tail = Some 3, l_dup = Some (\<lambda>_. map_option Suc), l_free = Some 7,
     l_match = None, l_len = 3\<rparr>]\<rparr>"

theorem adlist_dup_witness:
  "(\<exists>h' cs. listDup (\<lambda>_. True) sample (Some 0) = Inr (Some 5, h') \<and> list_at h' 5 cs [Some 10, Some 20, Some 30] \<and>
      list_at h' 0 [1, 2, 3] [Some 10, Some 20, Some 30]) \<and>
    (\<exists>h'. listDup (\<lambda>t. t \<noteq> 5) dup_sample (Some 0) = Inr (NULL, h') \<and> nodes h' = nodes dup_sample \<and>
      freed h' = [(7, Some 11)] \<and> made h' = [Some 11, Some 21])"
proof
  have "fst (header sample 0) = None" "lbrk sample = 5" by (simp_all add: header_def sample_def)
  then show "\<exists>h' cs. listDup (\<lambda>_. True) sample (Some 0) = Inr (Some 5, h') \<and> list_at h' 5 cs [Some 10, Some 20, Some 30] \<and>
      list_at h' 0 [1, 2, 3] [Some 10, Some 20, Some 30]"
    using adlist_dup [OF sample_at sample_ok, of "\<lambda>_. True"] sample_at by (simp add: copies_None_d) blast
  have "list_at dup_sample 0 [1, 2, 3] [Some 10, Some 20, Some 30]" "heap_ok dup_sample"
    by (simp_all add: list_at_def heap_ok_def dup_sample_def sample_def)
  from adlist_dup [OF this, of "\<lambda>t. t \<noteq> 5"]
  show "\<exists>h'. listDup (\<lambda>t. t \<noteq> 5) dup_sample (Some 0) = Inr (NULL, h') \<and> nodes h' = nodes dup_sample \<and>
      freed h' = [(7, Some 11)] \<and> made h' = [Some 11, Some 21]"
    by (simp add: dup_sample_def sample_def header_def by_dup_def same_heap_def numeral_eq_Suc) blast
qed

text \<open>C19.  A loop over \<open>listNext\<close> may delete the nodes it is given: it ends, every node is visited once,
  the list keeps exactly the values not deleted, in order, and each deleted value is freed once.\<close>

theorem adlist_delete_while_iterating:
  assumes "list_at h l as vs" and "heap_ok h" and "length as < fuel"
    and "iters h it = Some \<lparr>i_next = hd_ptr as NULL, i_direction = AL_START_HEAD\<rparr>"
  shows "\<exists>h' cs. sweep fuel P h (Some l) (Some it) = Inr h' \<and> heap_ok h' \<and> list_at h' l cs (filter (\<lambda>v. \<not> P v) vs) \<and>
    freed h' = freed h @ free_calls (fst (snd (header h l))) (filter P vs)"
  using sweep_ok [of h l "[]" as "[]" vs fuel it P] assms by simp

theorem adlist_delete_while_iterating_witness:
  "\<exists>h' cs. sweep 4 (\<lambda>v. v \<noteq> Some 20) sample (Some 0) (Some 4) = Inr h' \<and> list_at h' 0 cs [Some 20] \<and>
    freed h' = [(7, Some 10), (7, Some 30)]"
  using adlist_delete_while_iterating [OF sample_at sample_ok, of 4 4 "\<lambda>v. v \<noteq> Some 20"] by (auto simp: sample_def header_def)

end
