(* ===== verification/Adlist_Access.thy ===== *)
theory Adlist_Access
  imports Adlist
begin

text \<open>
  The access macros of \<^verbatim>\<open>adlist.h\<close>, and what a client sees through them: walking from
  \<^verbatim>\<open>listFirst\<close> with \<^verbatim>\<open>listNextNode\<close>, or from \<^verbatim>\<open>listLast\<close> with \<^verbatim>\<open>listPrevNode\<close>, ends and meets every value of
  the list once; a function set for the list is the one that release, copy and search use afterwards.
\<close>

section \<open>Macros\<close>

definition listLength :: "lheap \<Rightarrow> ptr \<Rightarrow> 64 word res" where
  "listLength h l = bind_res (get_list h l) (\<lambda>L. Inr (l_len L))"

definition listFirst :: "lheap \<Rightarrow> ptr \<Rightarrow> ptr res" where
  "listFirst h l = bind_res (get_list h l) (\<lambda>L. Inr (l_head L))"

definition listLast :: "lheap \<Rightarrow> ptr \<Rightarrow> ptr res" where
  "listLast h l = bind_res (get_list h l) (\<lambda>L. Inr (l_tail L))"

definition listPrevNode :: "lheap \<Rightarrow> ptr \<Rightarrow> ptr res" where
  "listPrevNode h n = bind_res (get_node h n) (\<lambda>n. Inr (n_prev n))"

definition listNextNode :: "lheap \<Rightarrow> ptr \<Rightarrow> ptr res" where
  "listNextNode h n = bind_res (get_node h n) (\<lambda>n. Inr (n_next n))"

definition listNodeValue :: "lheap \<Rightarrow> ptr \<Rightarrow> val res" where
  "listNodeValue h n = bind_res (get_node h n) (\<lambda>n. Inr (n_value n))"

definition listSetDupMethod :: "lheap \<Rightarrow> ptr \<Rightarrow> (nat \<Rightarrow> val \<Rightarrow> val) option \<Rightarrow> lheap res" where
  "listSetDupMethod h l m = set_list h l (\<lambda>L. L\<lparr>l_dup := m\<rparr>)"

definition listSetFreeMethod :: "lheap \<Rightarrow> ptr \<Rightarrow> nat option \<Rightarrow> lheap res" where
  "listSetFreeMethod h l m = set_list h l (\<lambda>L. L\<lparr>l_free := m\<rparr>)"

definition listSetMatchMethod :: "lheap \<Rightarrow> ptr \<Rightarrow> (val \<Rightarrow> val \<Rightarrow> val) option \<Rightarrow> lheap res" where
  "listSetMatchMethod h l m = set_list h l (\<lambda>L. L\<lparr>l_match := m\<rparr>)"

definition listGetDupMethod :: "lheap \<Rightarrow> ptr \<Rightarrow> (nat \<Rightarrow> val \<Rightarrow> val) option res" where
  "listGetDupMethod h l = bind_res (get_list h l) (\<lambda>L. Inr (l_dup L))"

definition listGetFree :: "lheap \<Rightarrow> ptr \<Rightarrow> nat option res" where
  "listGetFree h l = bind_res (get_list h l) (\<lambda>L. Inr (l_free L))"

definition listGetMatchMethod :: "lheap \<Rightarrow> ptr \<Rightarrow> (val \<Rightarrow> val \<Rightarrow> val) option res" where
  "listGetMatchMethod h l = bind_res (get_list h l) (\<lambda>L. Inr (l_match L))"

lemmas access_defs = listLength_def listFirst_def listLast_def listPrevNode_def listNextNode_def listNodeValue_def

lemmas method_defs = listSetDupMethod_def listSetFreeMethod_def listSetMatchMethod_def
  listGetDupMethod_def listGetFree_def listGetMatchMethod_def

section \<open>Walking a list\<close>

fun collect :: "nat \<Rightarrow> (lheap \<Rightarrow> ptr \<Rightarrow> ptr res) \<Rightarrow> lheap \<Rightarrow> ptr \<Rightarrow> val list res" where
  \<comment> \<open>a client's loop over the nodes, \<open>step\<close> being one of the two macros\<close>
  "collect 0 step h n = Inl Diverges"
| "collect (Suc k) step h n =
     (if n = NULL then Inr []
      else bind_res (listNodeValue h n) (\<lambda>v.
           bind_res (step h n) (\<lambda>n.
           bind_res (collect k step h n) (\<lambda>vs. Inr (v # vs)))))"

lemma collect_next: "dl (nodes h) p as vs NULL \<Longrightarrow> length as < k \<Longrightarrow> collect k listNextNode h (hd_ptr as NULL) = Inr vs"
proof (induction as arbitrary: p vs k)
  case Nil
  then show ?case by (cases k; cases vs) simp_all
next
  case (Cons a as)
  then obtain v ws k' where "vs = v # ws" "k = Suc k'" by (cases vs; cases k) auto
  then show ?case using Cons.prems Cons.IH [of "Some a" ws k'] by (simp add: access_defs get_node_def)
qed

lemma collect_prev:
  "dl (nodes h) NULL as vs q \<Longrightarrow> length as < k \<Longrightarrow> collect k listPrevNode h (last_ptr as NULL) = Inr (rev vs)"
proof (induction as arbitrary: vs q k rule: rev_induct)
  case Nil
  then show ?case by (cases k; cases vs) simp_all
next
  case (snoc a as)
  have "length vs = Suc (length as)" using dl_length [OF snoc.prems(1)] by simp
  then obtain v ws where vs: "vs = ws @ [v]" "length ws = length as" by (cases vs rule: rev_cases) auto
  then have seg: "dl (nodes h) NULL as ws (Some a)" and a: "nodes h a = Some \<lparr>n_prev = last_ptr as NULL, n_next = q, n_value = v\<rparr>"
    using snoc.prems(1) by (simp_all add: dl_append)
  obtain k' where "k = Suc k'" using snoc.prems(2) by (cases k) auto
  then show ?case using snoc.IH [OF seg, of k'] snoc.prems(2) a vs(1) by (simp add: access_defs get_node_def)
qed

lemma adlist_walk:
  assumes "list_at h l as vs" and "length as < k"
  shows "bind_res (listFirst h (Some l)) (collect k listNextNode h) = Inr vs"
    and "bind_res (listLast h (Some l)) (collect k listPrevNode h) = Inr (rev vs)"
    and "listLength h (Some l) = Inr (of_nat (length vs))"
proof -
  obtain L where L: "lists h l = Some L" "l_head L = hd_ptr as NULL" "l_tail L = last_ptr as NULL"
      "l_len L = of_nat (length as)" "length as < 2 ^ 64" "dl (nodes h) NULL as vs NULL"
    using assms(1) by (rule list_atE)
  show "bind_res (listFirst h (Some l)) (collect k listNextNode h) = Inr vs"
    using L(1,2) collect_next [OF L(6) assms(2)] by (simp add: access_defs get_list_def)
  show "bind_res (listLast h (Some l)) (collect k listPrevNode h) = Inr (rev vs)"
    using L(1,3) collect_prev [OF L(6) assms(2)] by (simp add: access_defs get_list_def)
  show "listLength h (Some l) = Inr (of_nat (length vs))"
    using L(1,4) dl_length [OF L(6)] by (simp add: access_defs get_list_def)
qed

section \<open>The functions of a list\<close>

lemma methods_kept:
  assumes "list_at h l as vs" and "heap_ok h"
  shows "\<exists>h'. listSetFreeMethod h (Some l) f = Inr h' \<and> list_at h' l as vs \<and> heap_ok h' \<and> freed h' = freed h \<and>
      header h' l = (fst (header h l), f, snd (snd (header h l))) \<and> listGetFree h' (Some l) = Inr f"
    and "\<exists>h'. listSetDupMethod h (Some l) d = Inr h' \<and> list_at h' l as vs \<and> heap_ok h' \<and> freed h' = freed h \<and>
      header h' l = (d, snd (header h l)) \<and> listGetDupMethod h' (Some l) = Inr d"
    and "\<exists>h'. listSetMatchMethod h (Some l) m = Inr h' \<and> list_at h' l as vs \<and> heap_ok h' \<and> freed h' = freed h \<and>
      header h' l = (fst (header h l), fst (snd (header h l)), m) \<and> listGetMatchMethod h' (Some l) = Inr m"
  using assms by (auto simp: method_defs heap_defs list_at_def heap_ok_def header_def)

end
