(* ===== verification/Adlist_Script.thy ===== *)
theory Adlist_Script
  imports Adlist Refinement
begin

text \<open>
  Scripts of calls on one list of \<^verbatim>\<open>adlist.c\<close>, as a client makes them: nodes are named by their addresses,
  allocations may fail, and other lists live in the same memory.  The reference \<open>alist\<close> is a plain list
  of addresses and values.  \<open>adlist_script\<close> shows that the calls answer as the reference does and leave the
  other lists alone.
\<close>

section \<open>The reference list\<close>

datatype lop = Add_head val | Add_tail val | Insert_by addr val bool | Delete addr | Rotate | Index int | Search val

record alist =
  al_nodes :: "(addr \<times> val) list"
  al_freed :: "(nat \<times> val) list"                   \<comment> \<open>calls of the client's free function\<close>
  al_ticks :: nat
  al_brk :: addr                                    \<comment> \<open>the address of the next allocation\<close>
  al_free :: "nat option"
  al_match :: "(val \<Rightarrow> val \<Rightarrow> val) option"

definition with_node :: "(nat \<Rightarrow> bool) \<Rightarrow> addr \<Rightarrow> (addr \<Rightarrow> (addr \<times> val) list \<Rightarrow> (addr \<times> val) list) \<Rightarrow> alist \<Rightarrow> ptr \<times> alist" where
  \<comment> \<open>a call that allocates a node: NULL when there is no memory\<close>
  "with_node mem l f a =
     (if mem (al_ticks a)
      then (Some l, a\<lparr>al_nodes := f (al_brk a) (al_nodes a), al_ticks := al_ticks a + 1, al_brk := al_brk a + 1\<rparr>)
      else (NULL, a\<lparr>al_ticks := al_ticks a + 1\<rparr>))"

definition beside :: "addr \<Rightarrow> bool \<Rightarrow> addr \<times> val \<Rightarrow> (addr \<times> val) list \<Rightarrow> (addr \<times> val) list" where
  "beside old after x xs = concat (map (\<lambda>y. if fst y = old then (if after then [y, x] else [x, y]) else [y]) xs)"

definition index_of :: "int \<Rightarrow> addr list \<Rightarrow> ptr" where
  \<comment> \<open>from the front, or with a negative index from the back\<close>
  "index_of i as = (let k = if 0 \<le> i then i else i + int (length as) in
     if 0 \<le> k \<and> k < int (length as) then Some (as ! nat k) else NULL)"

fun list_spec :: "(nat \<Rightarrow> bool) \<Rightarrow> addr \<Rightarrow> lop \<Rightarrow> alist \<Rightarrow> ptr \<times> alist" where
  "list_spec mem l (Add_head v) a = with_node mem l (\<lambda>c xs. (c, v) # xs) a"
| "list_spec mem l (Add_tail v) a = with_node mem l (\<lambda>c xs. xs @ [(c, v)]) a"
| "list_spec mem l (Insert_by old v after) a = with_node mem l (\<lambda>c. beside old after (c, v)) a"
| "list_spec mem l (Delete b) a =
     (NULL, a\<lparr>al_nodes := filter (\<lambda>x. fst x \<noteq> b) (al_nodes a),
       al_freed := al_freed a @ free_calls (al_free a) (map snd (filter (\<lambda>x. fst x = b) (al_nodes a)))\<rparr>)"
| "list_spec mem l Rotate a = (NULL, a\<lparr>al_nodes := rev (rotate1 (rev (al_nodes a)))\<rparr>)"
| "list_spec mem l (Index i) a = (index_of i (map fst (al_nodes a)), a)"
| "list_spec mem l (Search key) a =
     (map_option fst (List.find (\<lambda>x. matches (al_match a) key (snd x)) (al_nodes a)),
      a\<lparr>al_ticks := al_ticks a + 1, al_brk := al_brk a + 1\<rparr>)"

fun list_legal :: "(nat \<Rightarrow> bool) \<Rightarrow> lop \<Rightarrow> alist \<Rightarrow> bool" where
  \<comment> \<open>a node referred to is in the list; the iterator of a search can be allocated\<close>
  "list_legal mem (Add_head v) a \<longleftrightarrow> Suc (length (al_nodes a)) < 2 ^ 64"
| "list_legal mem (Add_tail v) a \<longleftrightarrow> Suc (length (al_nodes a)) < 2 ^ 64"
| "list_legal mem (Insert_by old v after) a \<longleftrightarrow> Suc (length (al_nodes a)) < 2 ^ 64 \<and> old \<in> fst ` set (al_nodes a)"
| "list_legal mem (Delete b) a \<longleftrightarrow> b \<in> fst ` set (al_nodes a)"
| "list_legal mem (Index i) a \<longleftrightarrow> LONG_MIN < i"
| "list_legal mem (Search key) a \<longleftrightarrow> mem (al_ticks a)"
| "list_legal mem Rotate a \<longleftrightarrow> True"

fun list_call :: "(nat \<Rightarrow> bool) \<Rightarrow> addr \<Rightarrow> lop \<Rightarrow> lheap \<Rightarrow> (ptr \<times> lheap) res" where
  "list_call mem l (Add_head v) h = listAddNodeHead mem h (Some l) v"
| "list_call mem l (Add_tail v) h = listAddNodeTail mem h (Some l) v"
| "list_call mem l (Insert_by old v after) h = listInsertNode mem h (Some l) (Some old) v after"
| "list_call mem l (Delete b) h = bind_res (listDelNode h (Some l) (Some b)) (\<lambda>h. Inr (NULL, h))"
| "list_call mem l Rotate h = bind_res (listRotate h (Some l)) (\<lambda>h. Inr (NULL, h))"
| "list_call mem l (Index i) h = bind_res (listIndex h (Some l) i) (\<lambda>p. Inr (p, h))"
| "list_call mem l (Search key) h = listSearchKey mem h (Some l) key"

section \<open>The list in memory\<close>

definition others :: "lheap \<Rightarrow> addr set \<Rightarrow> addr \<Rightarrow> lheap \<Rightarrow> addr set \<Rightarrow> bool" where
  \<comment> \<open>the lists of \<open>h0\<close> that share nothing with the list at \<open>l\<close> and its nodes \<open>A\<close> are still there\<close>
  "others h0 A l h B \<longleftrightarrow> heap_ok h0 \<and> lbrk h0 \<le> lbrk h \<and>
     (\<forall>l' cs us. l' \<noteq> l \<longrightarrow> list_at h0 l' cs us \<longrightarrow> set cs \<inter> A = {} \<longrightarrow> list_at h l' cs us \<and> set cs \<inter> B = {})"

lemma others_step:
  assumes "others h0 A l h B" and "only (insert (lbrk h) B) {l} h h'" and "B' \<subseteq> insert (lbrk h) B"
  shows "others h0 A l h' B'"
proof -
  have "lbrk h \<notin> set cs" if "list_at h0 l' cs us" for l' cs us
    using list_at_nodes [OF that] assms(1) by (force simp: others_def)
  then have "list_at h' l' cs us \<and> set cs \<inter> B' = {}"
    if "l' \<noteq> l" "list_at h0 l' cs us" "set cs \<inter> A = {}" for l' cs us
    using assms that list_at_other [OF _ assms(2), of l' cs us] unfolding others_def by blast
  then show ?thesis using assms(1,2) by (auto simp: others_def only_def)
qed

definition script_holds :: "lheap \<Rightarrow> addr set \<Rightarrow> addr \<Rightarrow> lheap \<Rightarrow> alist \<Rightarrow> bool" where
  "script_holds h0 A l h a \<longleftrightarrow> heap_ok h \<and> list_at h l (map fst (al_nodes a)) (map snd (al_nodes a)) \<and>
     freed h = al_freed a \<and> ticks h = al_ticks a \<and> lbrk h = al_brk a \<and> snd (header h l) = (al_free a, al_match a) \<and>
     others h0 A l h (fst ` set (al_nodes a))"

lemma script_holdsD:
  assumes "script_holds h0 A l h a"
  shows "heap_ok h" and "list_at h l (map fst (al_nodes a)) (map snd (al_nodes a))" and "freed h = al_freed a"
    and "ticks h = al_ticks a" and "lbrk h = al_brk a" and "snd (header h l) = (al_free a, al_match a)"
    and "others h0 A l h (fst ` set (al_nodes a))"
  using assms by (simp_all add: script_holds_def)

lemma beside_none: "old \<notin> fst ` set xs \<Longrightarrow> beside old after x xs = xs"
  by (induction xs) (auto simp: beside_def)

lemma beside_split:
  "old \<notin> fst ` set (xs @ ys) \<Longrightarrow> beside old after x (xs @ (old, w) # ys) = xs @ (if after then [(old, w), x] else [x, (old, w)]) @ ys"
  using beside_none [of old xs after x] beside_none [of old ys after x] by (simp add: beside_def image_Un)

lemma find_first_match: "map_option fst (List.find (\<lambda>x. P (snd x)) xs) = first_match P (map fst xs) (map snd xs)"
  by (induction xs) auto

lemma call_grown:
  assumes "script_holds h0 A l h a" and "mem (ticks h)"
    and "list_at h' l (map fst xs) (map snd xs)" and "grown h l (map fst (al_nodes a)) h'"
    and "f (al_brk a) (al_nodes a) = xs" and "fst ` set xs \<subseteq> insert (lbrk h) (fst ` set (al_nodes a))"
  shows "fst (with_node mem l f a) = Some l" and "script_holds h0 A l h' (snd (with_node mem l f a))"
proof -
  note D = script_holdsD [OF assms(1)]
  have "others h0 A l h' (fst ` set xs)"
    using assms(4) by (intro others_step [OF D(7) _ assms(6)]) simp
  then show "fst (with_node mem l f a) = Some l" "script_holds h0 A l h' (snd (with_node mem l f a))"
    using assms(2-5) D by (simp_all add: with_node_def script_holds_def)
qed

lemma call_no_memory:
  assumes "script_holds h0 A l h a" and "\<not> mem (ticks h)"
  shows "fst (with_node mem l f a) = NULL" and "script_holds h0 A l (h\<lparr>ticks := ticks h + 1\<rparr>) (snd (with_node mem l f a))"
proof -
  note D = script_holdsD [OF assms(1)]
  have "others h0 A l (h\<lparr>ticks := ticks h + 1\<rparr>) (fst ` set (al_nodes a))"
    by (rule others_step [OF D(7)]) (auto simp: only_def)
  then show "fst (with_node mem l f a) = NULL" "script_holds h0 A l (h\<lparr>ticks := ticks h + 1\<rparr>) (snd (with_node mem l f a))"
    using assms(2) D by (simp_all add: with_node_def script_holds_def heap_ok_def list_at_def header_def)
qed

lemma insert_call:
  assumes h: "script_holds h0 A l h a" and legal: "list_legal mem (Insert_by old v after) a" and mem: "mem (ticks h)"
  shows "\<exists>h'. listInsertNode mem h (Some l) (Some old) v after = Inr (Some l, h') \<and>
    script_holds h0 A l h' (snd (list_spec mem l (Insert_by old v after) a))"
proof -
  note D = script_holdsD [OF h]
  have dist: "distinct (map fst (al_nodes a))" by (rule list_at_distinct [OF D(2)])
  obtain xs w ys where xs: "al_nodes a = xs @ (old, w) # ys" using legal by (metis imageE list_legal.simps(3) prod.collapse split_list)
  then have new: "old \<notin> fst ` set (xs @ ys)" using dist by auto
  define as bs where "as = (if after then xs @ [(old, w)] else xs)" and "bs = (if after then ys else (old, w) # ys)"
  have ab: "al_nodes a = as @ bs" "if after then map fst as \<noteq> [] \<and> old = last (map fst as) else map fst bs \<noteq> [] \<and> old = hd (map fst bs)"
    by (simp_all add: xs as_def bs_def)
  have at: "list_at h l (map fst as @ map fst bs) (map snd as @ map snd bs)" using D(2) ab(1) by simp
  have len: "Suc (length (map fst as @ map fst bs)) < 2 ^ 64" using legal ab(1) by simp
  obtain h' where h': "listInsertNode mem h (Some l) (Some old) v after = Inr (Some l, h')"
      "list_at h' l (map fst as @ lbrk h # map fst bs) (map snd as @ v # map snd bs)" "grown h l (map fst as @ map fst bs) h'"
    using insertNode_at [where mem = mem and v = v, OF at D(1) _ mem len ab(2)] by auto
  have "beside old after (al_brk a, v) (al_nodes a) = as @ (al_brk a, v) # bs"
    using beside_split [OF new] by (simp add: xs as_def bs_def)
  then have "script_holds h0 A l h' (snd (with_node mem l (\<lambda>c. beside old after (c, v)) a))"
    using h'(2,3) ab(1) D(5) by (intro call_grown(2) [where mem = mem and xs = "as @ (al_brk a, v) # bs", OF h mem]) auto
  then show ?thesis using h'(1) by simp
qed

lemma delete_call:
  assumes h: "script_holds h0 A l h a" and legal: "list_legal mem (Delete b) a"
  shows "\<exists>h'. listDelNode h (Some l) (Some b) = Inr h' \<and> script_holds h0 A l h' (snd (list_spec mem l (Delete b) a))"
proof -
  note D = script_holdsD [OF h]
  obtain xs w ys where xs: "al_nodes a = xs @ (b, w) # ys" using legal by (metis imageE list_legal.simps(4) prod.collapse split_list)
  have "distinct (map fst (al_nodes a))" by (rule list_at_distinct [OF D(2)])
  then have new: "b \<notin> fst ` set xs" "b \<notin> fst ` set ys" using xs by auto
  have "filter (\<lambda>x. fst x \<noteq> b) zs = zs \<and> filter (\<lambda>x. fst x = b) zs = []" if "b \<notin> fst ` set zs" for zs :: "(addr \<times> val) list"
    using that by (induction zs) auto
  then have parts: "filter (\<lambda>x. fst x \<noteq> b) (al_nodes a) = xs @ ys" "map snd (filter (\<lambda>x. fst x = b) (al_nodes a)) = [w]"
    using new by (simp_all add: xs)
  have at: "list_at h l (map fst xs @ b # map fst ys) (map snd xs @ w # map snd ys)" using D(2) xs by simp
  obtain h' where h': "listDelNode h (Some l) (Some b) = Inr h'" "list_at h' l (map fst xs @ map fst ys) (map snd xs @ map snd ys)"
      "heap_ok h'" "only (set (map fst xs @ b # map fst ys)) {l} h h'" "header h' l = header h l"
      "freed h' = freed h @ (case al_free a of None \<Rightarrow> [] | Some f \<Rightarrow> [(f, w)])" "ticks h' = ticks h" "lbrk h' = lbrk h"
    using delNode_at [OF at D(1)] D(6) by auto
  have "others h0 A l h' (fst ` set (xs @ ys))"
    using only_mono [OF h'(4), of "insert (lbrk h) (fst ` set (al_nodes a))" "{l}"]
    by (intro others_step [OF D(7)]) (auto simp: xs)
  then show ?thesis
    using h' parts D by (auto simp: script_holds_def free_calls_def split: option.splits)
qed

lemma rotate_call:
  assumes h: "script_holds h0 A l h a"
  shows "\<exists>h'. listRotate h (Some l) = Inr h' \<and> script_holds h0 A l h' (snd (list_spec mem l Rotate a))"
proof (cases "al_nodes a" rule: rev_cases)
  case Nil
  note D = script_holdsD [OF h]
  have "listRotate h (Some l) = Inr h" using D(2) Nil by (auto simp: listRotate_def get_list_def list_at_def)
  moreover have "snd (list_spec mem l Rotate a) = a" using Nil by simp
  ultimately show ?thesis using h by simp
next
  case (snoc xs x)
  note D = script_holdsD [OF h]
  have at: "list_at h l (map fst xs @ [fst x]) (map snd xs @ [snd x])" using D(2) snoc by simp
  obtain h' where h': "listRotate h (Some l) = Inr h'" "list_at h' l (fst x # map fst xs) (snd x # map snd xs)"
      "heap_ok h'" "only (set (map fst xs @ [fst x])) {l} h h'" "header h' l = header h l" "freed h' = freed h"
      "ticks h' = ticks h" "lbrk h' = lbrk h"
    using rotate_at [OF at D(1)] by auto
  have "others h0 A l h' (fst ` set (x # xs))"
    using only_mono [OF h'(4), of "insert (lbrk h) (fst ` set (al_nodes a))" "{l}"]
    by (intro others_step [OF D(7)]) (auto simp: snoc)
  then show ?thesis using h' D by (auto simp: script_holds_def snoc)
qed

lemma index_call:
  assumes "script_holds h0 A l h a" and "LONG_MIN < i"
  shows "listIndex h (Some l) i = Inr (index_of i (map fst (al_nodes a)))"
proof -
  have "length (al_nodes a) - nat (- i) = nat (i + int (length (al_nodes a)))" if "i < 0" "- i \<le> int (length (al_nodes a))"
    using that by simp
  then show ?thesis
    using index_at [OF script_holdsD(2) [OF assms(1)] assms(2)] by (auto simp: index_of_def Let_def)
qed

lemma search_call:
  assumes h: "script_holds h0 A l h a" and mem: "mem (al_ticks a)"
  shows "\<exists>h'. listSearchKey mem h (Some l) key = Inr (fst (list_spec mem l (Search key) a), h') \<and>
    script_holds h0 A l h' (snd (list_spec mem l (Search key) a))"
proof -
  note D = script_holdsD [OF h]
  let ?h = "h\<lparr>ticks := ticks h + 1, lbrk := lbrk h + 1\<rparr>"
  have "mem (ticks h)" using mem D(4) by simp
  from search_at [where mem = mem, OF D(2,1) this, of key]
  have "listSearchKey mem h (Some l) key = Inr (fst (list_spec mem l (Search key) a), ?h)"
    using D(6) find_first_match [of "matches (al_match a) key" "al_nodes a"] by simp
  moreover have "others h0 A l ?h (fst ` set (al_nodes a))"
    by (rule others_step [OF D(7)]) (auto simp: only_def)
  ultimately show ?thesis using D by (simp add: script_holds_def heap_ok_def list_at_def header_def)
qed

interpretation als: operations "script_holds h0 A l" "list_call mem l" "list_legal mem" "list_spec mem l" for h0 A l mem
proof
  fix h a p assume h: "script_holds h0 A l h a" and legal: "list_legal mem p a"
  note D = script_holdsD [OF h]
  show "\<exists>h'. list_call mem l p h = Inr (fst (list_spec mem l p a), h') \<and> script_holds h0 A l h' (snd (list_spec mem l p a))"
  proof (cases p)
    case (Add_head v)
    then show ?thesis
      using addHead_at [where mem = mem and v = v, OF D(2,1)] legal D(5) call_grown [where mem = mem, OF h, of _ "(lbrk h, v) # al_nodes a"]
        call_no_memory [where mem = mem, OF h] by (cases "mem (ticks h)") (fastforce simp: add_no_memory)+
  next
    case (Add_tail v)
    then show ?thesis
      using addTail_at [where mem = mem and v = v, OF D(2,1)] legal D(5) call_grown [where mem = mem, OF h, of _ "al_nodes a @ [(lbrk h, v)]"]
        call_no_memory [where mem = mem, OF h] by (cases "mem (ticks h)") (fastforce simp: add_no_memory)+
  next
    case (Insert_by old v after)
    then show ?thesis
      using insert_call [where mem = mem, OF h] legal D(4) call_no_memory [where mem = mem, OF h]
      by (cases "mem (ticks h)") (auto simp: add_no_memory with_node_def)
  next
    case (Delete b)
    then obtain h' where "listDelNode h (Some l) (Some b) = Inr h'" "script_holds h0 A l h' (snd (list_spec mem l p a))"
      using delete_call [where mem = mem, OF h] legal by blast
    then show ?thesis using Delete by simp
  next
    case Rotate
    then show ?thesis using rotate_call [OF h] by auto
  next
    case (Index i)
    then show ?thesis using index_call [OF h, of i] legal h by simp
  next
    case (Search key)
    then show ?thesis using search_call [where mem = mem, OF h] legal by simp
  qed
qed

section \<open>Properties\<close>

text \<open>C18. The list is a list.  Whatever calls a client makes on a list (adding at both ends, inserting beside a node,
  deleting a node, rotating, indexing, searching) and whichever allocations fail, every call answers what the
  reference list answers, the list holds the same nodes with the same values in the same order, each deleted
  value was handed to the free function once, in order, and the other lists of the memory are as they were.\<close>

theorem adlist_script:
  assumes "list_at h l (map fst xs) (map snd xs)" and "heap_ok h" and "header h l = (d, f, m)"
    and "a = \<lparr>al_nodes = xs, al_freed = freed h, al_ticks = ticks h, al_brk = lbrk h, al_free = f, al_match = m\<rparr>"
    and "legal_run (list_legal mem) (list_spec mem l) ps a"
  shows "\<exists>h' a'. calls (list_call mem l) ps h = Inr (fst (answers (list_spec mem l) ps a), h') \<and>
    a' = snd (answers (list_spec mem l) ps a) \<and> heap_ok h' \<and> list_at h' l (map fst (al_nodes a')) (map snd (al_nodes a')) \<and>
    freed h' = al_freed a' \<and>
    (\<forall>l' cs us. l' \<noteq> l \<longrightarrow> list_at h l' cs us \<longrightarrow> set cs \<inter> fst ` set xs = {} \<longrightarrow> list_at h' l' cs us)"
proof -
  have "script_holds h (fst ` set xs) l h a"
    using assms(1-4) by (simp add: script_holds_def others_def)
  from als.script [OF this assms(5)] show ?thesis by (auto simp: script_holds_def others_def)
qed

theorem adlist_script_witness:
  "\<exists>h'. calls (list_call even 0) [Add_tail (Some 40), Insert_by 2 (Some 15) False, Delete 1, Rotate, Index (- 1)] sample =
      Inr ([Some 0, NULL, NULL, NULL, Some 3], h') \<and>
    list_at h' 0 [5, 2, 3] [Some 40, Some 20, Some 30] \<and> freed h' = [(7, Some 10)]"
proof -
  let ?ps = "[Add_tail (Some 40), Insert_by 2 (Some 15) False, Delete 1, Rotate, Index (- 1)]"
  let ?xs = "[(1, Some 10), (2, Some 20), (3, Some 30)]"
  let ?a = "\<lparr>al_nodes = ?xs, al_freed = [], al_ticks = 0, al_brk = 5, al_free = Some 7, al_match = None\<rparr>"
  have s: "freed sample = []" "ticks sample = 0" "lbrk sample = 5" "header sample 0 = (None, Some 7, None)"
    by (simp_all add: sample_def header_def)
  have run: "answers (list_spec even 0) ?ps ?a = ([Some 0, NULL, NULL, NULL, Some 3],
      ?a\<lparr>al_nodes := [(5, Some 40), (2, Some 20), (3, Some 30)], al_freed := [(7, Some 10)], al_ticks := 2, al_brk := 6\<rparr>)"
    by (simp add: with_node_def index_of_def)
  moreover have "legal_run (list_legal even) (list_spec even 0) ?ps ?a"
    by (simp add: with_node_def LONG_MIN_def)
  moreover have "list_at sample 0 (map fst ?xs) (map snd ?xs)" using sample_at by simp
  moreover have "?a = \<lparr>al_nodes = ?xs, al_freed = freed sample, al_ticks = ticks sample, al_brk = lbrk sample,
      al_free = Some 7, al_match = None\<rparr>" by (simp add: s)
  ultimately obtain h' a' where "calls (list_call even 0) ?ps sample = Inr (fst (answers (list_spec even 0) ?ps ?a), h')"
      "a' = snd (answers (list_spec even 0) ?ps ?a)" "list_at h' 0 (map fst (al_nodes a')) (map snd (al_nodes a'))" "freed h' = al_freed a'"
    using adlist_script [OF _ sample_ok s(4)] by metis
  then show ?thesis unfolding run by (intro exI [of _ h']) simp
qed

end
