(* ===== verification/Tailqueue.thy ===== *)
theory Tailqueue
  imports C_Text
begin

text \<open>
  The tail queue macros of libevent, \<^verbatim>\<open>tailqueue.h\<close>, and the program \<^verbatim>\<open>main.c\<close> that uses them.

  An element and a head are structures in maps.  A \<^verbatim>\<open>struct type **\<close> is the address of a forward
  pointer: that of a head (\<open>First q\<close>) or that of an element (\<open>Next a\<close>).  The macros \<open>TAILQ_LAST\<close>
  and \<open>TAILQ_PREV\<close> read such an address as a head, which works because the entry of an element has
  the layout of a head: the second field behind \<open>First q\<close> is \<open>tqh_last\<close>, behind \<open>Next a\<close> it is
  \<open>tqe_prev\<close> (\<open>second\<close>).

  \<open>queue_at h q as\<close>: the queue at \<open>q\<close> has the elements \<open>as\<close>.  The locale \<open>sequence\<close> states a script of
  operations against a list of elements.
\<close>

section \<open>Data\<close>

datatype loc = First addr | Next addr

record elem =
  tqe_next :: ptr
  tqe_prev :: loc
  devId :: int
  e_name :: "byte list"

record tq_head =
  tqh_first :: ptr
  tqh_last :: loc

record tq_heap =
  heads :: "addr \<rightharpoonup> tq_head"
  elems :: "addr \<rightharpoonup> elem"

definition get_head :: "tq_heap \<Rightarrow> addr \<Rightarrow> tq_head res" where
  "get_head h q = deref (heads h) (Some q)"

definition set_head :: "tq_heap \<Rightarrow> addr \<Rightarrow> (tq_head \<Rightarrow> tq_head) \<Rightarrow> tq_heap res" where
  "set_head h q f = bind_res (assign (heads h) (Some q) f) (\<lambda>m. Inr (h\<lparr>heads := m\<rparr>))"

definition get_elem :: "tq_heap \<Rightarrow> ptr \<Rightarrow> elem res" where
  "get_elem h p = deref (elems h) p"

definition set_elem :: "tq_heap \<Rightarrow> ptr \<Rightarrow> (elem \<Rightarrow> elem) \<Rightarrow> tq_heap res" where
  "set_elem h p f = bind_res (assign (elems h) p f) (\<lambda>m. Inr (h\<lparr>elems := m\<rparr>))"

definition read_next :: "tq_heap \<Rightarrow> loc \<Rightarrow> ptr res" where
  \<comment> \<open>\<^verbatim>\<open>*p\<close>\<close>
  "read_next h p = (case p of
       First q \<Rightarrow> bind_res (get_head h q) (\<lambda>H. Inr (tqh_first H))
     | Next a \<Rightarrow> bind_res (get_elem h (Some a)) (\<lambda>e. Inr (tqe_next e)))"

definition write_next :: "tq_heap \<Rightarrow> loc \<Rightarrow> ptr \<Rightarrow> tq_heap res" where
  \<comment> \<open>\<^verbatim>\<open>*p = e\<close>\<close>
  "write_next h p e = (case p of
       First q \<Rightarrow> set_head h q (\<lambda>H. H\<lparr>tqh_first := e\<rparr>)
     | Next a \<Rightarrow> set_elem h (Some a) (\<lambda>x. x\<lparr>tqe_next := e\<rparr>))"

definition second :: "tq_heap \<Rightarrow> loc \<Rightarrow> loc res" where
  \<comment> \<open>\<^verbatim>\<open>((struct headname *)p)->tqh_last\<close>\<close>
  "second h p = (case p of
       First q \<Rightarrow> bind_res (get_head h q) (\<lambda>H. Inr (tqh_last H))
     | Next a \<Rightarrow> bind_res (get_elem h (Some a)) (\<lambda>e. Inr (tqe_prev e)))"

section \<open>Macros\<close>

definition TAILQ_HEAD_INITIALIZER :: "addr \<Rightarrow> tq_head" where
  "TAILQ_HEAD_INITIALIZER q = \<lparr>tqh_first = NULL, tqh_last = First q\<rparr>"

definition TAILQ_FIRST :: "tq_heap \<Rightarrow> addr \<Rightarrow> ptr res" where
  "TAILQ_FIRST h q = bind_res (get_head h q) (\<lambda>H. Inr (tqh_first H))"

definition TAILQ_NEXT :: "tq_heap \<Rightarrow> ptr \<Rightarrow> ptr res" where
  "TAILQ_NEXT h elm = bind_res (get_elem h elm) (\<lambda>e. Inr (tqe_next e))"

definition TAILQ_LAST :: "tq_heap \<Rightarrow> addr \<Rightarrow> ptr res" where
  "TAILQ_LAST h q = bind_res (get_head h q) (\<lambda>H. bind_res (second h (tqh_last H)) (read_next h))"

definition TAILQ_PREV :: "tq_heap \<Rightarrow> ptr \<Rightarrow> ptr res" where
  "TAILQ_PREV h elm = bind_res (get_elem h elm) (\<lambda>e. bind_res (second h (tqe_prev e)) (read_next h))"

definition TAILQ_EMPTY :: "tq_heap \<Rightarrow> addr \<Rightarrow> bool res" where
  "TAILQ_EMPTY h q = bind_res (TAILQ_FIRST h q) (\<lambda>p. Inr (p = NULL))"

fun visit :: "nat \<Rightarrow> (ptr \<Rightarrow> ptr res) \<Rightarrow> ptr \<Rightarrow> addr list res" where
  \<comment> \<open>the elements a \<^verbatim>\<open>for\<close> loop runs over\<close>
  "visit 0 step var = Inl Diverges"
| "visit (Suc fuel) step var = (case var of
       None \<Rightarrow> Inr []
     | Some a \<Rightarrow> bind_res (step var) (\<lambda>p. bind_res (visit fuel step p) (\<lambda>as. Inr (a # as))))"

definition TAILQ_FOREACH :: "nat \<Rightarrow> tq_heap \<Rightarrow> addr \<Rightarrow> addr list res" where
  "TAILQ_FOREACH fuel h q = bind_res (TAILQ_FIRST h q) (visit fuel (TAILQ_NEXT h))"

definition TAILQ_FOREACH_REVERSE :: "nat \<Rightarrow> tq_heap \<Rightarrow> addr \<Rightarrow> addr list res" where
  "TAILQ_FOREACH_REVERSE fuel h q = bind_res (TAILQ_LAST h q) (visit fuel (TAILQ_PREV h))"

definition TAILQ_INIT :: "tq_heap \<Rightarrow> addr \<Rightarrow> tq_heap res" where
  "TAILQ_INIT h q =
     bind_res (set_head h q (\<lambda>H. H\<lparr>tqh_first := NULL\<rparr>)) (\<lambda>h.
     set_head h q (\<lambda>H. H\<lparr>tqh_last := First q\<rparr>))"

definition TAILQ_INSERT_HEAD :: "tq_heap \<Rightarrow> addr \<Rightarrow> addr \<Rightarrow> tq_heap res" where
  "TAILQ_INSERT_HEAD h q elm =
     bind_res (get_head h q) (\<lambda>H.
     bind_res (set_elem h (Some elm) (\<lambda>e. e\<lparr>tqe_next := tqh_first H\<rparr>)) (\<lambda>h.
     bind_res (if tqh_first H \<noteq> NULL then set_elem h (tqh_first H) (\<lambda>e. e\<lparr>tqe_prev := Next elm\<rparr>)
               else set_head h q (\<lambda>H. H\<lparr>tqh_last := Next elm\<rparr>)) (\<lambda>h.
     bind_res (set_head h q (\<lambda>H. H\<lparr>tqh_first := Some elm\<rparr>)) (\<lambda>h.
     set_elem h (Some elm) (\<lambda>e. e\<lparr>tqe_prev := First q\<rparr>)))))"

definition TAILQ_INSERT_TAIL :: "tq_heap \<Rightarrow> addr \<Rightarrow> addr \<Rightarrow> tq_heap res" where
  "TAILQ_INSERT_TAIL h q elm =
     bind_res (set_elem h (Some elm) (\<lambda>e. e\<lparr>tqe_next := NULL\<rparr>)) (\<lambda>h.
     bind_res (get_head h q) (\<lambda>H.
     bind_res (set_elem h (Some elm) (\<lambda>e. e\<lparr>tqe_prev := tqh_last H\<rparr>)) (\<lambda>h.
     bind_res (write_next h (tqh_last H) (Some elm)) (\<lambda>h.
     set_head h q (\<lambda>H. H\<lparr>tqh_last := Next elm\<rparr>)))))"

definition TAILQ_INSERT_AFTER :: "tq_heap \<Rightarrow> addr \<Rightarrow> addr \<Rightarrow> addr \<Rightarrow> tq_heap res" where
  "TAILQ_INSERT_AFTER h q listelm elm =
     bind_res (get_elem h (Some listelm)) (\<lambda>l.
     bind_res (set_elem h (Some elm) (\<lambda>e. e\<lparr>tqe_next := tqe_next l\<rparr>)) (\<lambda>h.
     bind_res (if tqe_next l \<noteq> NULL then set_elem h (tqe_next l) (\<lambda>e. e\<lparr>tqe_prev := Next elm\<rparr>)
               else set_head h q (\<lambda>H. H\<lparr>tqh_last := Next elm\<rparr>)) (\<lambda>h.
     bind_res (set_elem h (Some listelm) (\<lambda>e. e\<lparr>tqe_next := Some elm\<rparr>)) (\<lambda>h.
     set_elem h (Some elm) (\<lambda>e. e\<lparr>tqe_prev := Next listelm\<rparr>)))))"

definition TAILQ_INSERT_BEFORE :: "tq_heap \<Rightarrow> addr \<Rightarrow> addr \<Rightarrow> tq_heap res" where
  "TAILQ_INSERT_BEFORE h listelm elm =
     bind_res (get_elem h (Some listelm)) (\<lambda>l.
     bind_res (set_elem h (Some elm) (\<lambda>e. e\<lparr>tqe_prev := tqe_prev l\<rparr>)) (\<lambda>h.
     bind_res (set_elem h (Some elm) (\<lambda>e. e\<lparr>tqe_next := Some listelm\<rparr>)) (\<lambda>h.
     bind_res (get_elem h (Some listelm)) (\<lambda>l.
     bind_res (write_next h (tqe_prev l) (Some elm)) (\<lambda>h.
     set_elem h (Some listelm) (\<lambda>e. e\<lparr>tqe_prev := Next elm\<rparr>))))))"

definition TAILQ_REMOVE :: "tq_heap \<Rightarrow> addr \<Rightarrow> addr \<Rightarrow> tq_heap res" where
  "TAILQ_REMOVE h q elm =
     bind_res (get_elem h (Some elm)) (\<lambda>e.
     bind_res (if tqe_next e \<noteq> NULL then set_elem h (tqe_next e) (\<lambda>x. x\<lparr>tqe_prev := tqe_prev e\<rparr>)
               else set_head h q (\<lambda>H. H\<lparr>tqh_last := tqe_prev e\<rparr>)) (\<lambda>h.
     bind_res (get_elem h (Some elm)) (\<lambda>e.
     write_next h (tqe_prev e) (tqe_next e))))"

definition TAILQ_REPLACE :: "tq_heap \<Rightarrow> addr \<Rightarrow> addr \<Rightarrow> addr \<Rightarrow> tq_heap res" where
  "TAILQ_REPLACE h q elm elm2 =
     bind_res (get_elem h (Some elm)) (\<lambda>e.
     bind_res (set_elem h (Some elm2) (\<lambda>x. x\<lparr>tqe_next := tqe_next e\<rparr>)) (\<lambda>h.
     bind_res (if tqe_next e \<noteq> NULL then set_elem h (tqe_next e) (\<lambda>x. x\<lparr>tqe_prev := Next elm2\<rparr>)
               else set_head h q (\<lambda>H. H\<lparr>tqh_last := Next elm2\<rparr>)) (\<lambda>h.
     bind_res (get_elem h (Some elm)) (\<lambda>e.
     bind_res (set_elem h (Some elm2) (\<lambda>x. x\<lparr>tqe_prev := tqe_prev e\<rparr>)) (\<lambda>h.
     write_next h (tqe_prev e) (Some elm2))))))"

section \<open>The program\<close>

definition new_elem :: "bool \<Rightarrow> tq_heap \<Rightarrow> addr \<Rightarrow> elem \<Rightarrow> ptr \<times> tq_heap" where
  \<comment> \<open>\<^verbatim>\<open>malloc\<close> at an unused address, with whatever the memory holds\<close>
  "new_elem mem h a junk = (if mem then (Some a, h\<lparr>elems := (elems h)(a \<mapsto> junk)\<rparr>) else (NULL, h))"

definition set_info :: "tq_heap \<Rightarrow> ptr \<Rightarrow> int \<Rightarrow> byte list \<Rightarrow> tq_heap res" where
  "set_info h p i s =
     bind_res (set_elem h p (\<lambda>e. e\<lparr>devId := i\<rparr>)) (\<lambda>h.
     check (length s < 32) OutOfBounds (set_elem h p (\<lambda>e. e\<lparr>e_name := s\<rparr>)))"

definition print_elem :: "tq_heap \<Rightarrow> addr \<Rightarrow> byte list res" where
  "print_elem h a = bind_res (get_elem h (Some a)) (\<lambda>e. Inr (dec (devId e) @ str '', '' @ e_name e @ [10]))"

definition print_all :: "tq_heap \<Rightarrow> addr list \<Rightarrow> byte list res" where
  "print_all h as = fold_res (\<lambda>out a. bind_res (print_elem h a) (\<lambda>s. Inr (out @ s))) [] as"

definition free_elem :: "tq_heap \<Rightarrow> ptr \<Rightarrow> tq_heap res" where
  "free_elem h p = bind_res (dealloc (elems h) p) (\<lambda>m. Inr (h\<lparr>elems := m\<rparr>))"

definition obj_addr :: "ptr \<Rightarrow> addr res" where
  "obj_addr p = (case p of None \<Rightarrow> Inl NullDeref | Some a \<Rightarrow> Inr a)"

definition main :: "(nat \<Rightarrow> bool) \<Rightarrow> tq_head \<Rightarrow> elem \<Rightarrow> (byte list \<times> tq_heap) res" where
  \<comment> \<open>\<open>junk_head\<close> and \<open>junk\<close>: what the uninitialised head and the allocated memory hold\<close>
  "main mem junk_head junk =
     bind_res (TAILQ_INIT \<lparr>heads = [0 \<mapsto> junk_head], elems = Map.empty\<rparr> 0) (\<lambda>h.
     let (obj0, h) = new_elem (mem 0) h 1 junk;
         (obj1, h) = new_elem (mem 1) h 2 junk;
         (obj2, h) = new_elem (mem 2) h 3 junk in
     bind_res (set_info h obj0 0 (str ''zhangfei'')) (\<lambda>h.
     bind_res (set_info h obj1 1 (str ''liubei'')) (\<lambda>h.
     bind_res (set_info h obj2 2 (str ''guanyu'')) (\<lambda>h.
     bind_res (obj_addr obj0) (\<lambda>o0.
     bind_res (obj_addr obj1) (\<lambda>o1.
     bind_res (obj_addr obj2) (\<lambda>o2.
     bind_res (TAILQ_INSERT_HEAD h 0 o0) (\<lambda>h.
     bind_res (TAILQ_INSERT_HEAD h 0 o1) (\<lambda>h.
     bind_res (TAILQ_INSERT_BEFORE h o0 o2) (\<lambda>h.
     bind_res (TAILQ_FOREACH 4 h 0) (\<lambda>as.
     bind_res (print_all h as) (\<lambda>out.
     bind_res (free_elem h obj0) (\<lambda>h.
     bind_res (free_elem h obj1) (\<lambda>h.
     bind_res (free_elem h obj2) (\<lambda>h.
     Inr (out, h))))))))))))))))"

section \<open>Representation\<close>

abbreviation links :: "(addr \<rightharpoonup> elem) \<Rightarrow> loc \<Rightarrow> addr list \<Rightarrow> ptr \<Rightarrow> bool" where
  "links \<equiv> dseg tqe_next tqe_prev Next"

definition q_front :: "tq_heap \<Rightarrow> addr \<Rightarrow> addr list \<Rightarrow> ptr \<Rightarrow> bool" where
  \<comment> \<open>the first elements of a queue, up to a pointer to the rest\<close>
  "q_front h q xs n \<longleftrightarrow> (\<exists>H. heads h q = Some H \<and> tqh_first H = hd_ptr xs n) \<and> links (elems h) (First q) xs n"

definition q_back :: "tq_heap \<Rightarrow> addr \<Rightarrow> addr list \<Rightarrow> loc \<Rightarrow> bool" where
  \<comment> \<open>the last elements of a queue, behind the address of a pointer\<close>
  "q_back h q ys p \<longleftrightarrow> (\<exists>H. heads h q = Some H \<and> tqh_last H = last_loc Next ys p) \<and> links (elems h) p ys NULL"

definition queue_at :: "tq_heap \<Rightarrow> addr \<Rightarrow> addr list \<Rightarrow> bool" where
  "queue_at h q as \<longleftrightarrow> q_front h q as NULL \<and> q_back h q [] (last_loc Next as (First q))"

definition pos :: "addr \<Rightarrow> addr list \<Rightarrow> loc" where
  \<comment> \<open>the address of the pointer behind the elements \<open>xs\<close> of the queue \<open>q\<close>\<close>
  "pos q xs = last_loc Next xs (First q)"

lemma pos_simps [simp]: "pos q [] = First q" "pos q (xs @ [x]) = Next x" "pos q [x] = Next x"
  by (simp_all add: pos_def)

lemma last_loc_append: "last_loc f (xs @ ys) p = last_loc f ys (last_loc f xs p)"
  by (induction xs arbitrary: p) simp_all

lemma queue_split: "queue_at h q (xs @ ys) \<longleftrightarrow> q_front h q xs (hd_ptr ys NULL) \<and> q_back h q ys (pos q xs)"
  by (auto simp: queue_at_def q_front_def q_back_def pos_def dseg_append last_loc_append hd_ptr_append)

lemma queue_join:
  "q_front h q xs (Some e) \<Longrightarrow> q_back h q ys (Next e) \<Longrightarrow> elems h e = Some x \<Longrightarrow> tqe_prev x = pos q xs \<Longrightarrow>
   tqe_next x = hd_ptr ys NULL \<Longrightarrow> queue_at h q (xs @ e # ys)"
  by (auto simp: queue_split q_back_def)

lemma queue_elem:
  assumes "queue_at h q (xs @ e # ys)"
  shows "q_front h q xs (Some e)" and "q_back h q ys (Next e)"
    and "\<exists>x. elems h e = Some x \<and> tqe_prev x = pos q xs \<and> tqe_next x = hd_ptr ys NULL"
  using assms by (auto simp: queue_split q_back_def)

lemma queue_distinct: "queue_at h q as \<Longrightarrow> distinct as"
  by (auto simp: queue_at_def q_front_def dest: dseg_distinct)

lemma queue_dom: "queue_at h q as \<Longrightarrow> a \<in> set as \<Longrightarrow> \<exists>e. elems h a = Some e"
  by (auto simp: queue_at_def q_front_def dest: dseg_dom)

section \<open>Writes\<close>

definition put_elem :: "tq_heap \<Rightarrow> addr \<Rightarrow> (elem \<Rightarrow> elem) \<Rightarrow> tq_heap" where
  "put_elem h a f = h\<lparr>elems := (elems h)(a := map_option f (elems h a))\<rparr>"

definition put_head :: "tq_heap \<Rightarrow> addr \<Rightarrow> (tq_head \<Rightarrow> tq_head) \<Rightarrow> tq_heap" where
  "put_head h q f = h\<lparr>heads := (heads h)(q := map_option f (heads h q))\<rparr>"

definition put_next :: "tq_heap \<Rightarrow> addr \<Rightarrow> addr list \<Rightarrow> ptr \<Rightarrow> tq_heap" where
  \<comment> \<open>the pointer behind \<open>xs\<close>\<close>
  "put_next h q xs e = (if xs = [] then put_head h q (\<lambda>H. H\<lparr>tqh_first := e\<rparr>)
     else put_elem h (last xs) (\<lambda>x. x\<lparr>tqe_next := e\<rparr>))"

definition put_prev :: "tq_heap \<Rightarrow> addr \<Rightarrow> addr list \<Rightarrow> loc \<Rightarrow> tq_heap" where
  \<comment> \<open>the address kept before \<open>ys\<close>\<close>
  "put_prev h q ys p = (if ys = [] then put_head h q (\<lambda>H. H\<lparr>tqh_last := p\<rparr>)
     else put_elem h (hd ys) (\<lambda>x. x\<lparr>tqe_prev := p\<rparr>))"

lemma put_fields [simp]:
  "heads (put_elem h a f) = heads h" "elems (put_head h q g) = elems h"
  "elems (put_elem h a f) b = (if b = a then map_option f (elems h a) else elems h b)"
  "heads (put_head h q g) r = (if r = q then map_option g (heads h q) else heads h r)"
  by (simp_all add: put_elem_def put_head_def)

lemma set_elem_ok: "elems h a \<noteq> None \<Longrightarrow> set_elem h (Some a) f = Inr (put_elem h a f)"
  by (auto simp: set_elem_def put_elem_def)

lemma set_head_ok: "heads h q \<noteq> None \<Longrightarrow> set_head h q f = Inr (put_head h q f)"
  by (auto simp: set_head_def put_head_def)

lemma get_elem_ok: "elems h a = Some x \<Longrightarrow> get_elem h (Some a) = Inr x"
  by (simp add: get_elem_def)

lemma front_dom: "q_front h q xs n \<Longrightarrow> a \<in> set xs \<Longrightarrow> elems h a \<noteq> None" "q_front h q xs n \<Longrightarrow> heads h q \<noteq> None"
  by (auto simp: q_front_def dest: dseg_dom)

lemma back_dom: "q_back h q ys p \<Longrightarrow> a \<in> set ys \<Longrightarrow> elems h a \<noteq> None" "q_back h q ys p \<Longrightarrow> heads h q \<noteq> None"
  by (auto simp: q_back_def dest: dseg_dom)

lemma write_next_ok: "q_front h q xs n \<Longrightarrow> write_next h (pos q xs) e = Inr (put_next h q xs e)"
  using front_dom [of h q xs n]
  by (cases xs rule: rev_cases) (simp_all add: write_next_def put_next_def set_elem_ok set_head_ok)

lemma write_prev_ok:
  "q_back h q ys p \<Longrightarrow>
   (if hd_ptr ys NULL \<noteq> NULL then set_elem h (hd_ptr ys NULL) (\<lambda>x. x\<lparr>tqe_prev := p'\<rparr>)
    else set_head h q (\<lambda>H. H\<lparr>tqh_last := p'\<rparr>)) = Inr (put_prev h q ys p')"
  using back_dom [of h q ys p] by (cases ys) (simp_all add: put_prev_def set_elem_ok set_head_ok)

lemma links_put_elem [simp]: "a \<notin> set xs \<Longrightarrow> links (elems (put_elem h a f)) p xs n = links (elems h) p xs n"
  by (simp add: put_elem_def)

lemma put_elem_front [simp]: "a \<notin> set xs \<Longrightarrow> q_front (put_elem h a f) q xs n = q_front h q xs n"
  by (simp add: q_front_def)

lemma put_elem_back [simp]: "a \<notin> set ys \<Longrightarrow> q_back (put_elem h a f) q ys p = q_back h q ys p"
  by (simp add: q_back_def)

lemma put_next_front: "q_front h q xs n \<Longrightarrow> distinct xs \<Longrightarrow> q_front (put_next h q xs e) q xs e"
  by (cases xs rule: rev_cases) (auto simp: q_front_def put_next_def dseg_append hd_ptr_append)

lemma put_next_back: "q_back h q ys p \<Longrightarrow> set xs \<inter> set ys = {} \<Longrightarrow> q_back (put_next h q xs e) q ys p"
  by (cases xs rule: rev_cases) (auto simp: q_back_def put_next_def)

lemma put_prev_back: "q_back h q ys p \<Longrightarrow> distinct ys \<Longrightarrow> q_back (put_prev h q ys p') q ys p'"
  by (cases ys) (auto simp: q_back_def put_prev_def)

lemma put_prev_front: "q_front h q xs n \<Longrightarrow> set xs \<inter> set ys = {} \<Longrightarrow> q_front (put_prev h q ys p') q xs n"
  by (cases ys) (auto simp: q_front_def put_prev_def)

lemma put_other [simp]:
  "a \<notin> set xs \<Longrightarrow> elems (put_next h q xs e) a = elems h a"
  "a \<notin> set ys \<Longrightarrow> elems (put_prev h q ys p) a = elems h a"
  by (auto simp: put_next_def put_prev_def)

lemmas put_facts = put_next_front put_next_back put_prev_back put_prev_front

definition only_links :: "addr set \<Rightarrow> addr \<Rightarrow> tq_heap \<Rightarrow> tq_heap \<Rightarrow> bool" where
  \<comment> \<open>only the links of the elements \<open>A\<close> and the head \<open>q\<close> have changed\<close>
  "only_links A q h h' \<longleftrightarrow> (\<forall>a. a \<notin> A \<longrightarrow> elems h' a = elems h a) \<and> (\<forall>r. r \<noteq> q \<longrightarrow> heads h' r = heads h r) \<and>
     (\<forall>a. map_option (\<lambda>e. (devId e, e_name e)) (elems h' a) = map_option (\<lambda>e. (devId e, e_name e)) (elems h a))"

lemma only_links_trans: "only_links A q h h' \<Longrightarrow> only_links A q h' h'' \<Longrightarrow> only_links A q h h''"
  by (simp add: only_links_def)

lemma only_links_put:
  "a \<in> A \<Longrightarrow> only_links A q h (put_elem h a (\<lambda>x. x\<lparr>tqe_next := n\<rparr>))"
  "a \<in> A \<Longrightarrow> only_links A q h (put_elem h a (\<lambda>x. x\<lparr>tqe_prev := p\<rparr>))"
  "set xs \<subseteq> A \<Longrightarrow> only_links A q h (put_next h q xs n)"
  "set ys \<subseteq> A \<Longrightarrow> only_links A q h (put_prev h q ys p)"
  by (auto simp: only_links_def put_next_def put_prev_def option.map_comp comp_def) (metis last_in_set hd_in_set subsetD)+

lemma queue_other: "queue_at h r bs \<Longrightarrow> only_links A q h h' \<Longrightarrow> r \<noteq> q \<Longrightarrow> set bs \<inter> A = {} \<Longrightarrow> queue_at h' r bs"
proof -
  assume a: "queue_at h r bs" "only_links A q h h'" "r \<noteq> q" "set bs \<inter> A = {}"
  have "links (elems h') (First r) bs NULL = links (elems h) (First r) bs NULL"
    using a(2,4) by (intro dseg_cong) (auto simp: only_links_def)
  then show ?thesis using a by (simp add: queue_at_def q_front_def q_back_def only_links_def)
qed

section \<open>Operations on a queue\<close>

definition editing :: "tq_heap \<Rightarrow> tq_heap \<Rightarrow> addr \<Rightarrow> addr list \<Rightarrow> ptr \<Rightarrow> addr list \<Rightarrow> loc \<Rightarrow> addr \<Rightarrow> elem \<Rightarrow> bool" where
  \<comment> \<open>since \<open>h0\<close> only links were written; the queue is in two halves, and the element \<open>e\<close> is \<open>x\<close>\<close>
  "editing h0 h q xs n ys p e x \<longleftrightarrow> q_front h q xs n \<and> q_back h q ys p \<and> elems h e = Some x \<and>
     distinct (xs @ e # ys) \<and> only_links (insert e (set (xs @ ys))) q h0 h"

lemma editing_new:
  "queue_at h q (xs @ ys) \<Longrightarrow> e \<notin> set (xs @ ys) \<Longrightarrow> elems h e = Some x \<Longrightarrow>
   editing h h q xs (hd_ptr ys NULL) ys (pos q xs) e x"
  using queue_distinct [of h q "xs @ ys"] by (auto simp: editing_def queue_split only_links_def)

lemma editing_member:
  assumes "queue_at h q (xs @ e # ys)"
  shows "\<exists>x. editing h h q xs (Some e) ys (Next e) e x \<and> tqe_prev x = pos q xs \<and> tqe_next x = hd_ptr ys NULL"
  using queue_elem [OF assms] queue_distinct [OF assms] by (auto simp: editing_def only_links_def)

lemma editing_next:
  assumes "editing h0 h q xs n ys p e x"
  shows "editing h0 (put_elem h e (\<lambda>x. x\<lparr>tqe_next := m\<rparr>)) q xs n ys p e (x\<lparr>tqe_next := m\<rparr>)"
    and "set_elem h (Some e) (\<lambda>x. x\<lparr>tqe_next := m\<rparr>) = Inr (put_elem h e (\<lambda>x. x\<lparr>tqe_next := m\<rparr>))"
  using assms by (auto simp: editing_def set_elem_ok intro: only_links_trans only_links_put)

lemma editing_prev:
  assumes "editing h0 h q xs n ys p e x"
  shows "editing h0 (put_elem h e (\<lambda>x. x\<lparr>tqe_prev := l\<rparr>)) q xs n ys p e (x\<lparr>tqe_prev := l\<rparr>)"
    and "set_elem h (Some e) (\<lambda>x. x\<lparr>tqe_prev := l\<rparr>) = Inr (put_elem h e (\<lambda>x. x\<lparr>tqe_prev := l\<rparr>))"
  using assms by (auto simp: editing_def set_elem_ok intro: only_links_trans only_links_put)

lemma editing_put_next:
  assumes "editing h0 h q xs n ys p e x"
  shows "editing h0 (put_next h q xs m) q xs m ys p e x" and "write_next h (pos q xs) m = Inr (put_next h q xs m)"
proof -
  have "e \<notin> set xs" "set xs \<inter> set ys = {}" "distinct xs" using assms by (auto simp: editing_def)
  then show "editing h0 (put_next h q xs m) q xs m ys p e x"
    using assms unfolding editing_def by (auto intro: put_facts only_links_trans only_links_put(3))
  show "write_next h (pos q xs) m = Inr (put_next h q xs m)"
    using assms by (auto simp: editing_def intro: write_next_ok)
qed

lemma editing_put_prev:
  assumes "editing h0 h q xs n ys p e x"
  shows "editing h0 (put_prev h q ys l) q xs n ys l e x"
    and "(if hd_ptr ys NULL \<noteq> NULL then set_elem h (hd_ptr ys NULL) (\<lambda>x. x\<lparr>tqe_prev := l\<rparr>)
      else set_head h q (\<lambda>H. H\<lparr>tqh_last := l\<rparr>)) = Inr (put_prev h q ys l)"
proof -
  show "editing h0 (put_prev h q ys l) q xs n ys l e x"
    using assms unfolding editing_def by (auto intro: put_facts only_links_trans only_links_put(4))
  show "(if hd_ptr ys NULL \<noteq> NULL then set_elem h (hd_ptr ys NULL) (\<lambda>x. x\<lparr>tqe_prev := l\<rparr>)
      else set_head h q (\<lambda>H. H\<lparr>tqh_last := l\<rparr>)) = Inr (put_prev h q ys l)"
    using assms by (intro write_prev_ok [of h q ys p]) (simp add: editing_def)
qed

lemma editing_joined:
  "editing h0 h q xs (Some e) ys (Next e) e x \<Longrightarrow> tqe_prev x = pos q xs \<Longrightarrow> tqe_next x = hd_ptr ys NULL \<Longrightarrow>
   queue_at h q (xs @ e # ys) \<and> only_links (insert e (set (xs @ ys))) q h0 h"
  by (auto simp: editing_def intro: queue_join)

lemma editing_cut:
  "editing h0 h q xs (hd_ptr ys NULL) ys (pos q xs) e x \<Longrightarrow>
   queue_at h q (xs @ ys) \<and> only_links (insert e (set (xs @ ys))) q h0 h"
  by (simp add: editing_def queue_split)

lemma editing_reads:
  assumes "editing h0 h q xs n ys p e x"
  shows "get_elem h (Some e) = Inr x"
    and "\<exists>H. get_head h q = Inr H \<and> tqh_first H = hd_ptr xs n \<and> tqh_last H = last_loc Next ys p"
  using assms by (auto simp: editing_def get_elem_def get_head_def q_front_def q_back_def)

lemma put_next_empty: "put_head h q (\<lambda>H. H\<lparr>tqh_first := e\<rparr>) = put_next h q [] e"
  by (simp add: put_next_def)

lemma put_prev_empty: "put_head h q (\<lambda>H. H\<lparr>tqh_last := p\<rparr>) = put_prev h q [] p"
  by (simp add: put_prev_def)

lemma editing_head:
  assumes "editing h0 h q xs n ys p e x"
  shows "xs = [] \<Longrightarrow> set_head h q (\<lambda>H. H\<lparr>tqh_first := m\<rparr>) = Inr (put_next h q xs m)"
    and "ys = [] \<Longrightarrow> set_head h q (\<lambda>H. H\<lparr>tqh_last := l\<rparr>) = Inr (put_prev h q ys l)"
  using assms by (auto simp: editing_def put_next_empty [symmetric] put_prev_empty [symmetric] q_front_def set_head_ok)

lemma insert_head_at:
  assumes "queue_at h q as" and "e \<notin> set as" and "elems h e = Some x"
  shows "\<exists>h'. TAILQ_INSERT_HEAD h q e = Inr h' \<and> queue_at h' q (e # as) \<and> only_links (insert e (set as)) q h h'"
proof -
  have e0: "editing h h q [] (hd_ptr as NULL) as (pos q []) e x" using editing_new [of h q "[]" as] assms by simp
  obtain H where H: "get_head h q = Inr H" "tqh_first H = hd_ptr as NULL" using editing_reads(2) [OF e0] by auto
  note e1 = editing_next [OF e0, of "hd_ptr as NULL"]
  note e2 = editing_put_prev [OF e1(1), of "Next e"]
  note e3 = editing_put_next(1) [OF e2(1), of "Some e"] and e3' = editing_head(1) [OF e2(1) refl, of "Some e"]
  note e4 = editing_prev [OF e3, of "First q"]
  have "TAILQ_INSERT_HEAD h q e = Inr (put_elem (put_next (put_prev (put_elem h e (\<lambda>x. x\<lparr>tqe_next := hd_ptr as NULL\<rparr>))
      q as (Next e)) q [] (Some e)) e (\<lambda>x. x\<lparr>tqe_prev := First q\<rparr>))"
    unfolding TAILQ_INSERT_HEAD_def H bind_res_simps e1(2) e2(2) e3' e4(2) ..
  then show ?thesis using editing_joined [OF e4(1)] by simp
qed

lemma insert_tail_at:
  assumes "queue_at h q as" and "e \<notin> set as" and "elems h e = Some x"
  shows "\<exists>h'. TAILQ_INSERT_TAIL h q e = Inr h' \<and> queue_at h' q (as @ [e]) \<and> only_links (insert e (set as)) q h h'"
proof -
  have e0: "editing h h q as NULL [] (pos q as) e x" using editing_new [of h q as "[]"] assms by simp
  note e1 = editing_next [OF e0, of NULL]
  obtain H where H: "get_head (put_elem h e (\<lambda>x. x\<lparr>tqe_next := NULL\<rparr>)) q = Inr H" "tqh_last H = pos q as"
    using editing_reads(2) [OF e1(1)] by auto
  note e2 = editing_prev [OF e1(1), of "pos q as"]
  note e3 = editing_put_next [OF e2(1), of "Some e"]
  note e4 = editing_put_prev(1) [OF e3(1), of "Next e"] and e4' = editing_head(2) [OF e3(1) refl, of "Next e"]
  have "TAILQ_INSERT_TAIL h q e = Inr (put_prev (put_next (put_elem (put_elem h e (\<lambda>x. x\<lparr>tqe_next := NULL\<rparr>)) e
      (\<lambda>x. x\<lparr>tqe_prev := pos q as\<rparr>)) q as (Some e)) q [] (Next e))"
    unfolding TAILQ_INSERT_TAIL_def H bind_res_simps e1(2) e2(2) e3(2) e4' ..
  then show ?thesis using editing_joined [OF e4] by simp
qed

lemma editing_last:
  "editing h0 h q (xs @ [l]) n ys p e x \<Longrightarrow> \<exists>z. get_elem h (Some l) = Inr z \<and> tqe_next z = n"
  by (auto simp: editing_def q_front_def dseg_append get_elem_def)

lemma editing_hd: "editing h0 h q xs n (l # ys) p e x \<Longrightarrow> \<exists>z. get_elem h (Some l) = Inr z \<and> tqe_prev z = p"
  by (auto simp: editing_def q_back_def get_elem_def)

lemma insert_after_at:
  assumes "queue_at h q (xs @ l # ys)" and "e \<notin> set (xs @ l # ys)" and "elems h e = Some x"
  shows "\<exists>h'. TAILQ_INSERT_AFTER h q l e = Inr h' \<and> queue_at h' q (xs @ l # e # ys) \<and>
    only_links (insert e (set (xs @ l # ys))) q h h'"
proof -
  let ?xs = "xs @ [l]"
  have e0: "editing h h q ?xs (hd_ptr ys NULL) ys (pos q ?xs) e x" using editing_new [of h q ?xs ys e x] assms by simp
  obtain z where z: "get_elem h (Some l) = Inr z" "tqe_next z = hd_ptr ys NULL" using editing_last [OF e0] by blast
  note e1 = editing_next [OF e0, of "hd_ptr ys NULL"]
  note e2 = editing_put_prev [OF e1(1), of "Next e"]
  note e3 = editing_put_next(1) [OF e2(1), of "Some e"]
    and e3' = editing_put_next(2) [OF e2(1), of "Some e", unfolded pos_simps write_next_def loc.case]
  note e4 = editing_prev [OF e3, of "Next l"]
  have "\<exists>h'. TAILQ_INSERT_AFTER h q l e = Inr h' \<and> h' = put_elem (put_next (put_prev (put_elem h e
      (\<lambda>x. x\<lparr>tqe_next := hd_ptr ys NULL\<rparr>)) q ys (Next e)) q ?xs (Some e)) e (\<lambda>x. x\<lparr>tqe_prev := Next l\<rparr>)"
    unfolding TAILQ_INSERT_AFTER_def z bind_res_simps e1(2) e2(2) e3' e4(2) by simp
  then show ?thesis using editing_joined [OF e4(1)] by auto
qed

lemma insert_before_at:
  assumes "queue_at h q (xs @ l # ys)" and "e \<notin> set (xs @ l # ys)" and "elems h e = Some x"
  shows "\<exists>h'. TAILQ_INSERT_BEFORE h l e = Inr h' \<and> queue_at h' q (xs @ e # l # ys) \<and>
    only_links (insert e (set (xs @ l # ys))) q h h'"
proof -
  let ?ys = "l # ys"
  have e0: "editing h h q xs (Some l) ?ys (pos q xs) e x" using editing_new [of h q xs ?ys e x] assms by simp
  note e1 = editing_prev [OF e0, of "pos q xs"]
  note e2 = editing_next [OF e1(1), of "Some l"]
  let ?h2 = "put_elem (put_elem h e (\<lambda>x. x\<lparr>tqe_prev := pos q xs\<rparr>)) e (\<lambda>x. x\<lparr>tqe_next := Some l\<rparr>)"
  obtain z where z: "get_elem h (Some l) = Inr z" "tqe_prev z = pos q xs" using editing_hd [OF e0] by blast
  obtain y where y: "get_elem ?h2 (Some l) = Inr y" "tqe_prev y = pos q xs" using editing_hd [OF e2(1)] by blast
  note e3 = editing_put_next [OF e2(1), of "Some e"]
  note e4 = editing_put_prev [OF e3(1), of "Next e"]
  have "set_elem (put_next ?h2 q xs (Some e)) (Some l) (\<lambda>x. x\<lparr>tqe_prev := Next e\<rparr>) =
      Inr (put_prev (put_next ?h2 q xs (Some e)) q ?ys (Next e))"
    using e4(2) by simp
  then have "\<exists>h'. TAILQ_INSERT_BEFORE h l e = Inr h' \<and> h' = put_prev (put_next ?h2 q xs (Some e)) q ?ys (Next e)"
    unfolding TAILQ_INSERT_BEFORE_def z bind_res_simps e1(2) e2(2) y e3(2) by simp
  then show ?thesis using editing_joined [OF e4(1)] by auto
qed

lemma remove_at:
  assumes "queue_at h q (xs @ e # ys)"
  shows "\<exists>h'. TAILQ_REMOVE h q e = Inr h' \<and> queue_at h' q (xs @ ys) \<and> only_links (insert e (set (xs @ ys))) q h h'"
proof -
  obtain x where e0: "editing h h q xs (Some e) ys (Next e) e x" and x: "tqe_prev x = pos q xs" "tqe_next x = hd_ptr ys NULL"
    using editing_member [OF assms] by blast
  note e1 = editing_put_prev [OF e0, of "pos q xs"]
  note e2 = editing_put_next [OF e1(1), of "hd_ptr ys NULL"]
  have "TAILQ_REMOVE h q e = Inr (put_next (put_prev h q ys (pos q xs)) q xs (hd_ptr ys NULL))"
    unfolding TAILQ_REMOVE_def editing_reads(1) [OF e0] bind_res_simps x e1(2) editing_reads(1) [OF e1(1)] e2(2) ..
  then show ?thesis using editing_cut [OF e2(1)] by blast
qed

lemma replace_at:
  assumes at: "queue_at h q (xs @ e # ys)" and new: "e2 \<notin> set (xs @ e # ys)" and e2: "elems h e2 = Some x2"
  shows "\<exists>h'. TAILQ_REPLACE h q e e2 = Inr h' \<and> queue_at h' q (xs @ e2 # ys) \<and>
    only_links (insert e2 (set (xs @ ys))) q h h'"
proof -
  obtain x where e: "editing h h q xs (Some e) ys (Next e) e x" and x: "tqe_prev x = pos q xs" "tqe_next x = hd_ptr ys NULL"
    using editing_member [OF at] by blast
  have e0: "editing h h q xs (Some e) ys (Next e) e2 x2"
    using e new e2 by (auto simp: editing_def only_links_def)
  note e1 = editing_next [OF e0, of "hd_ptr ys NULL"]
  note p1 = editing_put_prev [OF e1(1), of "Next e2"]
  let ?h2 = "put_prev (put_elem h e2 (\<lambda>x. x\<lparr>tqe_next := hd_ptr ys NULL\<rparr>)) q ys (Next e2)"
  have "elems ?h2 e = Some x" using e new by (auto simp: editing_def)
  then have y: "get_elem ?h2 (Some e) = Inr x" by (rule get_elem_ok)
  note p2 = editing_prev [OF p1(1), of "pos q xs"]
  note p3 = editing_put_next [OF p2(1), of "Some e2"]
  have "TAILQ_REPLACE h q e e2 = Inr (put_next (put_elem ?h2 e2 (\<lambda>x. x\<lparr>tqe_prev := pos q xs\<rparr>)) q xs (Some e2))"
    unfolding TAILQ_REPLACE_def editing_reads(1) [OF e] bind_res_simps x e1(2) p1(2) y p2(2) p3(2) ..
  then show ?thesis using editing_joined [OF p3(1)] by simp
qed

section \<open>Traversal\<close>

lemma next_at: "queue_at h q (xs @ e # ys) \<Longrightarrow> TAILQ_NEXT h (Some e) = Inr (hd_ptr ys NULL)"
  using queue_elem(3) [of h q xs e ys] by (auto simp: TAILQ_NEXT_def get_elem_def)

lemma read_pos: "queue_at h q (xs @ ys) \<Longrightarrow> read_next h (pos q xs) = Inr (hd_ptr ys NULL)"
  by (cases xs rule: rev_cases)
    (auto simp: queue_at_def q_front_def q_back_def read_next_def get_head_def get_elem_def dseg_append hd_ptr_append)

lemma second_pos:
  "queue_at h q (xs @ ys) \<Longrightarrow>
   second h (pos q xs) = Inr (if xs = [] then pos q ys else pos q (butlast xs))"
proof (cases xs rule: rev_cases)
  case Nil
  then show "queue_at h q (xs @ ys) \<Longrightarrow> ?thesis"
    by (auto simp: queue_at_def q_back_def second_def get_head_def pos_def)
next
  case (snoc zs z)
  then show "queue_at h q (xs @ ys) \<Longrightarrow> ?thesis"
    using queue_elem(3) [of h q zs z ys] by (auto simp: second_def get_elem_def)
qed

lemma back_at: "queue_at h q (xs @ ys) \<Longrightarrow> bind_res (second h (pos q xs)) (read_next h) = Inr (last_ptr xs NULL)"
proof (cases xs rule: rev_cases)
  case Nil
  then show "queue_at h q (xs @ ys) \<Longrightarrow> ?thesis"
    using second_pos [of h q "[]" ys] read_pos [of h q ys "[]"] by simp
next
  case (snoc zs z)
  then show "queue_at h q (xs @ ys) \<Longrightarrow> ?thesis"
    using second_pos [of h q xs ys] read_pos [of h q zs "z # ys"] by simp
qed

lemma last_at: "queue_at h q as \<Longrightarrow> TAILQ_LAST h q = Inr (last_ptr as NULL)"
  using back_at [of h q as "[]"] by (auto simp: TAILQ_LAST_def queue_at_def q_back_def get_head_def pos_def)

lemma prev_at: "queue_at h q (xs @ e # ys) \<Longrightarrow> TAILQ_PREV h (Some e) = Inr (last_ptr xs NULL)"
  using queue_elem(3) [of h q xs e ys] back_at [of h q xs "e # ys"] by (auto simp: TAILQ_PREV_def get_elem_def)

lemma first_at: "queue_at h q as \<Longrightarrow> TAILQ_FIRST h q = Inr (hd_ptr as NULL)"
  by (auto simp: TAILQ_FIRST_def queue_at_def q_front_def get_head_def)

lemma visit_next: "queue_at h q (xs @ ys) \<Longrightarrow> length ys < fuel \<Longrightarrow> visit fuel (TAILQ_NEXT h) (hd_ptr ys NULL) = Inr ys"
proof (induction ys arbitrary: xs fuel)
  case Nil
  then show ?case by (cases fuel) simp_all
next
  case (Cons y ys)
  then show ?case using Cons.IH [of "xs @ [y]" "fuel - 1"] next_at [of h q xs y ys] by (cases fuel) auto
qed

lemma visit_prev: "queue_at h q (xs @ ys) \<Longrightarrow> length xs < fuel \<Longrightarrow> visit fuel (TAILQ_PREV h) (last_ptr xs NULL) = Inr (rev xs)"
proof (induction xs arbitrary: ys fuel rule: rev_induct)
  case Nil
  then show ?case by (cases fuel) simp_all
next
  case (snoc x xs)
  then show ?case using snoc.IH [of "x # ys" "fuel - 1"] prev_at [of h q xs x ys] by (cases fuel) auto
qed

section \<open>Scripts of operations\<close>

datatype 'e seq_op = InsHead 'e | InsTail 'e | InsAfter 'e 'e | InsBefore 'e 'e | Remove 'e | Replace 'e 'e

primrec splice_at :: "('e \<Rightarrow> 'e list) \<Rightarrow> 'e \<Rightarrow> 'e list \<Rightarrow> 'e list" where
  \<comment> \<open>the first occurrence of an element gives way to a list\<close>
  "splice_at f l [] = []"
| "splice_at f l (x # xs) = (if x = l then f x @ xs else x # splice_at f l xs)"

fun seq_step :: "'e seq_op \<Rightarrow> 'e list \<Rightarrow> 'e list" where
  "seq_step (InsHead e) xs = e # xs"
| "seq_step (InsTail e) xs = xs @ [e]"
| "seq_step (InsAfter l e) xs = splice_at (\<lambda>x. [x, e]) l xs"
| "seq_step (InsBefore l e) xs = splice_at (\<lambda>x. [e, x]) l xs"
| "seq_step (Remove e) xs = splice_at (\<lambda>_. []) e xs"
| "seq_step (Replace l e) xs = splice_at (\<lambda>_. [e]) l xs"

fun seq_legal :: "'e set \<Rightarrow> 'e seq_op \<Rightarrow> 'e list \<Rightarrow> bool" where
  \<comment> \<open>an element put in is one of \<open>E\<close> and not yet in the sequence, one referred to is in it\<close>
  "seq_legal E (InsHead e) xs \<longleftrightarrow> e \<in> E \<and> e \<notin> set xs"
| "seq_legal E (InsTail e) xs \<longleftrightarrow> e \<in> E \<and> e \<notin> set xs"
| "seq_legal E (InsAfter l e) xs \<longleftrightarrow> e \<in> E \<and> e \<notin> set xs \<and> l \<in> set xs"
| "seq_legal E (InsBefore l e) xs \<longleftrightarrow> e \<in> E \<and> e \<notin> set xs \<and> l \<in> set xs"
| "seq_legal E (Remove e) xs \<longleftrightarrow> e \<in> set xs"
| "seq_legal E (Replace l e) xs \<longleftrightarrow> e \<in> E \<and> e \<notin> set xs \<and> l \<in> set xs"

primrec script_legal :: "'e set \<Rightarrow> 'e seq_op list \<Rightarrow> 'e list \<Rightarrow> bool" where
  "script_legal E [] xs \<longleftrightarrow> True"
| "script_legal E (p # ps) xs \<longleftrightarrow> seq_legal E p xs \<and> script_legal E ps (seq_step p xs)"

lemma splice_at_decomp: "l \<notin> set xs \<Longrightarrow> splice_at f l (xs @ l # ys) = xs @ f l @ ys"
  by (induction xs) auto

locale sequence =
  fixes holds :: "'h \<Rightarrow> 'e list \<Rightarrow> bool" and step :: "'h \<Rightarrow> 'e seq_op \<Rightarrow> 'h res" and E :: "'e set"
  assumes step: "holds h xs \<Longrightarrow> seq_legal E p xs \<Longrightarrow> \<exists>h'. step h p = Inr h' \<and> holds h' (seq_step p xs)"
begin

lemma script:
  "holds h xs \<Longrightarrow> script_legal E ps xs \<Longrightarrow> \<exists>h'. fold_res step h ps = Inr h' \<and> holds h' (fold seq_step ps xs)"
proof (induction ps arbitrary: h xs)
  case (Cons p ps)
  then obtain h1 where "step h p = Inr h1" "holds h1 (seq_step p xs)" using step [of h xs p] by auto
  then show ?case using Cons.IH [of h1 "seq_step p xs"] Cons.prems(2) by simp
qed simp

end

fun tq_step :: "addr \<Rightarrow> tq_heap \<Rightarrow> addr seq_op \<Rightarrow> tq_heap res" where
  "tq_step q h (InsHead e) = TAILQ_INSERT_HEAD h q e"
| "tq_step q h (InsTail e) = TAILQ_INSERT_TAIL h q e"
| "tq_step q h (InsAfter l e) = TAILQ_INSERT_AFTER h q l e"
| "tq_step q h (InsBefore l e) = TAILQ_INSERT_BEFORE h l e"
| "tq_step q h (Remove e) = TAILQ_REMOVE h q e"
| "tq_step q h (Replace l e) = TAILQ_REPLACE h q l e"

definition queue_of :: "tq_heap \<Rightarrow> addr set \<Rightarrow> addr \<Rightarrow> tq_heap \<Rightarrow> addr list \<Rightarrow> bool" where
  \<comment> \<open>a queue of elements of \<open>E\<close>; since \<open>h0\<close> nothing but the links of \<open>E\<close> and the head has changed\<close>
  "queue_of h0 E q h as \<longleftrightarrow> queue_at h q as \<and> set as \<subseteq> E \<and> E \<subseteq> dom (elems h) \<and> only_links E q h0 h"

lemma only_links_mono: "only_links A q h h' \<Longrightarrow> A \<subseteq> B \<Longrightarrow> only_links B q h h'"
  by (auto simp: only_links_def)

lemma map_option_same_dom: "map_option f x = map_option f y \<Longrightarrow> x = None \<longleftrightarrow> y = None"
  by (cases x; cases y) simp_all

lemma only_links_dom: assumes "only_links A q h h'" shows "dom (elems h') = dom (elems h)"
proof -
  have "elems h' a = None \<longleftrightarrow> elems h a = None" for a
    using assms unfolding only_links_def by (intro map_option_same_dom) blast
  then show ?thesis unfolding dom_def by simp
qed

lemma queue_ofI:
  assumes "queue_of h0 E q h as" and "queue_at h' q bs" and "only_links A q h h'" and "A \<subseteq> E" and "set bs \<subseteq> E"
  shows "queue_of h0 E q h' bs"
  using assms only_links_trans [of E q h0 h h'] only_links_mono [OF assms(3,4)] only_links_dom [OF assms(3)]
  by (simp add: queue_of_def)

lemma tq_step_ok:
  assumes of: "queue_of h0 E q h as" and legal: "seq_legal E p as"
  shows "\<exists>h'. tq_step q h p = Inr h' \<and> queue_of h0 E q h' (seq_step p as)"
proof -
  have at: "queue_at h q as" and E: "set as \<subseteq> E" "\<And>e. e \<in> E \<Longrightarrow> \<exists>x. elems h e = Some x"
    using of by (auto simp: queue_of_def)
  have dec: "\<exists>xs ys. as = xs @ l # ys \<and> l \<notin> set xs" if "l \<in> set as" for l
    using that split_list_first by metis
  show ?thesis
  proof (cases p)
    case (InsHead e)
    then show ?thesis using insert_head_at [OF at, of e] legal E queue_ofI [OF of] by fastforce
  next
    case (InsTail e)
    then show ?thesis using insert_tail_at [OF at, of e] legal E queue_ofI [OF of] by fastforce
  next
    case (InsAfter l e)
    then obtain xs ys x where as: "as = xs @ l # ys" "l \<notin> set xs" and x: "elems h e = Some x"
      using dec [of l] E(2) [of e] legal by auto
    then show ?thesis
      using insert_after_at [of h q xs l ys e x] at legal E(1) InsAfter queue_ofI [OF of] by (fastforce simp: splice_at_decomp)
  next
    case (InsBefore l e)
    then obtain xs ys x where as: "as = xs @ l # ys" "l \<notin> set xs" and x: "elems h e = Some x"
      using dec [of l] E(2) [of e] legal by auto
    then show ?thesis
      using insert_before_at [of h q xs l ys e x] at legal E(1) InsBefore queue_ofI [OF of] by (fastforce simp: splice_at_decomp)
  next
    case (Remove e)
    then obtain xs ys where as: "as = xs @ e # ys" "e \<notin> set xs" using dec [of e] legal by auto
    then show ?thesis
      using remove_at [of h q xs e ys] at E(1) Remove queue_ofI [OF of] by (fastforce simp: splice_at_decomp)
  next
    case (Replace l e)
    then obtain xs ys x where as: "as = xs @ l # ys" "l \<notin> set xs" and x: "elems h e = Some x"
      using dec [of l] E(2) [of e] legal by auto
    then show ?thesis
      using replace_at [of h q xs l ys e x] at legal E(1) Replace queue_ofI [OF of] by (fastforce simp: splice_at_decomp)
  qed
qed

interpretation tq: sequence "queue_of h0 E q" "tq_step q" E for h0 E q
  by unfold_locales (rule tq_step_ok)

section \<open>Properties\<close>

definition tq_sample :: tq_heap where
  \<comment> \<open>an empty queue and four elements, for the witnesses\<close>
  "tq_sample = \<lparr>heads = [0 \<mapsto> TAILQ_HEAD_INITIALIZER 0],
     elems = (\<lambda>a. if a < 4 then Some \<lparr>tqe_next = NULL, tqe_prev = First 0, devId = int a, e_name = []\<rparr> else None)\<rparr>"

lemma tq_sample_at: "queue_at tq_sample 0 []"
  by (simp add: queue_at_def q_front_def q_back_def tq_sample_def TAILQ_HEAD_INITIALIZER_def)

lemma tq_sample_dom: "{0..<4} \<subseteq> dom (elems tq_sample)"
  by (auto simp: tq_sample_def)

text \<open>C21.  Any script of the macros that only puts in allocated elements not yet queued, and only names
  queued ones, runs without a fault and leaves the queue that the same script makes of the list of
  its elements; the elements keep their contents, and no other element and no other queue changes.\<close>

theorem tailq_script:
  assumes "queue_at h q as" and "set as \<subseteq> E" and "E \<subseteq> dom (elems h)" and "script_legal E ps as"
  shows "\<exists>h'. fold_res (tq_step q) h ps = Inr h' \<and> queue_at h' q (fold seq_step ps as) \<and> only_links E q h h' \<and>
    (\<forall>r bs. queue_at h r bs \<longrightarrow> r \<noteq> q \<longrightarrow> set bs \<inter> E = {} \<longrightarrow> queue_at h' r bs)"
proof -
  have "queue_of h E q h as" using assms by (simp add: queue_of_def only_links_def)
  then obtain h' where "fold_res (tq_step q) h ps = Inr h'" "queue_of h E q h' (fold seq_step ps as)"
    using tq.script [OF _ assms(4)] by blast
  then show ?thesis using queue_other [of h _ _ E q h'] by (auto simp: queue_of_def)
qed

theorem tailq_script_witness:
  "\<exists>h'. fold_res (tq_step 0) tq_sample [InsTail 1, InsHead 2, InsBefore 1 3, Replace 2 0, Remove 1] = Inr h' \<and> queue_at h' 0 [0, 3]"
proof -
  let ?ps = "[InsTail 1, InsHead 2, InsBefore 1 3, Replace 2 0, Remove 1] :: addr seq_op list"
  have "script_legal {0..<4} ?ps []" by simp
  then obtain h' where "fold_res (tq_step 0) tq_sample ?ps = Inr h'" "queue_at h' 0 (fold seq_step ?ps [])"
    using tailq_script [OF tq_sample_at _ tq_sample_dom, of ?ps] by auto
  then show ?thesis by (intro exI [of _ h']) simp
qed

text \<open>C22.  The traversal macros see the queue: the forward loop visits its elements in order, the
  backward loop in reverse order, and both end; the last element and the predecessor of an element,
  which are read through a cast of an entry to a head, are the right ones, NULL at the ends.\<close>

theorem tailq_traversal:
  assumes "queue_at h q as" and "length as < fuel"
  shows "TAILQ_FOREACH fuel h q = Inr as \<and> TAILQ_FOREACH_REVERSE fuel h q = Inr (rev as) \<and>
    TAILQ_LAST h q = Inr (last_ptr as NULL) \<and> TAILQ_EMPTY h q = Inr (as = []) \<and>
    (\<forall>i < length as. TAILQ_PREV h (Some (as ! i)) = Inr (if i = 0 then NULL else Some (as ! (i - 1))))"
proof -
  have "TAILQ_PREV h (Some (as ! i)) = Inr (if i = 0 then NULL else Some (as ! (i - 1)))" if "i < length as" for i
    using prev_at [of h q "take i as" "as ! i" "drop (Suc i) as"] assms(1) that
    by (auto simp: id_take_nth_drop [symmetric] last_ptr_def last_conv_nth)
  then show ?thesis
    using visit_next [of h q "[]" as fuel] visit_prev [of h q as "[]" fuel] first_at [OF assms(1)] last_at [OF assms(1)] assms
    by (simp add: TAILQ_FOREACH_def TAILQ_FOREACH_REVERSE_def TAILQ_EMPTY_def)
qed

theorem tailq_traversal_witness:
  "TAILQ_FOREACH_REVERSE 3 \<lparr>heads = [0 \<mapsto> \<lparr>tqh_first = Some 1, tqh_last = Next 2\<rparr>],
     elems = [1 \<mapsto> \<lparr>tqe_next = Some 2, tqe_prev = First 0, devId = 1, e_name = []\<rparr>,
       2 \<mapsto> \<lparr>tqe_next = NULL, tqe_prev = Next 1, devId = 2, e_name = []\<rparr>]\<rparr> 0 = Inr [2, 1]"
  using tailq_traversal [of "\<lparr>heads = [0 \<mapsto> \<lparr>tqh_first = Some 1, tqh_last = Next 2\<rparr>],
     elems = [1 \<mapsto> \<lparr>tqe_next = Some 2, tqe_prev = First 0, devId = 1, e_name = []\<rparr>,
       2 \<mapsto> \<lparr>tqe_next = NULL, tqe_prev = Next 1, devId = 2, e_name = []\<rparr>]\<rparr>" 0 "[1, 2]" 3]
  by (simp add: queue_at_def q_front_def q_back_def)

text \<open>The program prints the elements in the order obj1, obj2, obj0 and frees them all, whatever
  the uninitialised memory holds; when an allocation fails it dereferences NULL.\<close>

lemma tailq_main:
  "main mem junk_head junk =
    (if mem 0 \<and> mem 1 \<and> mem 2
     then Inr (dec 1 @ str '', liubei'' @ [10] @ dec 2 @ str '', guanyu'' @ [10] @ dec 0 @ str '', zhangfei'' @ [10],
       \<lparr>heads = [0 \<mapsto> \<lparr>tqh_first = Some 2, tqh_last = Next 1\<rparr>], elems = Map.empty\<rparr>)
     else Inl NullDeref)"
  by (cases junk_head) (auto simp: main_def TAILQ_INIT_def set_head_def set_elem_def get_elem_def get_head_def new_elem_def set_info_def
      obj_addr_def TAILQ_INSERT_HEAD_def TAILQ_INSERT_BEFORE_def write_next_def TAILQ_FOREACH_def TAILQ_FIRST_def
      TAILQ_NEXT_def numeral_eq_Suc print_all_def print_elem_def free_elem_def str_def fun_eq_iff)

end
