(* ===== verification/SearchTree.thy ===== *)
theory SearchTree
  imports C_Base "HOL-Library.Tree"
begin

text \<open>
  The binary search tree \<^verbatim>\<open>CBinarySearchTree\<close> of \<^verbatim>\<open>searchTree.cpp\<close>.  Nodes live in a map; \<open>tbrk\<close> is
  the next address of \<^verbatim>\<open>new\<close>, which throws instead of returning NULL, and bounds the number of
  nodes, which is the fuel of the loops.

  \<open>tree_at m p par t\<close>: at \<open>p\<close>, below \<open>par\<close>, the memory holds the tree \<open>t\<close> of addresses and keys.  A
  node inside a tree is reached through a context, the list of its ancestors with their other
  subtrees (\<open>plug\<close>, \<open>ctx_at\<close>), which is what the loops over parent pointers and \<open>transplant\<close> need.
\<close>

section \<open>Data\<close>

record tnode =
  t_key :: int
  t_parent :: ptr
  t_left :: ptr
  t_right :: ptr

record stree =
  m_pRoot :: ptr
  m_nLen :: int
  tnodes :: "addr \<rightharpoonup> tnode"
  tbrk :: addr

definition get_t :: "stree \<Rightarrow> ptr \<Rightarrow> tnode res" where
  "get_t s p = deref (tnodes s) p"

definition set_t :: "stree \<Rightarrow> ptr \<Rightarrow> (tnode \<Rightarrow> tnode) \<Rightarrow> stree res" where
  "set_t s p f = bind_res (assign (tnodes s) p f) (\<lambda>m. Inr (s\<lparr>tnodes := m\<rparr>))"

section \<open>Operations\<close>

definition CBinarySearchTree :: "stree \<Rightarrow> stree" where
  "CBinarySearchTree s = s\<lparr>m_pRoot := NULL, m_nLen := 0\<rparr>"

definition destroy_tree :: "stree \<Rightarrow> stree res" where
  "destroy_tree s =
     (if m_pRoot s \<noteq> NULL
      then bind_res (dealloc (tnodes s) (m_pRoot s)) (\<lambda>m. Inr (s\<lparr>tnodes := m, m_pRoot := NULL, m_nLen := 0\<rparr>))
      else Inr (s\<lparr>m_nLen := 0\<rparr>))"

fun walk_node :: "nat \<Rightarrow> stree \<Rightarrow> ptr \<Rightarrow> int list \<Rightarrow> int \<Rightarrow> (int list \<times> int) res" where
  "walk_node 0 s pNode pOut nPos = Inl Diverges"
| "walk_node (Suc fuel) s pNode pOut nPos =
     (if pNode = NULL then Inr (pOut, nPos)
      else bind_res (get_t s pNode) (\<lambda>n.
           bind_res (arr_set pOut nPos (t_key n)) (\<lambda>pOut.
           bind_res (c_int (nPos + 1)) (\<lambda>nPos.
           bind_res (walk_node fuel s (t_left n) pOut nPos) (\<lambda>(pOut, nPos).
           walk_node fuel s (t_right n) pOut nPos)))))"

definition inorder_tree_walk :: "(nat \<Rightarrow> int) \<Rightarrow> stree \<Rightarrow> int list option \<Rightarrow> int \<Rightarrow> (int list option \<times> int) res" where
  \<comment> \<open>\<open>junk\<close>: what the new array holds; the array passed in is deleted\<close>
  "inorder_tree_walk junk s pOut nLen =
     (if m_pRoot s = NULL then Inr (pOut, nLen)
      else let pOut = map junk [0..<nat (m_nLen s)]; nLen = m_nLen s in
           bind_res (walk_node (Suc (tbrk s)) s (m_pRoot s) pOut 0) (\<lambda>(pOut, nPos). Inr (Some pOut, nLen)))"

fun search_node :: "nat \<Rightarrow> stree \<Rightarrow> ptr \<Rightarrow> int \<Rightarrow> ptr res" where
  "search_node 0 s pNode key = Inl Diverges"
| "search_node (Suc fuel) s pNode key =
     (if pNode = NULL then Inr NULL
      else bind_res (get_t s pNode) (\<lambda>n.
           if t_key n = key then Inr pNode
           else if t_key n > key then search_node fuel s (t_left n) key
           else search_node fuel s (t_right n) key))"

definition search :: "stree \<Rightarrow> int \<Rightarrow> ptr res" where
  "search s key = (if m_pRoot s = NULL then Inr NULL else search_node (Suc (tbrk s)) s (m_pRoot s) key)"

fun descend :: "(tnode \<Rightarrow> ptr) \<Rightarrow> nat \<Rightarrow> stree \<Rightarrow> ptr \<Rightarrow> ptr res" where
  \<comment> \<open>\<^verbatim>\<open>while (p->left) p = p->left\<close>, or \<^verbatim>\<open>right\<close>\<close>
  "descend f 0 s p = Inl Diverges"
| "descend f (Suc fuel) s p = bind_res (get_t s p) (\<lambda>n. if f n = NULL then Inr p else descend f fuel s (f n))"

definition minKey :: "stree \<Rightarrow> int option res" where
  \<comment> \<open>\<open>None\<close>: the function returned \<^verbatim>\<open>false\<close>\<close>
  "minKey s = (if m_pRoot s = NULL then Inr None
     else bind_res (descend t_left (Suc (tbrk s)) s (m_pRoot s)) (\<lambda>pNode.
          bind_res (get_t s pNode) (\<lambda>n. bind_res (get_t s (t_left n)) (\<lambda>c. Inr (Some (t_key c))))))"

definition maxKey :: "stree \<Rightarrow> int option res" where
  "maxKey s = (if m_pRoot s = NULL then Inr None
     else bind_res (descend t_right (Suc (tbrk s)) s (m_pRoot s)) (\<lambda>pNode.
          bind_res (get_t s pNode) (\<lambda>n. bind_res (get_t s (t_right n)) (\<lambda>c. Inr (Some (t_key c))))))"

fun climb :: "(tnode \<Rightarrow> ptr) \<Rightarrow> nat \<Rightarrow> stree \<Rightarrow> ptr \<Rightarrow> ptr \<Rightarrow> ptr res" where
  \<comment> \<open>\<^verbatim>\<open>while (NULL != y && pNode == y->right) { pNode = y; y = y->parent; }\<close>, or \<^verbatim>\<open>left\<close>\<close>
  "climb f 0 s pNode y = Inl Diverges"
| "climb f (Suc fuel) s pNode y =
     (if y = NULL then Inr y
      else bind_res (get_t s y) (\<lambda>n. if pNode = f n then climb f fuel s y (t_parent n) else Inr y))"

definition treeSuccessor :: "stree \<Rightarrow> int \<Rightarrow> ptr res" where
  "treeSuccessor s key =
     bind_res (search s key) (\<lambda>pNode.
     if pNode = NULL then Inr NULL
     else bind_res (get_t s pNode) (\<lambda>n.
          if t_right n \<noteq> NULL then descend t_left (Suc (tbrk s)) s (t_right n)
          else climb t_right (Suc (tbrk s)) s pNode (t_parent n)))"

definition treePreDecessor :: "stree \<Rightarrow> int \<Rightarrow> ptr res" where
  "treePreDecessor s key =
     bind_res (search s key) (\<lambda>pNode.
     if pNode = NULL then Inr NULL
     else bind_res (get_t s pNode) (\<lambda>n.
          if t_left n \<noteq> NULL then descend t_right (Suc (tbrk s)) s (t_left n)
          else climb t_left (Suc (tbrk s)) s pNode (t_parent n)))"

definition createNode :: "stree \<Rightarrow> int \<Rightarrow> (ptr \<times> stree) res" where
  \<comment> \<open>the node is made, but the function ends without a \<^verbatim>\<open>return\<close>\<close>
  "createNode s key =
     (let s = s\<lparr>tnodes := (tnodes s)(tbrk s \<mapsto> \<lparr>t_key = key, t_parent = NULL, t_left = NULL, t_right = NULL\<rparr>),
                tbrk := tbrk s + 1\<rparr>
      in Inl MissingReturn)"

fun tree_insert_scan :: "nat \<Rightarrow> stree \<Rightarrow> ptr \<Rightarrow> ptr \<Rightarrow> ptr \<Rightarrow> ptr res" where
  \<comment> \<open>the loop of \<^verbatim>\<open>insert\<close>: both branches go to the left\<close>
  "tree_insert_scan 0 s pNode pTmp pParent = Inl Diverges"
| "tree_insert_scan (Suc fuel) s pNode pTmp pParent =
     (if pTmp = NULL then Inr pParent
      else bind_res (get_t s pNode) (\<lambda>n. bind_res (get_t s pTmp) (\<lambda>x.
           if t_key n < t_key x then tree_insert_scan fuel s pNode (t_left x) pTmp
           else tree_insert_scan fuel s pNode (t_left x) pTmp)))"

definition tree_insert :: "stree \<Rightarrow> ptr \<Rightarrow> (bool \<times> stree) res" where
  "tree_insert s pNode =
     (if m_pRoot s = NULL
      then bind_res (c_int (m_nLen s + 1)) (\<lambda>len. Inr (True, s\<lparr>m_pRoot := pNode, m_nLen := len\<rparr>))
      else bind_res (tree_insert_scan (Suc (tbrk s)) s pNode (m_pRoot s) NULL) (\<lambda>pParent.
           if pParent = NULL then Inr (True, s)
           else bind_res (get_t s pParent) (\<lambda>x. bind_res (get_t s pNode) (\<lambda>n.
                bind_res (if t_key x < t_key n then set_t s pParent (\<lambda>x. x\<lparr>t_left := pNode\<rparr>)
                          else set_t s pParent (\<lambda>x. x\<lparr>t_right := pNode\<rparr>)) (\<lambda>s.
                bind_res (set_t s pNode (\<lambda>n. n\<lparr>t_parent := pParent\<rparr>)) (\<lambda>s. Inr (True, s)))))))"

definition insertNode :: "stree \<Rightarrow> int \<Rightarrow> (bool \<times> stree) res" where
  "insertNode s key =
     bind_res (createNode s key) (\<lambda>(pNode, s). if pNode = NULL then Inr (False, s) else tree_insert s pNode)"

definition transplant :: "stree \<Rightarrow> ptr \<Rightarrow> ptr \<Rightarrow> stree res" where
  "transplant s u v =
     bind_res (get_t s u) (\<lambda>x.
     bind_res (if t_parent x = NULL then Inr (s\<lparr>m_pRoot := v\<rparr>)
               else bind_res (get_t s (t_parent x)) (\<lambda>y.
                    if u = t_left y then set_t s (t_parent x) (\<lambda>y. y\<lparr>t_left := v\<rparr>)
                    else set_t s (t_parent x) (\<lambda>y. y\<lparr>t_right := v\<rparr>))) (\<lambda>s.
     if v \<noteq> NULL then bind_res (get_t s u) (\<lambda>x. set_t s v (\<lambda>y. y\<lparr>t_parent := t_parent x\<rparr>)) else Inr s))"

definition adopts :: "stree \<Rightarrow> ptr \<Rightarrow> ptr \<Rightarrow> stree res" where
  \<comment> \<open>the end of \<^verbatim>\<open>deleteNode\<close>: the successor takes the place and the left subtree of the node\<close>
  "adopts s x y =
     bind_res (transplant s x y) (\<lambda>s.
     bind_res (get_t s x) (\<lambda>n.
     bind_res (set_t s y (\<lambda>ny. ny\<lparr>t_left := t_left n\<rparr>)) (\<lambda>s.
     bind_res (get_t s y) (\<lambda>ny.
     set_t s (t_left ny) (\<lambda>l. l\<lparr>t_parent := y\<rparr>)))))"

definition deleteNode :: "stree \<Rightarrow> int \<Rightarrow> stree res" where
  "deleteNode s key =
     bind_res (search s key) (\<lambda>x.
     if x = NULL then Inr s
     else bind_res (get_t s x) (\<lambda>n.
       if t_left n = NULL then transplant s x (t_right n)
       else if t_right n = NULL then transplant s x (t_left n)
       else bind_res (treeSuccessor s key) (\<lambda>y.
            bind_res (get_t s y) (\<lambda>ny.
            bind_res (if t_parent ny \<noteq> x
                      then bind_res (transplant s y (t_right ny)) (\<lambda>s.
                           bind_res (get_t s x) (\<lambda>n.
                           bind_res (set_t s y (\<lambda>ny. ny\<lparr>t_right := t_right n\<rparr>)) (\<lambda>s.
                           bind_res (get_t s y) (\<lambda>ny.
                           set_t s (t_right ny) (\<lambda>r. r\<lparr>t_parent := y\<rparr>)))))
                      else Inr s) (\<lambda>s.
            adopts s x y)))))"

section \<open>Trees in memory\<close>

type_synonym atree = "(addr \<times> int) tree"

fun tree_at :: "(addr \<rightharpoonup> tnode) \<Rightarrow> ptr \<Rightarrow> ptr \<Rightarrow> atree \<Rightarrow> bool" where
  "tree_at m p par Leaf \<longleftrightarrow> p = NULL"
| "tree_at m p par (Node l (a, k) r) \<longleftrightarrow> p = Some a \<and> (\<exists>n. m a = Some n \<and> t_key n = k \<and> t_parent n = par \<and>
     tree_at m (t_left n) (Some a) l \<and> tree_at m (t_right n) (Some a) r)"

abbreviation addrs :: "atree \<Rightarrow> addr list" where "addrs t \<equiv> map fst (inorder t)"

abbreviation keys :: "atree \<Rightarrow> int list" where "keys t \<equiv> map snd (inorder t)"

definition root_ptr :: "atree \<Rightarrow> ptr" where
  "root_ptr t = (case t of Leaf \<Rightarrow> NULL | Node l x r \<Rightarrow> Some (fst x))"

lemma root_ptr_simps [simp]: "root_ptr Leaf = NULL" "root_ptr (Node l x r) = Some (fst x)"
  by (simp_all add: root_ptr_def)

lemma tree_root: "tree_at m p par t \<Longrightarrow> p = root_ptr t"
  by (cases t) auto

lemma root_in: "root_ptr t = Some a \<Longrightarrow> a \<in> set (addrs t)"
  by (cases t) auto

lemma root_NULL [simp]: "root_ptr t = NULL \<longleftrightarrow> t = Leaf"
  by (cases t) auto

lemma tree_cong: "(\<And>a. a \<in> set (addrs t) \<Longrightarrow> m' a = m a) \<Longrightarrow> tree_at m' p par t = tree_at m p par t"
  by (induction m p par t rule: tree_at.induct) auto

lemma tree_upd [simp]: "a \<notin> set (addrs t) \<Longrightarrow> tree_at (m(a := x)) p par t = tree_at m p par t"
  by (rule tree_cong) auto

lemma tree_dom: "tree_at m p par t \<Longrightarrow> a \<in> set (addrs t) \<Longrightarrow> m a \<noteq> None"
  by (induction m p par t rule: tree_at.induct) (auto simp del: set_inorder set_map)

definition reparent :: "ptr \<Rightarrow> ptr \<Rightarrow> (addr \<rightharpoonup> tnode) \<Rightarrow> (addr \<rightharpoonup> tnode)" where
  "reparent p par m = (case p of None \<Rightarrow> m | Some a \<Rightarrow> m(a := map_option (\<lambda>n. n\<lparr>t_parent := par\<rparr>) (m a)))"

lemma tree_reparent: "tree_at m p par t \<Longrightarrow> distinct (addrs t) \<Longrightarrow> tree_at (reparent p par' m) p par' t"
  by (cases t) (auto simp: reparent_def)

lemma reparent_other [simp]: "p \<noteq> Some a \<Longrightarrow> reparent p par m a = m a"
  by (auto simp: reparent_def split: option.split)

section \<open>Contexts\<close>

datatype frame = CtxL addr int atree | CtxR addr int atree
  \<comment> \<open>the ancestor, and its other subtree, of a hole on its left or on its right\<close>

fun plug :: "atree \<Rightarrow> frame list \<Rightarrow> atree" where
  "plug t [] = t"
| "plug t (CtxL b k r # c) = plug (Node t (b, k) r) c"
| "plug t (CtxR b k l # c) = plug (Node l (b, k) t) c"

fun ctx_left :: "frame list \<Rightarrow> (addr \<times> int) list" where
  "ctx_left [] = []"
| "ctx_left (CtxL b k r # c) = ctx_left c"
| "ctx_left (CtxR b k l # c) = ctx_left c @ inorder l @ [(b, k)]"

fun ctx_right :: "frame list \<Rightarrow> (addr \<times> int) list" where
  "ctx_right [] = []"
| "ctx_right (CtxL b k r # c) = (b, k) # inorder r @ ctx_right c"
| "ctx_right (CtxR b k l # c) = ctx_right c"

abbreviation ctx_addrs :: "frame list \<Rightarrow> addr list" where
  "ctx_addrs c \<equiv> map fst (ctx_left c @ ctx_right c)"

fun ctx_at :: "(addr \<rightharpoonup> tnode) \<Rightarrow> ptr \<Rightarrow> ptr \<Rightarrow> ptr \<Rightarrow> frame list \<Rightarrow> bool" where
  \<comment> \<open>the context of the pointer \<open>p\<close> with the parent \<open>par\<close> in the tree at \<open>root\<close>\<close>
  "ctx_at m root p par [] \<longleftrightarrow> p = root \<and> par = NULL"
| "ctx_at m root p par (CtxL b k r # c) \<longleftrightarrow> par = Some b \<and> (\<exists>n. m b = Some n \<and> t_key n = k \<and> t_left n = p \<and>
     tree_at m (t_right n) (Some b) r \<and> ctx_at m root (Some b) (t_parent n) c)"
| "ctx_at m root p par (CtxR b k l # c) \<longleftrightarrow> par = Some b \<and> (\<exists>n. m b = Some n \<and> t_key n = k \<and> t_right n = p \<and>
     tree_at m (t_left n) (Some b) l \<and> ctx_at m root (Some b) (t_parent n) c)"

lemma inorder_plug: "inorder (plug t c) = ctx_left c @ inorder t @ ctx_right c"
  by (induction t c rule: plug.induct) simp_all

lemma plug_append: "plug t (c @ d) = plug (plug t c) d"
  by (induction t c rule: plug.induct) simp_all

lemma tree_at_plug: "tree_at m root NULL (plug t c) \<longleftrightarrow> (\<exists>p par. tree_at m p par t \<and> ctx_at m root p par c)"
proof (induction t c rule: plug.induct)
  case (2 t b k r c)
  then show ?case by auto
next
  case (3 t b k l c)
  then show ?case by auto
qed auto

lemma ctx_cong: "(\<And>a. a \<in> set (ctx_addrs c) \<Longrightarrow> m' a = m a) \<Longrightarrow> ctx_at m' root p par c = ctx_at m root p par c"
proof (induction c arbitrary: p par)
  case (Cons f c)
  have IH: "ctx_at m' root p par c = ctx_at m root p par c" for p par
    by (rule Cons.IH) (use Cons.prems in \<open>cases f; auto\<close>)
  show ?case
  proof (cases f)
    case (CtxL b k r)
    have "tree_at m' q (Some b) r = tree_at m q (Some b) r" for q by (rule tree_cong) (use Cons.prems CtxL in auto)
    then show ?thesis using IH Cons.prems CtxL by auto
  next
    case (CtxR b k l)
    have "tree_at m' q (Some b) l = tree_at m q (Some b) l" for q by (rule tree_cong) (use Cons.prems CtxR in auto)
    then show ?thesis using IH Cons.prems CtxR by auto
  qed
qed simp

lemma ctx_upd [simp]: "a \<notin> set (ctx_addrs c) \<Longrightarrow> ctx_at (m(a := x)) root p par c = ctx_at m root p par c"
  by (rule ctx_cong) auto

lemma ctx_reparent [simp]:
  "(\<And>a. q = Some a \<Longrightarrow> a \<notin> set (ctx_addrs c)) \<Longrightarrow> ctx_at (reparent q par' m) root p par c = ctx_at m root p par c"
  by (rule ctx_cong, rule reparent_other) blast

section \<open>Loops\<close>

fun lookup :: "atree \<Rightarrow> int \<Rightarrow> ptr" where
  "lookup Leaf key = NULL"
| "lookup (Node l (a, k) r) key = (if k = key then Some a else if k > key then lookup l key else lookup r key)"

lemma search_node_ok: "tree_at (tnodes s) p par t \<Longrightarrow> size t < fuel \<Longrightarrow> search_node fuel s p key = Inr (lookup t key)"
proof (induction t arbitrary: p par fuel)
  case Leaf
  then show ?case by (cases fuel) simp_all
next
  case (Node l x r)
  then obtain a k f where x: "x = (a, k)" and f: "fuel = Suc f" by (cases x; cases fuel) auto
  show ?case using Node x f by (auto simp: get_t_def)
qed

lemma descend_left_ok:
  "tree_at (tnodes s) p par t \<Longrightarrow> t \<noteq> Leaf \<Longrightarrow> size t < fuel \<Longrightarrow> descend t_left fuel s p = Inr (Some (hd (addrs t)))"
proof (induction t arbitrary: p par fuel)
  case (Node l x r)
  then obtain a k f where x: "x = (a, k)" and f: "fuel = Suc f" by (cases x; cases fuel) auto
  then obtain n where n: "p = Some a" "tnodes s a = Some n" "tree_at (tnodes s) (t_left n) (Some a) l"
    using Node.prems(1) by auto
  show ?case
  proof (cases "l = Leaf")
    case True
    then show ?thesis using n x f by (simp add: get_t_def)
  next
    case False
    then have "inorder l \<noteq> []" by simp
    then show ?thesis
      using Node.IH(1) [OF n(3) False, of f] n Node.prems(3) x f False tree_root [OF n(3)] by (simp add: get_t_def hd_append)
  qed
qed simp

lemma descend_right_ok:
  "tree_at (tnodes s) p par t \<Longrightarrow> t \<noteq> Leaf \<Longrightarrow> size t < fuel \<Longrightarrow> descend t_right fuel s p = Inr (Some (last (addrs t)))"
proof (induction t arbitrary: p par fuel)
  case (Node l x r)
  then obtain a k f where x: "x = (a, k)" and f: "fuel = Suc f" by (cases x; cases fuel) auto
  then obtain n where n: "p = Some a" "tnodes s a = Some n" "tree_at (tnodes s) (t_right n) (Some a) r"
    using Node.prems(1) by auto
  show ?case
  proof (cases "r = Leaf")
    case True
    then show ?thesis using n x f by (simp add: get_t_def)
  next
    case False
    then have "inorder r \<noteq> []" by simp
    then show ?thesis
      using Node.IH(2) [OF n(3) False, of f] n Node.prems(3) x f False tree_root [OF n(3)] by (simp add: get_t_def)
  qed
qed simp

lemma climb_right_ok:
  assumes "ctx_at (tnodes s) root (Some a) par c" and "a \<notin> set (ctx_addrs c)" and "distinct (ctx_addrs c)" and "length c < fuel"
  shows "climb t_right fuel s (Some a) par = Inr (hd_ptr (map fst (ctx_right c)) NULL)"
  using assms
proof (induction c arbitrary: a par fuel)
  case Nil
  then show ?case by (cases fuel) simp_all
next
  case (Cons x c)
  then obtain f where f: "fuel = Suc f" by (cases fuel) auto
  show ?case
  proof (cases x)
    case (CtxL b k r)
    then obtain n where n: "par = Some b" "tnodes s b = Some n" "tree_at (tnodes s) (t_right n) (Some b) r"
      using Cons.prems(1) by auto
    have "Some a \<noteq> t_right n" using tree_root [OF n(3)] root_in [of r a] Cons.prems(2) CtxL by auto
    then show ?thesis using n f CtxL by (simp add: get_t_def)
  next
    case (CtxR b k l)
    then obtain n where n: "par = Some b" "tnodes s b = Some n" "t_right n = Some a" "ctx_at (tnodes s) root (Some b) (t_parent n) c"
      using Cons.prems(1) by auto
    moreover have "b \<notin> set (ctx_addrs c)" "distinct (ctx_addrs c)" using Cons.prems(3) CtxR by auto
    ultimately show ?thesis using Cons.IH [OF n(4), of f] Cons.prems(4) f CtxR by (simp add: get_t_def)
  qed
qed

lemma climb_left_ok:
  assumes "ctx_at (tnodes s) root (Some a) par c" and "a \<notin> set (ctx_addrs c)" and "distinct (ctx_addrs c)" and "length c < fuel"
  shows "climb t_left fuel s (Some a) par = Inr (last_ptr (map fst (ctx_left c)) NULL)"
  using assms
proof (induction c arbitrary: a par fuel)
  case Nil
  then show ?case by (cases fuel) simp_all
next
  case (Cons x c)
  then obtain f where f: "fuel = Suc f" by (cases fuel) auto
  show ?case
  proof (cases x)
    case (CtxR b k l)
    then obtain n where n: "par = Some b" "tnodes s b = Some n" "tree_at (tnodes s) (t_left n) (Some b) l"
      using Cons.prems(1) by auto
    have "Some a \<noteq> t_left n" using tree_root [OF n(3)] root_in [of l a] Cons.prems(2) CtxR by auto
    then show ?thesis using n f CtxR by (simp add: get_t_def last_ptr_def)
  next
    case (CtxL b k r)
    then obtain n where n: "par = Some b" "tnodes s b = Some n" "t_left n = Some a" "ctx_at (tnodes s) root (Some b) (t_parent n) c"
      using Cons.prems(1) by auto
    moreover have "b \<notin> set (ctx_addrs c)" "distinct (ctx_addrs c)" using Cons.prems(3) CtxL by auto
    ultimately show ?thesis using Cons.IH [OF n(4), of f] Cons.prems(4) f CtxL by (simp add: get_t_def)
  qed
qed

section \<open>Searching\<close>

definition stree_ok :: "stree \<Rightarrow> atree \<Rightarrow> bool" where
  "stree_ok s t \<longleftrightarrow> tree_at (tnodes s) (m_pRoot s) NULL t \<and> distinct (addrs t) \<and> (\<forall>a \<in> set (addrs t). a < tbrk s)"

abbreviation sorted_keys :: "atree \<Rightarrow> bool" where "sorted_keys t \<equiv> sorted_wrt (<) (keys t)"

lemma stree_size: assumes "stree_ok s t" shows "size t \<le> tbrk s"
proof -
  have "set (addrs t) \<subseteq> {..<tbrk s}" using assms by (auto simp: stree_ok_def)
  then have "card (set (addrs t)) \<le> tbrk s" using card_mono [of "{..<tbrk s}"] by fastforce
  moreover have "card (set (addrs t)) = size t"
    using assms distinct_card [of "addrs t"] by (simp add: stree_ok_def del: set_map)
  ultimately show ?thesis by simp
qed

lemma size_plug: "length c + size t \<le> size (plug t c)"
proof (induction t c rule: plug.induct)
  case (2 t b k r c)
  then show ?case by simp
next
  case (3 t b k l c)
  then show ?case by simp
qed simp

lemma search_ok: assumes "stree_ok s t" shows "search s key = Inr (lookup t key)"
proof -
  have at: "tree_at (tnodes s) (m_pRoot s) NULL t" using assms by (simp add: stree_ok_def)
  show ?thesis
    using search_node_ok [OF at, of "Suc (tbrk s)" key] stree_size [OF assms] tree_root [OF at]
    by (cases t) (auto simp: search_def simp del: search_node.simps)
qed

lemma lookup_plug: "lookup t key = Some a \<Longrightarrow> \<exists>l r c. t = plug (Node l (a, key) r) c"
proof (induction t)
  case (Node l x r)
  obtain b k where x: "x = (b, k)" by fastforce
  consider "k = key" | "k > key" "lookup l key = Some a" | "k < key" "lookup r key = Some a"
    using Node.prems x by (auto split: if_splits)
  then show ?case
  proof cases
    case 1
    then show ?thesis using Node.prems x by (intro exI [of _ l] exI [of _ r] exI [of _ "[]"]) simp
  next
    case 2
    then obtain l' r' c where "l = plug (Node l' (a, key) r') c" using Node.IH(1) by blast
    then show ?thesis using x by (intro exI [of _ l'] exI [of _ r'] exI [of _ "c @ [CtxL b k r]"]) (simp add: plug_append)
  next
    case 3
    then obtain l' r' c where "r = plug (Node l' (a, key) r') c" using Node.IH(2) by blast
    then show ?thesis using x by (intro exI [of _ l'] exI [of _ r'] exI [of _ "c @ [CtxR b k l]"]) (simp add: plug_append)
  qed
qed simp

lemma lookup_sorted: "sorted_keys t \<Longrightarrow> lookup t key = Some a \<longleftrightarrow> (a, key) \<in> set (inorder t)"
proof (induction t)
  case (Node l x r)
  obtain b k where x: "x = (b, k)" by fastforce
  have s: "sorted_keys l" "sorted_keys r" "\<forall>y \<in> set (inorder l). snd y < k" "\<forall>y \<in> set (inorder r). k < snd y"
    using Node.prems x by (auto simp: sorted_wrt_append)
  have "(a, key) \<notin> set (inorder l)" if "k \<le> key" using bspec [OF s(3), of "(a, key)"] that by auto
  moreover have "(a, key) \<notin> set (inorder r)" if "key \<le> k" using bspec [OF s(4), of "(a, key)"] that by auto
  ultimately show ?case using Node.IH(1) [OF s(1)] Node.IH(2) [OF s(2)] x by (cases key k rule: linorder_cases) auto
qed simp

lemma lookup_none: "sorted_keys t \<Longrightarrow> lookup t key = NULL \<longleftrightarrow> key \<notin> set (keys t)"
  using lookup_sorted [of t key] by (cases "lookup t key") force+

lemma focus:
  assumes "stree_ok s (plug (Node l (a, k) r) c)"
  shows "\<exists>n. tnodes s a = Some n \<and> t_key n = k \<and> tree_at (tnodes s) (t_left n) (Some a) l \<and>
    tree_at (tnodes s) (t_right n) (Some a) r \<and> ctx_at (tnodes s) (m_pRoot s) (Some a) (t_parent n) c"
    and "distinct (addrs l @ a # addrs r @ ctx_addrs c)"
    and "size l < Suc (tbrk s)" and "size r < Suc (tbrk s)" and "length c < Suc (tbrk s)"
proof -
  show "\<exists>n. tnodes s a = Some n \<and> t_key n = k \<and> tree_at (tnodes s) (t_left n) (Some a) l \<and>
    tree_at (tnodes s) (t_right n) (Some a) r \<and> ctx_at (tnodes s) (m_pRoot s) (Some a) (t_parent n) c"
    using assms by (auto simp: stree_ok_def tree_at_plug)
  show "distinct (addrs l @ a # addrs r @ ctx_addrs c)"
    using assms by (auto simp: stree_ok_def inorder_plug)
  show "size l < Suc (tbrk s)" "size r < Suc (tbrk s)" "length c < Suc (tbrk s)"
    using stree_size [OF assms] size_plug [of c "Node l (a, k) r"] by simp_all
qed

lemma successor_ok:
  assumes ok: "stree_ok s (plug (Node l (a, key) r) c)" and found: "lookup (plug (Node l (a, key) r) c) key = Some a"
  shows "treeSuccessor s key = Inr (hd_ptr (map fst (inorder r @ ctx_right c)) NULL)"
proof -
  obtain n where n: "tnodes s a = Some n" "tree_at (tnodes s) (t_right n) (Some a) r"
      "ctx_at (tnodes s) (m_pRoot s) (Some a) (t_parent n) c"
    using focus(1) [OF ok] by blast
  have d: "a \<notin> set (ctx_addrs c)" "distinct (ctx_addrs c)" using focus(2) [OF ok] by auto
  have run: "treeSuccessor s key = (if r \<noteq> Leaf then descend t_left (Suc (tbrk s)) s (t_right n)
      else climb t_right (Suc (tbrk s)) s (Some a) (t_parent n))"
    using search_ok [OF ok, of key] found n(1) tree_root [OF n(2)]
    by (simp add: treeSuccessor_def get_t_def del: descend.simps climb.simps)
  show ?thesis
  proof (cases "r = Leaf")
    case True
    then show ?thesis using run climb_right_ok [OF n(3) d, of "Suc (tbrk s)"] focus(5) [OF ok] by simp
  next
    case False
    then have "inorder r \<noteq> []" by simp
    then show ?thesis
      using run descend_left_ok [OF n(2) False focus(4) [OF ok]] False by (cases "inorder r") simp_all
  qed
qed

lemma predecessor_ok:
  assumes ok: "stree_ok s (plug (Node l (a, key) r) c)" and found: "lookup (plug (Node l (a, key) r) c) key = Some a"
  shows "treePreDecessor s key = Inr (last_ptr (map fst (ctx_left c @ inorder l)) NULL)"
proof -
  obtain n where n: "tnodes s a = Some n" "tree_at (tnodes s) (t_left n) (Some a) l"
      "ctx_at (tnodes s) (m_pRoot s) (Some a) (t_parent n) c"
    using focus(1) [OF ok] by blast
  have d: "a \<notin> set (ctx_addrs c)" "distinct (ctx_addrs c)" using focus(2) [OF ok] by auto
  have run: "treePreDecessor s key = (if l \<noteq> Leaf then descend t_right (Suc (tbrk s)) s (t_left n)
      else climb t_left (Suc (tbrk s)) s (Some a) (t_parent n))"
    using search_ok [OF ok, of key] found n(1) tree_root [OF n(2)]
    by (simp add: treePreDecessor_def get_t_def del: descend.simps climb.simps)
  show ?thesis
  proof (cases "l = Leaf")
    case True
    then show ?thesis using run climb_left_ok [OF n(3) d, of "Suc (tbrk s)"] focus(5) [OF ok] by simp
  next
    case False
    then have "inorder l \<noteq> []" by simp
    then show ?thesis
      using run descend_right_ok [OF n(2) False focus(3) [OF ok]] False by (simp add: last_ptr_def)
  qed
qed

section \<open>Deleting\<close>

definition hook :: "frame list \<Rightarrow> ptr \<Rightarrow> (addr \<rightharpoonup> tnode) \<Rightarrow> (addr \<rightharpoonup> tnode)" where
  \<comment> \<open>the innermost ancestor of a context gets a new child\<close>
  "hook c v m = (case c of [] \<Rightarrow> m
     | CtxL b k r # _ \<Rightarrow> m(b := map_option (\<lambda>n. n\<lparr>t_left := v\<rparr>) (m b))
     | CtxR b k l # _ \<Rightarrow> m(b := map_option (\<lambda>n. n\<lparr>t_right := v\<rparr>) (m b)))"

lemma hook_other [simp]: "a \<notin> set (ctx_addrs c) \<Longrightarrow> hook c v m a = m a"
  by (auto simp: hook_def split: list.split frame.split)

lemma hook_tree [simp]: "set (ctx_addrs c) \<inter> set (addrs t) = {} \<Longrightarrow> tree_at (hook c v m) p par t = tree_at m p par t"
  by (rule tree_cong, rule hook_other) blast

lemma hook_ctx:
  assumes "ctx_at m root p par c" and "distinct (ctx_addrs c)"
  shows "ctx_at (hook c v m) (if c = [] then v else root) v par c"
proof (cases c)
  case (Cons f d)
  then show ?thesis using assms by (cases f) (auto simp: hook_def)
qed (use assms in simp)

lemma transplant_ok:
  assumes ctx: "ctx_at (tnodes s) (m_pRoot s) (Some a) par c" and a: "tnodes s a = Some n" "t_parent n = par"
    and t: "tree_at (tnodes s) v pv t" and dist: "distinct (a # addrs t @ ctx_addrs c)"
  shows "\<exists>s'. transplant s (Some a) v = Inr s' \<and> ctx_at (tnodes s') (m_pRoot s') v par c \<and>
    tree_at (tnodes s') v par t \<and> (\<forall>x. x \<notin> set (addrs t @ ctx_addrs c) \<longrightarrow> tnodes s' x = tnodes s x) \<and>
    tbrk s' = tbrk s \<and> m_nLen s' = m_nLen s"
proof -
  let ?m = "hook c v (tnodes s)" and ?root = "if c = [] then v else m_pRoot s"
  have disj: "a \<notin> set (ctx_addrs c)" "a \<notin> set (addrs t)" "set (ctx_addrs c) \<inter> set (addrs t) = {}" "distinct (ctx_addrs c)" "distinct (addrs t)"
    using dist by auto
  have s1: "(if t_parent n = NULL then Inr (s\<lparr>m_pRoot := v\<rparr>)
      else bind_res (get_t s (t_parent n)) (\<lambda>y. if Some a = t_left y then set_t s (t_parent n) (\<lambda>y. y\<lparr>t_left := v\<rparr>)
        else set_t s (t_parent n) (\<lambda>y. y\<lparr>t_right := v\<rparr>))) = Inr (s\<lparr>m_pRoot := ?root, tnodes := ?m\<rparr>)"
  proof (cases c)
    case Nil
    then show ?thesis using ctx a(2) by (simp add: hook_def)
  next
    case (Cons f d)
    show ?thesis
    proof (cases f)
      case (CtxL b k r)
      then show ?thesis using ctx a(2) Cons by (auto simp: hook_def get_t_def set_t_def)
    next
      case (CtxR b k l)
      then obtain nb where nb: "par = Some b" "tnodes s b = Some nb" "tree_at (tnodes s) (t_left nb) (Some b) l"
        using ctx Cons by auto
      have "Some a \<noteq> t_left nb" using tree_root [OF nb(3)] root_in [of l a] disj(1) Cons CtxR by auto
      then show ?thesis using a(2) nb Cons CtxR by (simp add: hook_def get_t_def set_t_def)
    qed
  qed
  have v: "v = root_ptr t" by (rule tree_root [OF t])
  have notv: "Some x \<noteq> v" if "x \<notin> set (addrs t)" for x using that root_in [of t x] v by auto
  have dom: "\<exists>w. ?m b = Some w" if "v = Some b" for b
    using that v root_in [of t b] tree_dom [OF t, of b] disj(3) by (metis disjoint_iff hook_other not_None_eq)
  have ctx': "ctx_at (reparent v par ?m) ?root v par c"
    using hook_ctx [OF ctx disj(4), of v] disj(3) root_in [of t] v
    by (subst ctx_reparent) (auto simp del: set_map map_append)
  have t': "tree_at (reparent v par ?m) v par t"
    using tree_reparent [of ?m v pv t par] t disj by simp
  have "transplant s (Some a) v = Inr (s\<lparr>m_pRoot := ?root, tnodes := reparent v par ?m\<rparr>)"
    using s1 a disj(1) dom unfolding transplant_def
    by (cases v) (auto simp: get_t_def set_t_def reparent_def)
  moreover have "reparent v par ?m x = tnodes s x" if "x \<notin> set (addrs t @ ctx_addrs c)" for x
    using that notv [of x] by auto
  ultimately show ?thesis using ctx' t' by simp
qed

lemma tree_set_left:
  assumes "tree_at m (Some y) par (Node Leaf (y, k) r)" and "tree_at m pl pv l" and "distinct (y # addrs l @ addrs r)"
  shows "tree_at (reparent pl (Some y) (m(y := map_option (\<lambda>n. n\<lparr>t_left := pl\<rparr>) (m y)))) (Some y) par (Node l (y, k) r)"
proof -
  let ?m = "m(y := map_option (\<lambda>n. n\<lparr>t_left := pl\<rparr>) (m y))"
  obtain n where n: "m y = Some n" "t_key n = k" "t_parent n = par" "tree_at m (t_right n) (Some y) r" using assms(1) by auto
  have pl: "pl \<noteq> Some x" if "x \<notin> set (addrs l)" for x using tree_root [OF assms(2)] root_in [of l x] that by auto
  have "tree_at (reparent pl (Some y) ?m) pl (Some y) l"
    using tree_reparent [of ?m pl pv l "Some y"] assms(2,3) by auto
  moreover have "reparent pl (Some y) ?m x = m x" if "x \<in> set (addrs r)" for x
  proof -
    have "x \<notin> set (addrs l)" "x \<noteq> y" using that assms(3) by (auto simp del: set_map)
    then show ?thesis using pl [of x] by simp
  qed
  then have "tree_at (reparent pl (Some y) ?m) (t_right n) (Some y) r"
    using n(4) by (subst tree_cong [where m = m])
  moreover have "reparent pl (Some y) ?m y = Some (n\<lparr>t_left := pl\<rparr>)" using n(1) pl [of y] assms(3) by simp
  ultimately show ?thesis using n by simp
qed

lemma tree_set_right:
  assumes "m y = Some n" and "t_key n = k" and "t_left n = NULL" and "tree_at m pr pv r" and "distinct (y # addrs r)"
  shows "tree_at (reparent pr (Some y) (m(y := map_option (\<lambda>n. n\<lparr>t_right := pr\<rparr>) (m y)))) (Some y) (t_parent n) (Node Leaf (y, k) r)"
proof -
  let ?m = "m(y := map_option (\<lambda>n. n\<lparr>t_right := pr\<rparr>) (m y))"
  have "pr \<noteq> Some y" using tree_root [OF assms(4)] root_in [of r y] assms(5) by auto
  then have "reparent pr (Some y) ?m y = Some (n\<lparr>t_right := pr\<rparr>)" using assms(1) by simp
  moreover have "tree_at (reparent pr (Some y) ?m) pr (Some y) r"
    using tree_reparent [of ?m pr pv r "Some y"] assms(4,5) by auto
  ultimately show ?thesis using assms(2,3) by simp
qed

lemma set_parent_ok: "m = tnodes s \<Longrightarrow> tree_at m p pv t \<Longrightarrow> t \<noteq> Leaf \<Longrightarrow>
  set_t s p (\<lambda>n. n\<lparr>t_parent := par\<rparr>) = Inr (s\<lparr>tnodes := reparent p par m\<rparr>)"
  by (cases t) (auto simp: set_t_def reparent_def)

lemma adopts_ok:
  assumes ctx: "ctx_at (tnodes s) (m_pRoot s) (Some a) (t_parent n) c" and a: "tnodes s a = Some n"
    and l: "tree_at (tnodes s) (t_left n) (Some a) l" "l \<noteq> Leaf"
    and y: "tree_at (tnodes s) (Some y) pv (Node Leaf (y, k) r)"
    and dist: "distinct (a # y # addrs l @ addrs r @ ctx_addrs c)"
  shows "\<exists>s'. adopts s (Some a) (Some y) = Inr s' \<and> tree_at (tnodes s') (m_pRoot s') NULL (plug (Node l (y, k) r) c) \<and>
    tbrk s' = tbrk s \<and> m_nLen s' = m_nLen s \<and> tnodes s' a \<noteq> None"
proof -
  obtain s1 where s1: "transplant s (Some a) (Some y) = Inr s1" "ctx_at (tnodes s1) (m_pRoot s1) (Some y) (t_parent n) c"
      "tree_at (tnodes s1) (Some y) (t_parent n) (Node Leaf (y, k) r)"
      "\<forall>x. x \<notin> set (addrs (Node Leaf (y, k) r) @ ctx_addrs c) \<longrightarrow> tnodes s1 x = tnodes s x"
      "tbrk s1 = tbrk s" "m_nLen s1 = m_nLen s"
    using transplant_ok [OF ctx a refl y] dist by auto
  have a1: "tnodes s1 a = Some n" using s1(4) a dist by auto
  have "tnodes s1 x = tnodes s x" if "x \<in> set (addrs l)" for x
    using that s1(4) dist by (auto simp del: set_map)
  then have l1: "tree_at (tnodes s1) (t_left n) (Some a) l"
    using l(1) by (subst tree_cong [where m = "tnodes s"])
  define m2 where "m2 = (tnodes s1)(y := map_option (\<lambda>n'. n'\<lparr>t_left := t_left n\<rparr>) (tnodes s1 y))"
  have l2: "tree_at m2 (t_left n) (Some a) l" using l1 dist by (simp add: m2_def)
  have notl: "t_left n \<noteq> Some x" if "x \<notin> set (addrs l)" for x using tree_root [OF l1] root_in [of l x] that by auto
  have nc: "x \<notin> set (ctx_addrs c)" if "t_left n = Some x" for x
  proof -
    have "x \<in> set (addrs l)" using notl [of x] that by blast
    then show ?thesis using dist by (auto simp del: set_map set_inorder)
  qed
  have "adopts s (Some a) (Some y) = Inr (s1\<lparr>tnodes := reparent (t_left n) (Some y) m2\<rparr>)"
    using s1(1,3) a1 set_parent_ok [of m2 "s1\<lparr>tnodes := m2\<rparr>", OF _ l2 l(2)]
    by (auto simp: adopts_def get_t_def set_t_def [of s1] m2_def)
  moreover have "tree_at (reparent (t_left n) (Some y) m2) (Some y) (t_parent n) (Node l (y, k) r)"
    unfolding m2_def by (rule tree_set_left [OF s1(3) l1]) (use dist in auto)
  moreover have "ctx_at (reparent (t_left n) (Some y) m2) (m_pRoot s1) (Some y) (t_parent n) c"
  proof (rule iffD2 [OF ctx_reparent])
    show "ctx_at m2 (m_pRoot s1) (Some y) (t_parent n) c" using s1(2) dist by (simp add: m2_def)
  qed (rule nc)
  moreover have "reparent (t_left n) (Some y) m2 a = Some n" using a1 notl [of a] dist by (auto simp: m2_def)
  ultimately show ?thesis using s1(5,6) tree_at_plug by auto
qed

lemma min_split: "r \<noteq> Leaf \<Longrightarrow> \<exists>y k q c. r = plug (Node Leaf (y, k) q) c \<and> ctx_left c = []"
proof (induction r)
  case (Node l x r)
  obtain b k where x: "x = (b, k)" by fastforce
  show ?case
  proof (cases "l = Leaf")
    case True
    then show ?thesis using x by (intro exI [of _ b] exI [of _ k] exI [of _ r] exI [of _ "[]"]) simp
  next
    case False
    then obtain y k' q c where l: "l = plug (Node Leaf (y, k') q) c" "ctx_left c = []" using Node.IH(1) by blast
    have "ctx_left (c @ [CtxL b k r]) = ctx_left c" by (induction c rule: ctx_left.induct) simp_all
    then show ?thesis using l x
      by (intro exI [of _ y] exI [of _ k'] exI [of _ q] exI [of _ "c @ [CtxL b k r]"]) (simp add: plug_append)
  qed
qed simp

lemma delete_run:
  assumes ok: "stree_ok s t" and found: "lookup t key = Some a" and n: "tnodes s a = Some n"
  shows "deleteNode s key =
    (if t_left n = NULL then transplant s (Some a) (t_right n)
     else if t_right n = NULL then transplant s (Some a) (t_left n)
     else bind_res (treeSuccessor s key) (\<lambda>y.
          bind_res (get_t s y) (\<lambda>ny.
          bind_res (if t_parent ny \<noteq> Some a
                    then bind_res (transplant s y (t_right ny)) (\<lambda>s.
                         bind_res (get_t s (Some a)) (\<lambda>n.
                         bind_res (set_t s y (\<lambda>ny. ny\<lparr>t_right := t_right n\<rparr>)) (\<lambda>s.
                         bind_res (get_t s y) (\<lambda>ny.
                         set_t s (t_right ny) (\<lambda>r. r\<lparr>t_parent := y\<rparr>)))))
                    else Inr s) (\<lambda>s. adopts s (Some a) y))))"
  unfolding deleteNode_def search_ok [OF ok] bind_res_simps found
  using n by (simp add: get_t_def)

lemma plug_ok:
  assumes ok: "stree_ok s (plug t c)" and at: "tree_at (tnodes s') (m_pRoot s') NULL t'" and brk: "tbrk s' = tbrk s"
    and sub: "set (addrs t') \<subseteq> set (addrs (plug t c))" and dist: "distinct (addrs t')"
  shows "stree_ok s' t'"
  using assms unfolding stree_ok_def by (auto simp del: set_map set_inorder)

lemma delete_one_child:
  assumes ok: "stree_ok s (plug (Node l (a, key) r) c)" and found: "lookup (plug (Node l (a, key) r) c) key = Some a"
    and one: "l = Leaf \<and> t = r \<or> r = Leaf \<and> t = l"
  shows "\<exists>s'. deleteNode s key = Inr s' \<and> stree_ok s' (plug t c) \<and> m_nLen s' = m_nLen s \<and> tbrk s' = tbrk s \<and> tnodes s' a \<noteq> None"
proof -
  obtain n where n: "tnodes s a = Some n" "tree_at (tnodes s) (t_left n) (Some a) l"
      "tree_at (tnodes s) (t_right n) (Some a) r" "ctx_at (tnodes s) (m_pRoot s) (Some a) (t_parent n) c"
    using focus(1) [OF ok] by blast
  define v where "v = (if t_left n = NULL then t_right n else t_left n)"
  have dist: "distinct (addrs l @ a # addrs r @ ctx_addrs c)" by (rule focus(2) [OF ok])
  have null: "t_left n = NULL \<longleftrightarrow> l = Leaf" "t_right n = NULL \<longleftrightarrow> r = Leaf"
    using tree_root [OF n(2)] tree_root [OF n(3)] by simp_all
  have v: "tree_at (tnodes s) v (Some a) t" "deleteNode s key = transplant s (Some a) v"
    using one n(2,3) null delete_run [OF ok found n(1)] by (auto simp: v_def)
  have d: "distinct (a # addrs t @ ctx_addrs c)" using dist one by auto
  obtain s' where s': "transplant s (Some a) v = Inr s'" "ctx_at (tnodes s') (m_pRoot s') v (t_parent n) c"
      "tree_at (tnodes s') v (t_parent n) t" "\<forall>x. x \<notin> set (addrs t @ ctx_addrs c) \<longrightarrow> tnodes s' x = tnodes s x"
      "tbrk s' = tbrk s" "m_nLen s' = m_nLen s"
    using transplant_ok [OF n(4,1) refl v(1) d] by blast
  have "stree_ok s' (plug t c)"
    by (rule plug_ok [OF ok]) (use s'(2,3,5) d one in \<open>auto simp: tree_at_plug inorder_plug\<close>)
  moreover have "tnodes s' a = Some n" using s'(4) n(1) d by auto
  ultimately show ?thesis using v(2) s'(1,5,6) by simp
qed

lemma plug_Leaf [simp]: "plug t c = Leaf \<longleftrightarrow> c = [] \<and> t = Leaf"
  by (induction t c rule: plug.induct) simp_all

lemma addrs_plug:
  "distinct (addrs (plug t c)) = distinct (addrs t @ ctx_addrs c)" "set (addrs (plug t c)) = set (addrs t @ ctx_addrs c)"
  by (auto simp: inorder_plug)

lemma take_right_ok:
  \<comment> \<open>the detached node \<open>y\<close> takes over the right subtree of \<open>a\<close>\<close>
  assumes at: "tree_at (tnodes s) (m_pRoot s) NULL (plug (Node l (a, key) r) c)" and r: "r \<noteq> Leaf"
    and dist: "distinct (addrs l @ a # addrs r @ ctx_addrs c)" and y: "y \<notin> set (addrs l @ a # addrs r @ ctx_addrs c)"
    and ny: "tnodes s y = Some ny" "t_key ny = ky" "t_left ny = NULL"
  shows "\<exists>s1 n1. bind_res (get_t s (Some a)) (\<lambda>n.
        bind_res (set_t s (Some y) (\<lambda>ny. ny\<lparr>t_right := t_right n\<rparr>)) (\<lambda>s.
        bind_res (get_t s (Some y)) (\<lambda>ny. set_t s (t_right ny) (\<lambda>r. r\<lparr>t_parent := Some y\<rparr>)))) = Inr s1 \<and>
      ctx_at (tnodes s1) (m_pRoot s1) (Some a) (t_parent n1) c \<and> tnodes s1 a = Some n1 \<and>
      tree_at (tnodes s1) (t_left n1) (Some a) l \<and> tree_at (tnodes s1) (Some y) (t_parent ny) (Node Leaf (y, ky) r) \<and>
      tbrk s1 = tbrk s \<and> m_nLen s1 = m_nLen s"
proof -
  obtain n1 where n1: "tnodes s a = Some n1" "tree_at (tnodes s) (t_left n1) (Some a) l"
      "tree_at (tnodes s) (t_right n1) (Some a) r" "ctx_at (tnodes s) (m_pRoot s) (Some a) (t_parent n1) c"
    using at by (auto simp: tree_at_plug [of _ _ _ c])
  define m2 where "m2 = (tnodes s)(y := map_option (\<lambda>n. n\<lparr>t_right := t_right n1\<rparr>) (tnodes s y))"
  define m3 where "m3 = reparent (t_right n1) (Some y) m2"
  have r2: "tree_at m2 (t_right n1) (Some a) r" using n1(3) y by (simp add: m2_def)
  have same: "m3 x = tnodes s x" if "x \<notin> set (addrs r)" "x \<noteq> y" for x
  proof -
    have "t_right n1 \<noteq> Some x" using tree_root [OF n1(3)] root_in [of r x] that(1) by auto
    then show ?thesis using that(2) by (simp add: m3_def m2_def)
  qed
  have keep: "m3 x = tnodes s x" if "x \<in> set (addrs l) \<or> x = a \<or> x \<in> set (ctx_addrs c)" for x
    by (rule same) (use that dist y in \<open>auto simp del: set_map set_inorder\<close>)
  have "tree_at m3 (Some y) (t_parent ny) (Node Leaf (y, ky) r)"
    unfolding m3_def m2_def by (rule tree_set_right [OF ny n1(3)]) (use dist y in auto)
  moreover have "tree_at m3 (t_left n1) (Some a) l" by (rule iffD2 [OF tree_cong n1(2)]) (rule keep, simp)
  moreover have "ctx_at m3 (m_pRoot s) (Some a) (t_parent n1) c" by (rule iffD2 [OF ctx_cong n1(4)]) (rule keep, simp)
  moreover have "m3 a = Some n1" using keep [of a] n1(1) by simp
  moreover have "set_t (s\<lparr>tnodes := m2\<rparr>) (t_right n1) (\<lambda>r. r\<lparr>t_parent := Some y\<rparr>) = Inr (s\<lparr>tnodes := m3\<rparr>)"
    using set_parent_ok [of m2 "s\<lparr>tnodes := m2\<rparr>", OF _ r2, of "Some y"] r by (simp add: m3_def)
  ultimately show ?thesis
    using n1(1) ny(1)
    by (intro exI [of _ "s\<lparr>tnodes := m3\<rparr>"] exI [of _ n1]) (simp add: get_t_def set_t_def [of s] m2_def)
qed

lemma detach_ok:
  \<comment> \<open>the successor leaves its place and takes over the right subtree of the node\<close>
  assumes ok: "stree_ok s (plug (Node l (a, key) (plug (Node Leaf (y, ky) q) cy)) c)" and cy: "cy \<noteq> []"
    and ny: "tnodes s y = Some ny"
  shows "\<exists>s1 n1 pv. bind_res (transplant s (Some y) (t_right ny)) (\<lambda>s.
        bind_res (get_t s (Some a)) (\<lambda>n.
        bind_res (set_t s (Some y) (\<lambda>ny. ny\<lparr>t_right := t_right n\<rparr>)) (\<lambda>s.
        bind_res (get_t s (Some y)) (\<lambda>ny. set_t s (t_right ny) (\<lambda>r. r\<lparr>t_parent := Some y\<rparr>))))) = Inr s1 \<and>
      ctx_at (tnodes s1) (m_pRoot s1) (Some a) (t_parent n1) c \<and> tnodes s1 a = Some n1 \<and>
      tree_at (tnodes s1) (t_left n1) (Some a) l \<and> tree_at (tnodes s1) (Some y) pv (Node Leaf (y, ky) (plug q cy)) \<and>
      tbrk s1 = tbrk s \<and> m_nLen s1 = m_nLen s"
proof -
  let ?d = "cy @ CtxR a key l # c"
  have ok': "stree_ok s (plug (Node Leaf (y, ky) q) ?d)" using ok by (simp add: plug_append)
  have y: "t_key ny = ky" "t_left ny = NULL" "tree_at (tnodes s) (t_right ny) (Some y) q"
      "ctx_at (tnodes s) (m_pRoot s) (Some y) (t_parent ny) ?d"
    using focus(1) [OF ok'] ny by auto
  have dist: "distinct (y # addrs q @ ctx_addrs ?d)" using focus(2) [OF ok'] by simp
  have "distinct (addrs (plug q ?d))" "y \<notin> set (addrs (plug q ?d))"
    using dist unfolding addrs_plug by simp_all
  then have dist': "distinct (addrs l @ a # addrs (plug q cy) @ ctx_addrs c)"
    and y_new: "y \<notin> set (addrs l @ a # addrs (plug q cy) @ ctx_addrs c)"
    unfolding plug_append plug.simps addrs_plug(1,2) [of _ c] by (simp_all del: set_map set_inorder)
  obtain s1 where s1: "transplant s (Some y) (t_right ny) = Inr s1" "ctx_at (tnodes s1) (m_pRoot s1) (t_right ny) (t_parent ny) ?d"
      "tree_at (tnodes s1) (t_right ny) (t_parent ny) q" "\<forall>x. x \<notin> set (addrs q @ ctx_addrs ?d) \<longrightarrow> tnodes s1 x = tnodes s x"
      "tbrk s1 = tbrk s" "m_nLen s1 = m_nLen s"
    using transplant_ok [OF y(4) ny refl y(3) dist] by blast
  have at: "tree_at (tnodes s1) (m_pRoot s1) NULL (plug (Node l (a, key) (plug q cy)) c)"
    using s1(2,3) tree_at_plug [of "tnodes s1" "m_pRoot s1" q ?d] by (auto simp: plug_append)
  have y1: "tnodes s1 y = Some ny" using s1(4) dist ny by (metis distinct.simps(2))
  have "plug q cy \<noteq> Leaf" using cy by simp
  from take_right_ok [OF at this dist' y_new y1 y(1,2)] show ?thesis
    unfolding s1(1) bind_res_simps s1(5) [symmetric] s1(6) [symmetric] by (elim exE) (intro exI)
qed

lemma delete_successor:
  \<comment> \<open>whether the successor is the right child or deeper, it then stands alone above the rest of the right subtree\<close>
  assumes ok: "stree_ok s (plug (Node l (a, key) r) c)" and found: "lookup (plug (Node l (a, key) r) c) key = Some a"
    and l: "l \<noteq> Leaf" and r: "r = plug (Node Leaf (y, ky) q) cy" "ctx_left cy = []"
  shows "\<exists>s1 n1 pv. deleteNode s key = adopts s1 (Some a) (Some y) \<and> ctx_at (tnodes s1) (m_pRoot s1) (Some a) (t_parent n1) c \<and>
      tnodes s1 a = Some n1 \<and> tree_at (tnodes s1) (t_left n1) (Some a) l \<and>
      tree_at (tnodes s1) (Some y) pv (Node Leaf (y, ky) (plug q cy)) \<and> tbrk s1 = tbrk s \<and> m_nLen s1 = m_nLen s"
proof -
  obtain n where n: "tnodes s a = Some n" "tree_at (tnodes s) (t_left n) (Some a) l"
      "tree_at (tnodes s) (t_right n) (Some a) r" "ctx_at (tnodes s) (m_pRoot s) (Some a) (t_parent n) c"
    using focus(1) [OF ok] by blast
  have ok': "stree_ok s (plug (Node Leaf (y, ky) q) (cy @ CtxR a key l # c))" using ok r by (simp add: plug_append)
  obtain ny where ny: "tnodes s y = Some ny" "ctx_at (tnodes s) (m_pRoot s) (Some y) (t_parent ny) (cy @ CtxR a key l # c)"
    using focus(1) [OF ok'] by blast
  have succ: "treeSuccessor s key = Inr (Some y)"
    using successor_ok [OF ok found] r by (simp add: inorder_plug)
  have null: "t_left n \<noteq> NULL" "t_right n \<noteq> NULL" using tree_root [OF n(2)] tree_root [OF n(3)] l r by auto
  show ?thesis
  proof (cases cy)
    case Nil
    then have "t_parent ny = Some a" using ny(2) by simp
    then have "deleteNode s key = adopts s (Some a) (Some y)"
      using delete_run [OF ok found n(1)] succ null ny(1) by (simp add: get_t_def)
    moreover have "tree_at (tnodes s) (Some y) (Some a) (Node Leaf (y, ky) (plug q cy))"
      using n(3) r Nil tree_root [OF n(3)] by simp
    ultimately show ?thesis using n by blast
  next
    case (Cons f d)
    then obtain b k z where f: "f = CtxL b k z" using r(2) by (cases f) simp_all
    then have "t_parent ny = Some b" "b \<in> set (addrs r)" using ny(2) Cons r by (auto simp: inorder_plug)
    then have "t_parent ny \<noteq> Some a" using focus(2) [OF ok] by auto
    then show ?thesis
      using detach_ok [OF ok [unfolded r(1)] _ ny(1)] delete_run [OF ok found n(1)] succ null ny(1) Cons
      by (auto simp: get_t_def)
  qed
qed

lemma delete_two_children:
  assumes ok: "stree_ok s (plug (Node l (a, key) r) c)" and found: "lookup (plug (Node l (a, key) r) c) key = Some a"
    and l: "l \<noteq> Leaf" and r: "r = plug (Node Leaf (y, ky) q) cy" "ctx_left cy = []"
  shows "\<exists>s'. deleteNode s key = Inr s' \<and> stree_ok s' (plug (Node l (y, ky) (plug q cy)) c) \<and>
    m_nLen s' = m_nLen s \<and> tbrk s' = tbrk s \<and> tnodes s' a \<noteq> None"
proof -
  have d: "distinct (a # y # addrs l @ addrs (plug q cy) @ ctx_addrs c)"
    using focus(2) [OF ok] r by (auto simp: inorder_plug)
  obtain s1 n1 pv where s1: "deleteNode s key = adopts s1 (Some a) (Some y)"
      "ctx_at (tnodes s1) (m_pRoot s1) (Some a) (t_parent n1) c" "tnodes s1 a = Some n1"
      "tree_at (tnodes s1) (t_left n1) (Some a) l" "tree_at (tnodes s1) (Some y) pv (Node Leaf (y, ky) (plug q cy))"
      "tbrk s1 = tbrk s" "m_nLen s1 = m_nLen s"
    using delete_successor [OF assms] by blast
  obtain s' where s': "adopts s1 (Some a) (Some y) = Inr s'"
      "tree_at (tnodes s') (m_pRoot s') NULL (plug (Node l (y, ky) (plug q cy)) c)" "tbrk s' = tbrk s1"
      "m_nLen s' = m_nLen s1" "tnodes s' a \<noteq> None"
    using adopts_ok [OF s1(2,3,4) l s1(5) d] by blast
  have "stree_ok s' (plug (Node l (y, ky) (plug q cy)) c)"
    by (rule plug_ok [OF ok]) (use s'(2,3) s1(6) d r in \<open>auto simp: inorder_plug\<close>)
  then show ?thesis using s1 s' by simp
qed

lemma delete_ok:
  assumes ok: "stree_ok s t" and sorted: "sorted_keys t"
  shows "\<exists>s' t'. deleteNode s key = Inr s' \<and> stree_ok s' t' \<and> inorder t' = filter (\<lambda>x. snd x \<noteq> key) (inorder t) \<and>
    m_nLen s' = m_nLen s \<and> tbrk s' = tbrk s \<and> (\<forall>a. lookup t key = Some a \<longrightarrow> tnodes s' a \<noteq> None)"
proof (cases "lookup t key")
  case None
  then have "deleteNode s key = Inr s" using search_ok [OF ok] by (simp add: deleteNode_def)
  moreover have "filter (\<lambda>x. snd x \<noteq> key) (inorder t) = inorder t"
    using lookup_none [OF sorted] None by (intro filter_True) auto
  ultimately show ?thesis using ok None by auto
next
  case (Some a)
  then obtain l r c where t: "t = plug (Node l (a, key) r) c" using lookup_plug by blast
  note ok' = ok [unfolded t] and found = Some [unfolded t]
  have "\<forall>x \<in> set (ctx_left c @ inorder l @ inorder r @ ctx_right c). snd x \<noteq> key"
    using sorted t by (auto simp: inorder_plug sorted_wrt_append)
  then have keep: "filter (\<lambda>x. snd x \<noteq> key) (inorder t) = ctx_left c @ (inorder l @ inorder r) @ ctx_right c"
    by (simp add: t inorder_plug filter_True)
  show ?thesis
  proof (cases "l = Leaf \<or> r = Leaf")
    case True
    then obtain t1 where "l = Leaf \<and> t1 = r \<or> r = Leaf \<and> t1 = l" by blast
    then show ?thesis
      using delete_one_child [OF ok' found, of t1] keep Some by (fastforce simp: inorder_plug)
  next
    case False
    then obtain y ky q cy where r: "r = plug (Node Leaf (y, ky) q) cy" "ctx_left cy = []" using min_split by blast
    then have "inorder (plug (Node l (y, ky) (plug q cy)) c) = filter (\<lambda>x. snd x \<noteq> key) (inorder t)"
      using keep by (simp add: inorder_plug)
    then show ?thesis using delete_two_children [OF ok' found _ r] False Some by fastforce
  qed
qed

section \<open>Inserting\<close>

fun left_insert :: "addr \<Rightarrow> int \<Rightarrow> atree \<Rightarrow> atree" where
  \<comment> \<open>what \<^verbatim>\<open>insert\<close> does to a tree: down to the left in any case, then to the side of the smaller key\<close>
  "left_insert b key Leaf = Node Leaf (b, key) Leaf"
| "left_insert b key (Node Leaf (a, k) r) =
     (if k < key then Node (Node Leaf (b, key) Leaf) (a, k) r else Node Leaf (a, k) (Node Leaf (b, key) Leaf))"
| "left_insert b key (Node l x r) = Node (left_insert b key l) x r"

lemma left_insert_node [simp]: "l \<noteq> Leaf \<Longrightarrow> left_insert b key (Node l x r) = Node (left_insert b key l) x r"
  by (cases l) simp_all

lemma left_insert_plug:
  "t \<noteq> Leaf \<Longrightarrow> ctx_left c = [] \<Longrightarrow> left_insert b key (plug t c) = plug (left_insert b key t) c"
  by (induction t c rule: plug.induct) simp_all

lemma lookup_left_insert: "t \<noteq> Leaf \<Longrightarrow> lookup (left_insert b key t) key = lookup t key"
  by (induction b key t rule: left_insert.induct) (auto split: if_splits)

lemma scan_ok:
  assumes "tree_at (tnodes s) p par t" and "size t < fuel" and "tnodes s b = Some nb"
  shows "tree_insert_scan fuel s (Some b) p pp = Inr (if t = Leaf then pp else Some (hd (addrs t)))"
  using assms(1,2)
proof (induction t arbitrary: p par fuel pp)
  case Leaf
  then show ?case by (cases fuel) simp_all
next
  case (Node l x r)
  then obtain a k f where x: "x = (a, k)" and f: "fuel = Suc f" by (cases x; cases fuel) auto
  then obtain n where n: "p = Some a" "tnodes s a = Some n" "tree_at (tnodes s) (t_left n) (Some a) l"
    using Node.prems(1) by auto
  have "tree_insert_scan fuel s (Some b) p pp = tree_insert_scan f s (Some b) (t_left n) (Some a)"
    using n(1,2) f assms(3) by (simp add: get_t_def)
  also have "\<dots> = Inr (if l = Leaf then Some a else Some (hd (addrs l)))"
    using Node.IH(1) [OF n(3), of f] Node.prems(2) f by simp
  finally show ?case using x by (cases "inorder l") auto
qed

lemma insert_ok:
  assumes ok: "stree_ok s t" and ne: "t \<noteq> Leaf" and b: "tnodes s b = Some nb" "t_left nb = NULL" "t_right nb = NULL"
    and new: "b \<notin> set (addrs t)" "b < tbrk s"
  shows "\<exists>s'. tree_insert s (Some b) = Inr (True, s') \<and> stree_ok s' (left_insert b (t_key nb) t) \<and> m_nLen s' = m_nLen s"
proof -
  obtain y k q c where t: "t = plug (Node Leaf (y, k) q) c" "ctx_left c = []" using min_split [OF ne] by blast
  let ?key = "t_key nb" and ?u = "left_insert b (t_key nb) (Node Leaf (y, k) q)"
  obtain n where n: "tnodes s y = Some n" "t_key n = k" "t_left n = NULL" "tree_at (tnodes s) (t_right n) (Some y) q"
      "ctx_at (tnodes s) (m_pRoot s) (Some y) (t_parent n) c"
    using focus(1) [OF ok [unfolded t]] by auto
  have dist: "distinct (y # addrs q @ ctx_addrs c)" using focus(2) [OF ok [unfolded t]] by simp
  have bn: "b \<noteq> y" "b \<notin> set (addrs q)" "b \<notin> set (ctx_addrs c)" using new(1) t(1) by (auto simp: inorder_plug)
  have at: "tree_at (tnodes s) (m_pRoot s) NULL t" using ok by (simp add: stree_ok_def)
  have "hd (addrs t) = y" using t by (simp add: inorder_plug)
  then have scan: "tree_insert_scan (Suc (tbrk s)) s (Some b) (m_pRoot s) NULL = Inr (Some y)"
    using scan_ok [OF at, of "Suc (tbrk s)" b nb NULL] stree_size [OF ok] b(1) ne by (simp del: tree_insert_scan.simps)
  have root: "m_pRoot s \<noteq> NULL" using tree_root [OF at] ne by simp
  define m where "m = (tnodes s)(y \<mapsto> (if k < ?key then n\<lparr>t_left := Some b\<rparr> else n\<lparr>t_right := Some b\<rparr>), b \<mapsto> nb\<lparr>t_parent := Some y\<rparr>)"
  have "tree_insert s (Some b) = Inr (True, s\<lparr>tnodes := m\<rparr>)"
    using root n(1,2) b(1) bn(1) unfolding tree_insert_def scan
    by (auto simp: get_t_def set_t_def m_def simp del: tree_insert_scan.simps)
  moreover have "tree_at m (Some y) (t_parent n) ?u"
    using n b(2,3) bn dist by (auto simp: m_def)
  moreover have "ctx_at m (m_pRoot s) (Some y) (t_parent n) c"
    using n(5) bn dist by (auto simp: m_def simp del: set_map)
  moreover have "inorder ?u = (if k < ?key then (b, ?key) # (y, k) # inorder q else [(y, k), (b, ?key)])" by simp
  moreover have "distinct (addrs (plug ?u c))" "set (addrs (plug ?u c)) \<subseteq> insert b (set (addrs t))"
    using dist bn t by (auto simp: inorder_plug)
  ultimately show ?thesis
    using ok new(2) left_insert_plug [of "Node Leaf (y, k) q" c b ?key] t tree_at_plug
    by (intro exI [of _ "s\<lparr>tnodes := m\<rparr>"]) (auto simp: stree_ok_def simp del: set_map set_inorder left_insert.simps)
qed

section \<open>Walking\<close>

lemma walk_node_ok:
  assumes "tree_at (tnodes s) p par t" and "size t < fuel" and "pos + size t \<le> length out" and "int (length out) \<le> INT_MAX"
  shows "walk_node fuel s p out (int pos) = Inr (take pos out @ map snd (preorder t) @ drop (pos + size t) out, int (pos + size t))"
  using assms
proof (induction t arbitrary: p par fuel pos out)
  case Leaf
  then show ?case by (cases fuel) simp_all
next
  case (Node l x r)
  then obtain a k f where x: "x = (a, k)" and f: "fuel = Suc f" by (cases x; cases fuel) auto
  then obtain n where n: "p = Some a" "tnodes s a = Some n" "t_key n = k"
      "tree_at (tnodes s) (t_left n) (Some a) l" "tree_at (tnodes s) (t_right n) (Some a) r"
    using Node.prems(1) by auto
  have len: "pos < length out" "in_int (int pos + 1)" "int pos + 1 = int (Suc pos)"
    using Node.prems(3,4) by (auto simp: in_int_def INT_MIN_def)
  let ?o1 = "out[pos := k]"
  let ?o2 = "take (Suc pos) ?o1 @ map snd (preorder l) @ drop (Suc pos + size l) ?o1"
  have "walk_node f s (t_left n) ?o1 (int (Suc pos)) = Inr (?o2, int (Suc pos + size l))"
    using Node.prems f by (intro Node.IH(1) [OF n(4)]) simp_all
  moreover have "walk_node f s (t_right n) ?o2 (int (Suc pos + size l)) =
      Inr (take (Suc pos + size l) ?o2 @ map snd (preorder r) @ drop (Suc pos + size l + size r) ?o2, int (Suc pos + size l + size r))"
    using Node.prems f by (intro Node.IH(2) [OF n(5)]) simp_all
  moreover have "take (Suc pos + size l) ?o2 @ map snd (preorder r) @ drop (Suc pos + size l + size r) ?o2 =
      take pos out @ map snd (preorder (Node l x r)) @ drop (pos + size (Node l x r)) out"
    using len(1) x by (simp add: take_Suc_conv_app_nth ac_simps min_def)
  ultimately show ?case using n(1-3) len x f by (simp add: get_t_def ac_simps)
qed

lemma walk_node_overflow:
  assumes "tree_at (tnodes s) p par t" and "size t < fuel" and "length out < pos + size t" and "pos \<le> length out"
    and "int (length out) \<le> INT_MAX"
  shows "walk_node fuel s p out (int pos) = Inl OutOfBounds"
  using assms
proof (induction t arbitrary: p par fuel pos out)
  case (Node l x r)
  then obtain a k f where x: "x = (a, k)" and f: "fuel = Suc f" by (cases x; cases fuel) auto
  then obtain n where n: "p = Some a" "tnodes s a = Some n"
      "tree_at (tnodes s) (t_left n) (Some a) l" "tree_at (tnodes s) (t_right n) (Some a) r"
    using Node.prems(1) by auto
  let ?o1 = "out[pos := t_key n]"
  show ?case
  proof (cases "pos = length out")
    case True
    then show ?thesis using n(1,2) f by (simp add: get_t_def arr_set_def)
  next
    case False
    then have len: "pos < length out" "in_int (int pos + 1)" "int pos + 1 = int (Suc pos)"
      using Node.prems(4,5) by (auto simp: in_int_def INT_MIN_def)
    have run: "walk_node fuel s p out (int pos) = bind_res (walk_node f s (t_left n) ?o1 (int (Suc pos)))
        (\<lambda>(out, pos). walk_node f s (t_right n) out pos)"
      using n(1,2) len f by (simp add: get_t_def ac_simps)
    show ?thesis
    proof (cases "length out < Suc pos + size l")
      case True
      then show ?thesis using run Node.IH(1) [OF n(3), of f ?o1 "Suc pos"] Node.prems(2,5) len(1) f by simp
    next
      case False
      let ?o2 = "take (Suc pos) ?o1 @ map snd (preorder l) @ drop (Suc pos + size l) ?o1"
      have "walk_node f s (t_left n) ?o1 (int (Suc pos)) = Inr (?o2, int (Suc pos + size l))"
        using Node.prems(2,5) f False by (intro walk_node_ok [OF n(3)]) simp_all
      moreover have "walk_node f s (t_right n) ?o2 (int (Suc pos + size l)) = Inl OutOfBounds"
        using Node.prems(2,3,5) f False by (intro Node.IH(2) [OF n(4)]) simp_all
      ultimately show ?thesis using run by simp
    qed
  qed
qed simp

lemma tree_ends:
  assumes "tree_at m p par t" and "t \<noteq> Leaf"
  shows "\<exists>n. m (hd (addrs t)) = Some n \<and> t_left n = NULL" and "\<exists>n. m (last (addrs t)) = Some n \<and> t_right n = NULL"
proof -
  show "\<exists>n. m (hd (addrs t)) = Some n \<and> t_left n = NULL" using assms
  proof (induction t arbitrary: p par)
    case (Node l x r)
    then show ?case by (cases x; cases "l = Leaf") (auto simp: hd_append)
  qed simp
  show "\<exists>n. m (last (addrs t)) = Some n \<and> t_right n = NULL" using assms
  proof (induction t arbitrary: p par)
    case (Node l x r)
    then show ?case by (cases x; cases "r = Leaf") auto
  qed simp
qed

section \<open>The tree as an ordered set of nodes\<close>

locale ordered_nodes =
  fixes holds :: "'s \<Rightarrow> ('a \<times> int) list \<Rightarrow> bool" and find :: "'s \<Rightarrow> int \<Rightarrow> 'a option res"
    and del :: "'s \<Rightarrow> int \<Rightarrow> 's res"
  assumes find: "holds s xs \<Longrightarrow> \<exists>p. find s k = Inr p \<and> (\<forall>a. p = Some a \<longleftrightarrow> (a, k) \<in> set xs)"
    and del: "holds s xs \<Longrightarrow> \<exists>s'. del s k = Inr s' \<and> holds s' (filter (\<lambda>x. snd x \<noteq> k) xs)"
begin

lemma find_eq:
  assumes "holds s xs" and "holds s' ys" and "\<And>a. (a, k) \<in> set ys \<longleftrightarrow> (a, k) \<in> set xs"
  shows "find s' k = find s k"
proof -
  obtain p q where p: "find s k = Inr p" "\<forall>a. p = Some a \<longleftrightarrow> (a, k) \<in> set xs"
    and q: "find s' k = Inr q" "\<forall>a. q = Some a \<longleftrightarrow> (a, k) \<in> set ys"
    using find [OF assms(1)] find [OF assms(2)] by metis
  then have "\<forall>a. p = Some a \<longleftrightarrow> q = Some a" using assms(3) by simp
  then have "p = q" by (metis not_Some_eq)
  then show ?thesis using p(1) q(1) by simp
qed

lemma find_none: "holds s xs \<Longrightarrow> k \<notin> snd ` set xs \<Longrightarrow> find s k = Inr None"
  using find [of s xs k] by (metis image_eqI not_Some_eq snd_conv)

lemma delete_many:
  "holds s xs \<Longrightarrow> \<exists>s'. fold_res del s ks = Inr s' \<and> holds s' (filter (\<lambda>x. snd x \<notin> set ks) xs)"
proof (induction ks arbitrary: s xs)
  case (Cons k ks)
  then obtain s1 where s1: "del s k = Inr s1" "holds s1 (filter (\<lambda>x. snd x \<noteq> k) xs)" using del by blast
  have "filter (\<lambda>x. snd x \<notin> set ks) (filter (\<lambda>x. snd x \<noteq> k) xs) = filter (\<lambda>x. snd x \<notin> set (k # ks)) xs"
    by (simp add: conj_commute)
  then show ?case using Cons.IH [OF s1(2)] s1(1) by simp
qed simp

lemma deletes:
  assumes "holds s xs"
  shows "\<exists>s'. fold_res del s ks = Inr s' \<and> holds s' (filter (\<lambda>x. snd x \<notin> set ks) xs) \<and>
    (\<forall>k. find s' k = (if k \<in> set ks then Inr None else find s k))"
proof -
  obtain s' where s': "fold_res del s ks = Inr s'" "holds s' (filter (\<lambda>x. snd x \<notin> set ks) xs)"
    using delete_many [OF assms] by blast
  have "find s' k = (if k \<in> set ks then Inr None else find s k)" for k
    using find_none [OF s'(2), of k] find_eq [OF assms s'(2), of k] by auto
  then show ?thesis using s' by blast
qed

end

definition tree_holds :: "int \<Rightarrow> stree \<Rightarrow> (addr \<times> int) list \<Rightarrow> bool" where
  "tree_holds len s xs \<longleftrightarrow> (\<exists>t. stree_ok s t \<and> sorted_keys t \<and> inorder t = xs \<and> m_nLen s = len)"

interpretation st: ordered_nodes "tree_holds len" search deleteNode for len
proof unfold_locales
  fix s xs k assume "tree_holds len s xs"
  then obtain t where t: "stree_ok s t" "sorted_keys t" "inorder t = xs" "m_nLen s = len" by (auto simp: tree_holds_def)
  show "\<exists>p. search s k = Inr p \<and> (\<forall>a. p = Some a \<longleftrightarrow> (a, k) \<in> set xs)"
    using search_ok [OF t(1)] lookup_sorted [OF t(2)] t(3) by auto
  obtain s' t' where s': "deleteNode s k = Inr s'" "stree_ok s' t'" "inorder t' = filter (\<lambda>x. snd x \<noteq> k) (inorder t)"
      "m_nLen s' = m_nLen s"
    using delete_ok [OF t(1,2), of k] by blast
  have "sorted_keys t'" using t(2) s'(3) by (simp add: sorted_wrt_map sorted_wrt_filter)
  then show "\<exists>s'. deleteNode s k = Inr s' \<and> tree_holds len s' (filter (\<lambda>x. snd x \<noteq> k) xs)"
    using s' t by (auto simp: tree_holds_def)
qed

section \<open>Properties\<close>

definition tree_sample :: stree where
  \<comment> \<open>the tree with 5 at its root and 3, 8 and, left of 8, 6 below it, for the witnesses\<close>
  "tree_sample = \<lparr>m_pRoot = Some 0, m_nLen = 4, tnodes =
     [0 \<mapsto> \<lparr>t_key = 5, t_parent = NULL, t_left = Some 1, t_right = Some 2\<rparr>,
      1 \<mapsto> \<lparr>t_key = 3, t_parent = Some 0, t_left = NULL, t_right = NULL\<rparr>,
      2 \<mapsto> \<lparr>t_key = 8, t_parent = Some 0, t_left = Some 3, t_right = NULL\<rparr>,
      3 \<mapsto> \<lparr>t_key = 6, t_parent = Some 2, t_left = NULL, t_right = NULL\<rparr>,
      4 \<mapsto> \<lparr>t_key = 7, t_parent = NULL, t_left = NULL, t_right = NULL\<rparr>], tbrk = 5\<rparr>"

abbreviation tree_sample_tree :: atree where
  "tree_sample_tree \<equiv> Node (Node Leaf (1, 3) Leaf) (0, 5) (Node (Node Leaf (3, 6) Leaf) (2, 8) Leaf)"

lemma tree_sample_ok: "stree_ok tree_sample tree_sample_tree"
  by (simp add: stree_ok_def tree_sample_def)

lemma tree_sample_sorted: "sorted_keys tree_sample_tree"
  by simp

text \<open>C24.  On a search tree \<open>search\<close> ends and finds the node of a key exactly when there is one.\<close>

theorem bst_search:
  assumes "stree_ok s t" and "sorted_keys t"
  shows "\<exists>p. search s key = Inr p \<and> (\<forall>a. p = Some a \<longleftrightarrow> (a, key) \<in> set (inorder t)) \<and> (p = NULL \<longleftrightarrow> key \<notin> set (keys t))"
  using search_ok [OF assms(1), of key] lookup_sorted [OF assms(2), of key] lookup_none [OF assms(2), of key] by auto

theorem bst_search_witness: "search tree_sample 6 = Inr (Some 3)"
  using bst_search [OF tree_sample_ok tree_sample_sorted, of 6] by auto

text \<open>C25.  The successor and the predecessor of a key in a search tree are the next and the previous
  node in the order of the keys, NULL at the ends, whether they are found below the node or by
  climbing to an ancestor.\<close>

theorem bst_neighbours:
  assumes "stree_ok s t" and "sorted_keys t" and "inorder t = xs @ (a, key) # ys"
  shows "treeSuccessor s key = Inr (hd_ptr (map fst ys) NULL) \<and> treePreDecessor s key = Inr (last_ptr (map fst xs) NULL)"
proof -
  have found: "lookup t key = Some a" using lookup_sorted [OF assms(2)] assms(3) by simp
  then obtain l r c where t: "t = plug (Node l (a, key) r) c" using lookup_plug by blast
  have "(ctx_left c @ inorder l) @ (a, key) # (inorder r @ ctx_right c) = xs @ (a, key) # ys"
    using assms(3) t by (simp add: inorder_plug)
  moreover have "distinct (inorder t)" using assms(1) by (simp add: stree_ok_def distinct_map)
  then have "(a, key) \<notin> set xs" "(a, key) \<notin> set ys" using assms(3) by simp_all
  ultimately have "ctx_left c @ inorder l = xs \<and> inorder r @ ctx_right c = ys"
    using append_Cons_eq_iff [of "(a, key)" xs ys] by metis
  then show ?thesis
    using successor_ok [OF assms(1) [unfolded t] found [unfolded t]] predecessor_ok [OF assms(1) [unfolded t] found [unfolded t]] by simp
qed

theorem bst_neighbours_witness: "treeSuccessor tree_sample 5 = Inr (Some 3) \<and> treePreDecessor tree_sample 6 = Inr (Some 0)"
  using bst_neighbours [OF tree_sample_ok tree_sample_sorted, of "[(1, 3)]" 0 5 "[(3, 6), (2, 8)]"]
    bst_neighbours [OF tree_sample_ok tree_sample_sorted, of "[(1, 3), (0, 5)]" 3 6 "[(2, 8)]"] by simp

text \<open>C23.  Deleting any keys one after the other from a search tree, whatever subtrees their nodes have,
  leaves a search tree with the same nodes in the same order but for those keys; a search then finds
  none of them and every other key as before.  The length is not changed.\<close>

theorem bst_delete:
  assumes "stree_ok s t" and "sorted_keys t"
  shows "\<exists>s' t'. fold_res deleteNode s ks = Inr s' \<and> stree_ok s' t' \<and> sorted_keys t' \<and>
    inorder t' = filter (\<lambda>x. snd x \<notin> set ks) (inorder t) \<and> m_nLen s' = m_nLen s \<and>
    (\<forall>k. search s' k = (if k \<in> set ks then Inr NULL else search s k))"
proof -
  have "tree_holds (m_nLen s) s (inorder t)" using assms by (auto simp: tree_holds_def)
  then obtain s' where s': "fold_res deleteNode s ks = Inr s'"
      "tree_holds (m_nLen s) s' (filter (\<lambda>x. snd x \<notin> set ks) (inorder t))"
      "\<forall>k. search s' k = (if k \<in> set ks then Inr NULL else search s k)"
    using st.deletes by blast
  then show ?thesis by (auto simp: tree_holds_def)
qed

theorem bst_delete_witness:
  "\<exists>s' t'. fold_res deleteNode tree_sample [5, 3] = Inr s' \<and> stree_ok s' t' \<and> inorder t' = [(3, 6), (2, 8)]"
  using bst_delete [OF tree_sample_ok tree_sample_sorted, of "[5, 3]"] by auto

text \<open>C26.  Inserting into a tree that is not empty: the new node is hung below the leftmost one, on the
  wrong side, the length is not counted up, and a search for the key answers what it answered
  before, so that a new key is never found.\<close>

theorem bst_insert_not_found:
  assumes "stree_ok s t" and "t \<noteq> Leaf" and "tnodes s b = Some \<lparr>t_key = key, t_parent = par, t_left = NULL, t_right = NULL\<rparr>"
    and "b \<notin> set (addrs t)" and "b < tbrk s"
  shows "\<exists>s'. tree_insert s (Some b) = Inr (True, s') \<and> stree_ok s' (left_insert b key t) \<and>
    search s' key = search s key \<and> m_nLen s' = m_nLen s"
proof -
  obtain s' where s': "tree_insert s (Some b) = Inr (True, s')" "stree_ok s' (left_insert b key t)" "m_nLen s' = m_nLen s"
    using insert_ok [OF assms(1-3)] assms(4,5) by auto
  then show ?thesis using search_ok [OF s'(2)] search_ok [OF assms(1)] lookup_left_insert [OF assms(2)] by simp
qed

theorem bst_insert_not_found_witness: "\<exists>s'. tree_insert tree_sample (Some 4) = Inr (True, s') \<and> search s' 7 = Inr NULL"
proof -
  have "search tree_sample 7 = Inr NULL" using search_ok [OF tree_sample_ok, of 7] by simp
  then show ?thesis
    using bst_insert_not_found [OF tree_sample_ok, of 4 7 NULL] by (auto simp: tree_sample_def)
qed

text \<open>C27.  The walk called in-order writes the keys in pre-order; it stays inside its array exactly when
  the tree has at most \<open>m_nLen\<close> nodes, and writes behind its end otherwise.\<close>

theorem bst_walk_preorder:
  assumes "stree_ok s t" and "t \<noteq> Leaf" and "0 \<le> m_nLen s" and "m_nLen s \<le> INT_MAX"
  shows "inorder_tree_walk junk s pOut nLen =
    (if int (size t) \<le> m_nLen s
     then Inr (Some (map snd (preorder t) @ drop (size t) (map junk [0..<nat (m_nLen s)])), m_nLen s)
     else Inl OutOfBounds)"
proof -
  have at: "tree_at (tnodes s) (m_pRoot s) NULL t" using assms(1) by (simp add: stree_ok_def)
  have "m_pRoot s \<noteq> NULL" using tree_root [OF at] assms(2) by simp
  then show ?thesis
    using walk_node_ok [OF at, of "Suc (tbrk s)" 0 "map junk [0..<nat (m_nLen s)]"]
      walk_node_overflow [OF at, of "Suc (tbrk s)" "map junk [0..<nat (m_nLen s)]" 0] stree_size [OF assms(1)] assms(3,4)
    by (auto simp: inorder_tree_walk_def Let_def simp del: walk_node.simps)
qed

theorem bst_walk_preorder_witness: "inorder_tree_walk (\<lambda>_. 0) tree_sample None 0 = Inr (Some [5, 3, 8, 6], 4)"
  using bst_walk_preorder [OF tree_sample_ok, of "\<lambda>_. 0" None 0] by (simp add: tree_sample_def INT_MAX_def)

text \<open>On a tree that is not empty \<open>minKey\<close> and \<open>maxKey\<close> end by reading the key of the absent child of
  the outermost node, a dereference of NULL; \<open>insertNode\<close> never gets past \<open>createNode\<close>, which returns no
  value.\<close>

lemma bst_min_max_fault:
  assumes "stree_ok s t" and "t \<noteq> Leaf"
  shows "minKey s = Inl NullDeref \<and> maxKey s = Inl NullDeref \<and> insertNode s key = Inl MissingReturn"
proof -
  have at: "tree_at (tnodes s) (m_pRoot s) NULL t" using assms(1) by (simp add: stree_ok_def)
  have sz: "size t < Suc (tbrk s)" using stree_size [OF assms(1)] by simp
  have root: "m_pRoot s \<noteq> NULL" using tree_root [OF at] assms(2) by simp
  show ?thesis
    using root descend_left_ok [OF at assms(2) sz] descend_right_ok [OF at assms(2) sz] tree_ends [OF at assms(2)]
    by (auto simp: minKey_def maxKey_def insertNode_def createNode_def get_t_def simp del: descend.simps)
qed

lemma bst_min_max_fault_witness: "minKey tree_sample = Inl NullDeref \<and> insertNode tree_sample 9 = Inl MissingReturn"
  using bst_min_max_fault [OF tree_sample_ok, of 9] by simp

end
