(* ===== verification/Stl_Alloc.thy ===== *)
theory Stl_Alloc
  imports C_Base "HOL-Library.Multiset"
begin

unbundle bit_operations_syntax

text \<open>
  The two-level allocator of the SGI library, \<^verbatim>\<open>stl_alloc.h\<close>, and the base class of \<^verbatim>\<open>vector\<close> that uses
  it.  Small blocks come from sixteen free lists, for 8, 16, ..., 128 bytes, which are filled from
  a pool \<open>[_S_start_free, _S_end_free)\<close>; larger blocks come from \<^verbatim>\<open>malloc\<close>.

  An address is a number, 0 the null pointer, and \<^verbatim>\<open>size_t\<close> a 64-bit word.  A cell of the memory is a
  byte of the client or one of the eight bytes of a link: a free block holds its link in its own
  bytes, so that a client that writes to a block destroys it.  \<^verbatim>\<open>malloc\<close> takes fresh addresses
  from \<open>sbrk\<close> or fails, as \<open>mem\<close> says.  The handler \<^verbatim>\<open>_S_oom_malloc\<close> is declared but not defined in the
  file and is the parameter \<open>oom\<close>.

  \<open>pool_at s bl\<close>: the free lists hold the blocks \<open>bl\<close>.  The theorems are about the bytes: each byte of
  the allocator's memory is in the pool, in one free block or with a client.
\<close>

section \<open>Data\<close>

type_synonym size_t = "64 word"

datatype cell = Data "8 word" | Link addr nat

record apool =
  S_free_list :: "addr list"
  S_start_free :: addr
  S_end_free :: addr
  S_heap_size :: size_t
  cells :: "addr \<Rightarrow> cell"
  sbrk :: addr
  a_ticks :: nat

type_synonym oom_handler = "size_t \<Rightarrow> apool \<Rightarrow> (addr \<times> apool) res"

definition ALIGN :: size_t where "ALIGN = 8"

definition MAX_BYTES :: size_t where "MAX_BYTES = 128"

definition NFREELISTS :: nat where "NFREELISTS = 16"

definition alloc_init :: apool where
  "alloc_init = \<lparr>S_free_list = replicate NFREELISTS 0, S_start_free = 0, S_end_free = 0, S_heap_size = 0,
     cells = (\<lambda>_. Data 0), sbrk = 16, a_ticks = 0\<rparr>"

definition sys_malloc :: "(nat \<Rightarrow> bool) \<Rightarrow> size_t \<Rightarrow> apool \<Rightarrow> addr \<times> apool" where
  "sys_malloc mem n s =
     (if mem (a_ticks s) then (sbrk s, s\<lparr>sbrk := sbrk s + unat n + 16, a_ticks := a_ticks s + 1\<rparr>)
      else (0, s\<lparr>a_ticks := a_ticks s + 1\<rparr>))"

definition write_link :: "addr \<Rightarrow> addr \<Rightarrow> apool \<Rightarrow> apool" where
  \<comment> \<open>\<^verbatim>\<open>p->_M_free_list_link = q\<close>\<close>
  "write_link p q s = s\<lparr>cells := (\<lambda>a. if p \<le> a \<and> a < p + 8 then Link q (a - p) else cells s a)\<rparr>"

definition read_link :: "addr \<Rightarrow> apool \<Rightarrow> addr res" where
  \<comment> \<open>bytes that are not those of one link have no value as a pointer\<close>
  "read_link p s = (case cells s p of
       Link q 0 \<Rightarrow> if map (\<lambda>k. cells s (p + k)) [0..<8] = map (Link q) [0..<8] then Inr q else Inl Uninitialised
     | _ \<Rightarrow> Inl Uninitialised)"

section \<open>Operations\<close>

definition S_round_up :: "size_t \<Rightarrow> size_t" where
  "S_round_up bytes = (bytes + ALIGN - 1) AND NOT (ALIGN - 1)"

definition S_freelist_index :: "size_t \<Rightarrow> size_t" where
  "S_freelist_index bytes = (bytes + ALIGN - 1) div ALIGN - 1"

definition malloc_allocate :: "(nat \<Rightarrow> bool) \<Rightarrow> oom_handler \<Rightarrow> size_t \<Rightarrow> apool \<Rightarrow> (addr \<times> apool) res" where
  "malloc_allocate mem oom n s = (let (p, s) = sys_malloc mem n s in if p = 0 then oom n s else Inr (p, s))"

definition malloc_deallocate :: "addr \<Rightarrow> size_t \<Rightarrow> apool \<Rightarrow> apool res" where
  \<comment> \<open>a block given back to the system is not used again\<close>
  "malloc_deallocate p n s = Inr s"

definition memcpy :: "addr \<Rightarrow> addr \<Rightarrow> nat \<Rightarrow> apool \<Rightarrow> apool" where
  "memcpy dst src n s = s\<lparr>cells := (\<lambda>a. if dst \<le> a \<and> a < dst + n then cells s (src + (a - dst)) else cells s a)\<rparr>"

definition sys_realloc :: "(nat \<Rightarrow> bool) \<Rightarrow> addr \<Rightarrow> size_t \<Rightarrow> size_t \<Rightarrow> apool \<Rightarrow> addr \<times> apool" where
  \<comment> \<open>a new block with the contents of the old one, or NULL\<close>
  "sys_realloc mem p old_sz new_sz s =
     (let (q, s) = sys_malloc mem new_sz s in (q, if q = 0 then s else memcpy q p (min (unat old_sz) (unat new_sz)) s))"

definition malloc_reallocate :: "(nat \<Rightarrow> bool) \<Rightarrow> (addr \<Rightarrow> oom_handler) \<Rightarrow> addr \<Rightarrow> size_t \<Rightarrow> size_t \<Rightarrow> apool \<Rightarrow> (addr \<times> apool) res" where
  "malloc_reallocate mem oom_realloc p old_sz new_sz s =
     (let (q, s) = sys_realloc mem p old_sz new_sz s in if q = 0 then oom_realloc p new_sz s else Inr (q, s))"

definition push_free :: "size_t \<Rightarrow> addr \<Rightarrow> apool \<Rightarrow> apool res" where
  \<comment> \<open>\<^verbatim>\<open>q->_M_free_list_link = *my_free_list; *my_free_list = q\<close>\<close>
  "push_free n q s =
     (let i = uint (S_freelist_index n) in
      bind_res (arr_get (S_free_list s) i) (\<lambda>head.
      let s = write_link q head s in
      bind_res (arr_set (S_free_list s) i q) (\<lambda>fl. Inr (s\<lparr>S_free_list := fl\<rparr>))))"

fun find_block :: "nat \<Rightarrow> size_t \<Rightarrow> apool \<Rightarrow> (addr \<times> size_t \<times> apool) option res" where
  \<comment> \<open>the loop over the free lists when \<^verbatim>\<open>malloc\<close> failed: the block taken and its size\<close>
  "find_block 0 i s = Inl Diverges"
| "find_block (Suc fuel) i s =
     (if i \<le> MAX_BYTES
      then bind_res (arr_get (S_free_list s) (uint (S_freelist_index i))) (\<lambda>p.
           if p \<noteq> 0
           then bind_res (read_link p s) (\<lambda>q.
                bind_res (arr_set (S_free_list s) (uint (S_freelist_index i)) q) (\<lambda>fl.
                Inr (Some (p, i, s\<lparr>S_free_list := fl\<rparr>))))
           else find_block fuel (i + ALIGN) s)
      else Inr None)"

definition bytes_left :: "apool \<Rightarrow> size_t" where
  "bytes_left s = word_of_int (int (S_end_free s) - int (S_start_free s))"

fun S_chunk_alloc :: "nat \<Rightarrow> (nat \<Rightarrow> bool) \<Rightarrow> oom_handler \<Rightarrow> size_t \<Rightarrow> int \<Rightarrow> apool \<Rightarrow> (addr \<times> int \<times> apool) res" where
  "S_chunk_alloc 0 mem oom sz nobjs s = Inl Diverges"
| "S_chunk_alloc (Suc fuel) mem oom sz nobjs s =
     (let total = sz * word_of_int nobjs; left = bytes_left s in
      if left \<ge> total
      then Inr (S_start_free s, nobjs, s\<lparr>S_start_free := S_start_free s + unat total\<rparr>)
      else if left \<ge> sz
      then let nobjs = to_int (uint (left div sz)); total = sz * word_of_int nobjs in
           Inr (S_start_free s, nobjs, s\<lparr>S_start_free := S_start_free s + unat total\<rparr>)
      else let bytes_to_get = 2 * total + S_round_up (drop_bit 4 (S_heap_size s)) in
           bind_res (if left > 0 then push_free left (S_start_free s) s else Inr s) (\<lambda>s.
           let (p, s) = sys_malloc mem bytes_to_get s; s = s\<lparr>S_start_free := p\<rparr> in
           if p = 0
           then bind_res (find_block 17 sz s) (\<lambda>r. case r of
                  Some (p, i, s) \<Rightarrow>
                    S_chunk_alloc fuel mem oom sz nobjs (s\<lparr>S_start_free := p, S_end_free := p + unat i\<rparr>)
                | None \<Rightarrow>
                    bind_res (malloc_allocate mem oom bytes_to_get (s\<lparr>S_end_free := 0\<rparr>)) (\<lambda>(p, s).
                    S_chunk_alloc fuel mem oom sz nobjs
                      (s\<lparr>S_start_free := p, S_heap_size := S_heap_size s + bytes_to_get, S_end_free := p + unat bytes_to_get\<rparr>)))
           else S_chunk_alloc fuel mem oom sz nobjs
                  (s\<lparr>S_heap_size := S_heap_size s + bytes_to_get, S_end_free := p + unat bytes_to_get\<rparr>)))"

declare S_chunk_alloc.simps [simp del]

definition S_refill :: "(nat \<Rightarrow> bool) \<Rightarrow> oom_handler \<Rightarrow> size_t \<Rightarrow> apool \<Rightarrow> (addr \<times> apool) res" where
  \<comment> \<open>with more than one block the function stores through a pointer it never set\<close>
  "S_refill mem oom n s =
     bind_res (S_chunk_alloc 3 mem oom n 20 s) (\<lambda>(chunk, nobjs, s).
     if nobjs = 1 then Inr (chunk, s) else Inl Uninitialised)"

definition default_allocate :: "(nat \<Rightarrow> bool) \<Rightarrow> oom_handler \<Rightarrow> size_t \<Rightarrow> apool \<Rightarrow> (addr \<times> apool) res" where
  "default_allocate mem oom n s =
     (if n > MAX_BYTES then malloc_allocate mem oom n s
      else let i = uint (S_freelist_index n) in
           bind_res (arr_get (S_free_list s) i) (\<lambda>result.
           if result = 0 then S_refill mem oom (S_round_up n) s
           else bind_res (read_link result s) (\<lambda>q.
                bind_res (arr_set (S_free_list s) i q) (\<lambda>fl. Inr (result, s\<lparr>S_free_list := fl\<rparr>)))))"

definition default_deallocate :: "addr \<Rightarrow> size_t \<Rightarrow> apool \<Rightarrow> apool res" where
  "default_deallocate p n s = (if n > MAX_BYTES then malloc_deallocate p n s else push_free n p s)"

definition default_reallocate :: "(nat \<Rightarrow> bool) \<Rightarrow> oom_handler \<Rightarrow> addr \<Rightarrow> size_t \<Rightarrow> size_t \<Rightarrow> apool \<Rightarrow> (addr \<times> apool) res" where
  "default_reallocate mem oom p old_sz new_sz s =
     (if old_sz > MAX_BYTES \<and> new_sz > MAX_BYTES
      then Inr (sys_realloc mem p old_sz new_sz s)
      else if S_round_up old_sz = S_round_up new_sz then Inr (p, s)
      else bind_res (default_allocate mem oom new_sz s) (\<lambda>(result, s).
           let copy_sz = (if new_sz > old_sz then old_sz else new_sz); s = memcpy result p (unat copy_sz) s in
           bind_res (default_deallocate p old_sz s) (\<lambda>s. Inr (result, s))))"

section \<open>The typed interface and the vector base\<close>

definition simple_allocate :: "(nat \<Rightarrow> bool) \<Rightarrow> oom_handler \<Rightarrow> size_t \<Rightarrow> size_t \<Rightarrow> apool \<Rightarrow> (addr \<times> apool) res" where
  \<comment> \<open>\<open>tp\<close> is the size of the element type\<close>
  "simple_allocate mem oom tp n s = (if n = 0 then Inr (0, s) else default_allocate mem oom (n * tp) s)"

definition simple_allocate_one :: "(nat \<Rightarrow> bool) \<Rightarrow> oom_handler \<Rightarrow> size_t \<Rightarrow> apool \<Rightarrow> (addr \<times> apool) res" where
  "simple_allocate_one mem oom tp s = default_allocate mem oom tp s"

definition simple_deallocate :: "size_t \<Rightarrow> addr \<Rightarrow> size_t \<Rightarrow> apool \<Rightarrow> apool res" where
  "simple_deallocate tp p n s = (if n \<noteq> 0 then default_deallocate p (n * tp) s else Inr s)"

definition simple_deallocate_one :: "size_t \<Rightarrow> addr \<Rightarrow> apool \<Rightarrow> apool res" where
  "simple_deallocate_one tp p s = default_deallocate p tp s"

record vec =
  M_start :: addr
  M_finish :: addr
  M_end_of_storage :: addr

definition Vector_base_empty :: vec where
  "Vector_base_empty = \<lparr>M_start = 0, M_finish = 0, M_end_of_storage = 0\<rparr>"

definition M_allocate :: "(nat \<Rightarrow> bool) \<Rightarrow> oom_handler \<Rightarrow> size_t \<Rightarrow> size_t \<Rightarrow> apool \<Rightarrow> (addr \<times> apool) res" where
  [simp]: "M_allocate mem oom tp n s = simple_allocate mem oom tp n s"

definition M_deallocate :: "size_t \<Rightarrow> addr \<Rightarrow> size_t \<Rightarrow> apool \<Rightarrow> apool res" where
  [simp]: "M_deallocate tp p n s = simple_deallocate tp p n s"

definition Vector_base :: "(nat \<Rightarrow> bool) \<Rightarrow> oom_handler \<Rightarrow> size_t \<Rightarrow> size_t \<Rightarrow> apool \<Rightarrow> (vec \<times> apool) res" where
  "Vector_base mem oom tp n s =
     bind_res (M_allocate mem oom tp n s) (\<lambda>(p, s).
     Inr (\<lparr>M_start = p, M_finish = p, M_end_of_storage = p + unat n * unat tp\<rparr>, s))"

definition destroy_Vector_base :: "size_t \<Rightarrow> vec \<Rightarrow> apool \<Rightarrow> apool res" where
  \<comment> \<open>the difference of element pointers counts elements\<close>
  "destroy_Vector_base tp v s =
     M_deallocate tp (M_start v) (word_of_int ((int (M_end_of_storage v) - int (M_start v)) div int (unat tp))) s"

section \<open>Sizes\<close>

lemma and_not_mask_3: "(x :: size_t) AND NOT (mask 3) = push_bit 3 (drop_bit 3 x)"
  by (auto intro!: bit_word_eqI simp: bit_and_iff bit_not_iff bit_mask_iff bit_push_bit_iff bit_drop_bit_eq)

lemma unat_round_up:
  assumes "unat n + 7 < 2 ^ 64"
  shows "unat (S_round_up n) = 8 * ((unat n + 7) div 8)"
proof -
  have "n + ALIGN - 1 = n + 7" "ALIGN - 1 = mask 3" by (simp_all add: ALIGN_def mask_eq_exp_minus_1)
  then have "S_round_up n = push_bit 3 (drop_bit 3 (n + 7))" by (simp only: S_round_up_def and_not_mask_3)
  also have "unat \<dots> = unat (drop_bit 3 (n + 7)) * 8 mod 2 ^ 64" by (simp add: push_bit_eq_mult unat_word_ariths)
  also have "unat (drop_bit 3 (n + 7)) = (unat n + 7) div 8"
    using assms by (simp add: unat_drop_bit_eq drop_bit_eq_div unat_word_ariths)
  finally show ?thesis using assms by simp
qed

lemma index_of_size:
  assumes "0 < unat n" and "unat n \<le> 128"
  shows "uint (S_freelist_index n) = int ((unat n + 7) div 8 - 1)"
proof -
  have "unat ((n + ALIGN - 1) div ALIGN) = (unat n + 7) div 8"
    using assms(2) by (simp add: ALIGN_def unat_div unat_word_ariths)
  moreover have "1 \<le> (unat n + 7) div 8" using assms(1) by simp
  ultimately have "unat (S_freelist_index n) = (unat n + 7) div 8 - 1"
    using assms(2) by (simp add: S_freelist_index_def unat_sub_if')
  then show ?thesis by (metis uint_nat)
qed

lemma index_of_class: "unat n = 8 * Suc i \<Longrightarrow> i < 16 \<Longrightarrow> uint (S_freelist_index n) = int i"
  using index_of_size [of n] by simp

lemma index_zero: "uint (S_freelist_index 0) = 2 ^ 64 - 1"
  unfolding S_freelist_index_def ALIGN_def by (simp add: uint_word_ariths)

section \<open>Free lists\<close>

fun chain :: "(addr \<Rightarrow> cell) \<Rightarrow> addr \<Rightarrow> addr list \<Rightarrow> bool" where
  "chain c p [] \<longleftrightarrow> p = 0"
| "chain c p (b # bs) \<longleftrightarrow> p = b \<and> b \<noteq> 0 \<and> (\<exists>q. (\<forall>k < 8. c (b + k) = Link q k) \<and> chain c q bs)"

lemma chain_cong:
  "(\<And>b k. b \<in> set bs \<Longrightarrow> k < 8 \<Longrightarrow> c' (b + k) = c (b + k)) \<Longrightarrow> chain c' p bs = chain c p bs"
proof (induction bs arbitrary: p)
  case (Cons b bs)
  have "chain c' q bs = chain c q bs" for q by (rule Cons.IH) (use Cons.prems in simp)
  then show ?case using Cons.prems by simp
qed simp

lemma read_link_ok: "\<forall>k < 8. cells s (p + k) = Link q k \<Longrightarrow> read_link p s = Inr q"
proof -
  assume a: "\<forall>k < 8. cells s (p + k) = Link q k"
  then have "cells s p = Link q 0" by (metis add.right_neutral zero_less_numeral)
  moreover have "map (\<lambda>k. cells s (p + k)) [0..<8] = map (Link q) [0..<8]" using a by simp
  ultimately show ?thesis by (simp add: read_link_def)
qed

definition pool_at :: "apool \<Rightarrow> addr list list \<Rightarrow> bool" where
  "pool_at s bl \<longleftrightarrow> length (S_free_list s) = 16 \<and> length bl = 16 \<and>
     (\<forall>i < 16. chain (cells s) (S_free_list s ! i) (bl ! i))"

definition block_bytes :: "nat \<Rightarrow> addr \<Rightarrow> addr multiset" where
  "block_bytes i b = mset [b..<b + 8 * Suc i]"

definition free_bytes :: "addr list list \<Rightarrow> addr multiset" where
  "free_bytes bl = (\<Sum>i < 16. \<Sum>b \<leftarrow> bl ! i. block_bytes i b)"

definition once :: "'a multiset \<Rightarrow> bool" where
  \<comment> \<open>no element occurs twice\<close>
  "once M \<longleftrightarrow> (\<forall>x. count M x \<le> 1)"

lemma once_disjoint: "once (A + B) \<Longrightarrow> x \<in># A \<Longrightarrow> x \<notin># B"
proof
  assume "once (A + B)" and "x \<in># A" and "x \<in># B"
  then have "count A x + count B x \<le> 1" "0 < count A x" "0 < count B x"
    by (simp_all add: once_def)
  then show False by simp
qed

lemma once_mono: "once M \<Longrightarrow> N \<subseteq># M \<Longrightarrow> once N"
  unfolding once_def by (meson le_trans mset_subset_eq_count)

lemma set_block_bytes [simp]: "x \<in># block_bytes i b \<longleftrightarrow> b \<le> x \<and> x < b + 8 * Suc i"
  by (auto simp: block_bytes_def)

lemma free_bytes_upd:
  assumes "i < 16" and "length bl = 16"
  shows "free_bytes (bl[i := bs]) + (\<Sum>b \<leftarrow> bl ! i. block_bytes i b) = free_bytes bl + (\<Sum>b \<leftarrow> bs. block_bytes i b)"
proof -
  have "free_bytes (bl[i := bs]) = (\<Sum>b \<leftarrow> bs. block_bytes i b) + (\<Sum>j \<in> {..<16} - {i}. \<Sum>b \<leftarrow> bl ! j. block_bytes j b)"
    using assms by (simp add: free_bytes_def sum.remove [of "{..<16}" i])
  moreover have "free_bytes bl = (\<Sum>b \<leftarrow> bl ! i. block_bytes i b) + (\<Sum>j \<in> {..<16} - {i}. \<Sum>b \<leftarrow> bl ! j. block_bytes j b)"
    using assms by (simp add: free_bytes_def sum.remove [of "{..<16}" i])
  ultimately show ?thesis by (simp add: ac_simps)
qed

lemma free_bytes_push: "i < 16 \<Longrightarrow> length bl = 16 \<Longrightarrow> free_bytes (bl[i := q # bl ! i]) = free_bytes bl + block_bytes i q"
  using free_bytes_upd [of i bl "q # bl ! i"] by (simp add: ac_simps)

lemma free_bytes_pop: "i < 16 \<Longrightarrow> length bl = 16 \<Longrightarrow> bl ! i = b # bs \<Longrightarrow> free_bytes bl = free_bytes (bl[i := bs]) + block_bytes i b"
  using free_bytes_upd [of i bl bs] by (simp add: ac_simps)

lemma in_free_bytes: "i < 16 \<Longrightarrow> b \<in> set (bl ! i) \<Longrightarrow> block_bytes i b \<subseteq># free_bytes bl"
proof -
  assume i: "i < 16" and b: "b \<in> set (bl ! i)"
  have "block_bytes i b \<subseteq># (\<Sum>b \<leftarrow> bl ! i. block_bytes i b)"
    using b by (induction "bl ! i") (auto simp: in_set_conv_decomp)
  also have "\<dots> \<subseteq># free_bytes bl" using i by (simp add: free_bytes_def sum.remove [of "{..<16}" i])
  finally show ?thesis .
qed

lemma push_ok:
  assumes at: "pool_at s bl" and n: "uint (S_freelist_index n) = int i" "i < 16" and q: "q \<noteq> 0" and once: "once (free_bytes bl + block_bytes i q)"
  shows "\<exists>fl c. push_free n q s = Inr (s\<lparr>cells := c, S_free_list := fl\<rparr>) \<and>
    pool_at (s\<lparr>cells := c, S_free_list := fl\<rparr>) (bl[i := q # bl ! i])"
proof -
  define c where "c = (\<lambda>a. if q \<le> a \<and> a < q + 8 then Link (S_free_list s ! i) (a - q) else cells s a)"
  have same: "c (b + k) = cells s (b + k)" if "j < 16" "b \<in> set (bl ! j)" "k < 8" for j b k
  proof -
    have "b + k \<in># block_bytes j b" using that(3) by simp
    then have "b + k \<in># free_bytes bl" using in_free_bytes [OF that(1,2)] by (rule mset_subset_eqD [rotated])
    then have "b + k \<notin># block_bytes i q" using once_disjoint [OF once] by blast
    then show ?thesis by (auto simp: c_def)
  qed
  have "chain c (S_free_list s ! j) (bl ! j)" if "j < 16" for j
    using at that same [OF that] chain_cong [of "bl ! j" c "cells s"] by (simp add: pool_at_def)
  then have "pool_at (s\<lparr>cells := c, S_free_list := (S_free_list s)[i := q]\<rparr>) (bl[i := q # bl ! i])"
    using at n(2) q by (auto simp: pool_at_def nth_list_update c_def)
  moreover have "push_free n q s = Inr (s\<lparr>cells := c, S_free_list := (S_free_list s)[i := q]\<rparr>)"
    using at n by (simp add: push_free_def pool_at_def write_link_def c_def Let_def)
  ultimately show ?thesis by blast
qed

lemma pop_ok:
  assumes "pool_at s bl" and "i < 16" and "bl ! i = b # bs"
  shows "\<exists>q. S_free_list s ! i = b \<and> b \<noteq> 0 \<and> read_link b s = Inr q \<and>
    pool_at (s\<lparr>S_free_list := (S_free_list s)[i := q]\<rparr>) (bl[i := bs])"
proof -
  obtain q where q: "S_free_list s ! i = b" "b \<noteq> 0" "\<forall>k < 8. cells s (b + k) = Link q k" "chain (cells s) q bs"
    using assms unfolding pool_at_def by (metis chain.simps(2))
  then have "pool_at (s\<lparr>S_free_list := (S_free_list s)[i := q]\<rparr>) (bl[i := bs])"
    using assms by (auto simp: pool_at_def nth_list_update)
  then show ?thesis using q read_link_ok by blast
qed

section \<open>The pool\<close>

definition owned :: "apool \<Rightarrow> addr list list \<Rightarrow> addr multiset" where
  \<comment> \<open>the bytes the allocator has to give\<close>
  "owned s bl = mset [S_start_free s..<S_end_free s] + free_bytes bl"

definition alloc_ok :: "apool \<Rightarrow> addr list list \<Rightarrow> bool" where
  "alloc_ok s bl \<longleftrightarrow> pool_at s bl \<and> S_start_free s \<le> S_end_free s \<and> 8 dvd S_end_free s - S_start_free s \<and>
     S_end_free s - S_start_free s < 2 ^ 64 \<and> once (owned s bl) \<and> (\<forall>x \<in># owned s bl. 0 < x \<and> x < sbrk s) \<and> 0 < sbrk s"

lemma bytes_split: "a \<le> b \<Longrightarrow> b \<le> c \<Longrightarrow> mset [a..<c] = mset [a..<b] + mset [b..<c]"
  by (metis mset_append upt_add_eq_append le_add_diff_inverse)

lemma unat_bytes_left:
  assumes "S_start_free s \<le> S_end_free s" and "S_end_free s - S_start_free s < 2 ^ 64"
  shows "unat (bytes_left s) = S_end_free s - S_start_free s"
proof -
  have "int (S_end_free s) - int (S_start_free s) = int (S_end_free s - S_start_free s)" using assms(1) by simp
  then have "bytes_left s = of_nat (S_end_free s - S_start_free s)" by (simp only: bytes_left_def of_int_of_nat_eq)
  then show ?thesis using assms(2) by (simp add: unat_of_nat)
qed

lemma unat_total:
  assumes "unat n = 8 * Suc j" and "j < 16" and "1 \<le> nobjs" and "nobjs \<le> 20"
  shows "unat (n * word_of_int nobjs :: size_t) = 8 * Suc j * nat nobjs"
proof -
  obtain k where k: "nobjs = int k" "k \<le> 20" using assms(3,4) by (metis nat_0_le nat_le_iff order_trans zero_le_one of_nat_numeral)
  have "unat (word_of_int nobjs :: size_t) = k" using k by (simp add: unat_of_nat)
  moreover have "8 * Suc j * k \<le> 8 * 16 * 20" using assms(2) k(2) by (intro mult_le_mono) auto
  then have "8 * Suc j * k < 2 ^ LENGTH(64)" by simp
  ultimately show ?thesis using assms(1) unat_mult_lem [of n "word_of_int nobjs"] k(1) by simp
qed

lemma from_pool:
  assumes ok: "alloc_ok s bl" and n: "unat n = 8 * Suc j" "j < 16" and nobjs: "1 \<le> nobjs" "nobjs \<le> 20"
    and room: "8 * Suc j \<le> S_end_free s - S_start_free s"
  defines "k \<equiv> min nobjs (int ((S_end_free s - S_start_free s) div (8 * Suc j)))"
  defines "s' \<equiv> s\<lparr>S_start_free := S_start_free s + 8 * Suc j * nat k\<rparr>"
  shows "S_chunk_alloc (Suc f) mem oom n nobjs s = Inr (S_start_free s, k, s') \<and> 1 \<le> k \<and> k \<le> nobjs \<and> alloc_ok s' bl \<and>
    owned s bl = mset [S_start_free s..<S_start_free s + 8 * Suc j * nat k] + owned s' bl"
proof -
  let ?w = "8 * Suc j" and ?left = "S_end_free s - S_start_free s"
  have left: "unat (bytes_left s) = ?left" using ok unat_bytes_left by (simp add: alloc_ok_def)
  have total: "unat (n * word_of_int nobjs) = ?w * nat nobjs" by (rule unat_total [OF n nobjs])
  have k1: "1 \<le> k" using nobjs(1) room by (simp add: k_def Suc_le_eq div_greater_zero_iff)
  have k2: "k \<le> nobjs" by (simp add: k_def)
  have "nat k \<le> ?left div ?w" by (simp add: k_def)
  then have fits: "?w * nat k \<le> ?left" by (metis div_times_less_eq_dividend le_trans mult.commute mult_le_mono2)
  have run: "S_chunk_alloc (Suc f) mem oom n nobjs s = Inr (S_start_free s, k, s')"
  proof (cases "?w * nat nobjs \<le> ?left")
    case True
    then have "nat nobjs \<le> ?left div ?w" by (simp add: less_eq_div_iff_mult_less_eq mult.commute)
    then have "k = nobjs" using nobjs(1) by (simp add: k_def)
    then show ?thesis using True total left by (simp add: S_chunk_alloc.simps s'_def word_le_nat_alt Let_def)
  next
    case False
    then have small: "?left div ?w < nat nobjs" by (simp add: div_less_iff_less_mult mult.commute)
    then have k: "k = int (?left div ?w)" by (simp add: k_def)
    have "uint (bytes_left s div n) = k" using left n(1) k by (simp add: uint_nat unat_div)
    moreover have "to_int k = k" using k1 k2 nobjs(2) by (intro to_int_id) auto
    moreover have "unat (n * word_of_int k) = ?w * nat k" by (rule unat_total [OF n k1]) (use k2 nobjs(2) in simp)
    ultimately show ?thesis
      using False total left room n(1) by (simp add: S_chunk_alloc.simps s'_def word_le_nat_alt Let_def)
  qed
  have le: "S_start_free s + ?w * nat k \<le> S_end_free s" using fits ok unfolding alloc_ok_def by linarith
  have own: "owned s bl = mset [S_start_free s..<S_start_free s + ?w * nat k] + owned s' bl"
    using bytes_split [OF _ le, of "S_start_free s"] by (simp add: owned_def s'_def)
  have "8 dvd ?left - ?w * nat k" 
  proof (rule dvd_diff_nat)
    show "8 dvd ?left" using ok by (simp add: alloc_ok_def)
    show "8 dvd ?w * nat k" by (simp only: mult.assoc dvd_triv_left)
  qed
  moreover have "once (owned s' bl)" "\<forall>x \<in># owned s' bl. 0 < x \<and> x < sbrk s"
    using ok own once_mono [of "owned s bl" "owned s' bl"] by (auto simp: alloc_ok_def)
  ultimately have "alloc_ok s' bl"
    using ok fits by (auto simp: alloc_ok_def s'_def pool_at_def)
  then show ?thesis using run k1 k2 own by blast
qed

lemma stash:
  \<comment> \<open>what is left of the pool becomes a free block\<close>
  assumes ok: "alloc_ok s bl" and small: "S_end_free s - S_start_free s < 8 * Suc j" and j: "j < 16"
  shows "\<exists>fl c bl1. (if bytes_left s > 0 then push_free (bytes_left s) (S_start_free s) s else Inr s) =
      Inr (s\<lparr>cells := c, S_free_list := fl\<rparr>) \<and> pool_at (s\<lparr>cells := c, S_free_list := fl\<rparr>) bl1 \<and>
    free_bytes bl1 = owned s bl \<and> (\<forall>i. j \<le> i \<longrightarrow> i < 16 \<longrightarrow> bl1 ! i = bl ! i)"
proof -
  let ?left = "S_end_free s - S_start_free s"
  have left: "unat (bytes_left s) = ?left" using ok unat_bytes_left by (simp add: alloc_ok_def)
  have at: "pool_at s bl" using ok by (simp add: alloc_ok_def)
  show ?thesis
  proof (cases "?left = 0")
    case True
    then have "\<not> bytes_left s > 0" "owned s bl = free_bytes bl"
      using left ok by (simp_all add: word_less_nat_alt owned_def alloc_ok_def)
    then show ?thesis using at by (intro exI [of _ "S_free_list s"] exI [of _ "cells s"] exI [of _ bl]) simp
  next
    case False
    moreover have "8 dvd ?left" using ok by (simp add: alloc_ok_def)
    ultimately obtain i where i: "?left = 8 * Suc i" by (metis dvd_def mult_0_right not0_implies_Suc)
    have ij: "i < j" using small i by simp
    have "S_end_free s = S_start_free s + 8 * Suc i" using i False by simp
    then have "block_bytes i (S_start_free s) = mset [S_start_free s..<S_end_free s]" by (simp only: block_bytes_def)
    then have own: "free_bytes bl + block_bytes i (S_start_free s) = owned s bl" by (simp add: owned_def)
    have "S_start_free s \<in># owned s bl" using False by (simp add: owned_def)
    then have "S_start_free s \<noteq> 0" "once (owned s bl)" using ok by (auto simp: alloc_ok_def)
    then obtain fl c where p: "push_free (bytes_left s) (S_start_free s) s = Inr (s\<lparr>cells := c, S_free_list := fl\<rparr>)"
        "pool_at (s\<lparr>cells := c, S_free_list := fl\<rparr>) (bl[i := S_start_free s # bl ! i])"
      using push_ok [OF at index_of_class, of "bytes_left s" i "S_start_free s"] left i ij j own by auto
    have "bytes_left s > 0" using left False by (simp add: word_less_nat_alt)
    moreover have "free_bytes (bl[i := S_start_free s # bl ! i]) = owned s bl"
      using free_bytes_push [of i bl "S_start_free s"] at ij j own by (simp add: pool_at_def)
    ultimately show ?thesis using p ij
      by (intro exI [of _ fl] exI [of _ c] exI [of _ "bl[i := S_start_free s # bl ! i]"]) simp
  qed
qed

lemma unat_bound: "unat (w :: size_t) < 2 ^ 64"
  by (rule order.strict_trans2 [OF unsigned_less]) simp

lemma unat_to_get:
  assumes "unat n = 8 * Suc j" and "j < 16" and "1 \<le> nobjs" and "nobjs \<le> 20"
  shows "unat (2 * (n * word_of_int nobjs) + S_round_up (drop_bit 4 hs) :: size_t) =
    2 * (8 * Suc j * nat nobjs) + 8 * ((unat hs div 16 + 7) div 8)"
proof -
  define t where "t = 8 * Suc j * nat nobjs"
  define w where "w = n * word_of_int nobjs"
  have t: "unat w = t" unfolding t_def w_def by (rule unat_total [OF assms])
  have "t \<le> 8 * 16 * 20" unfolding t_def using assms(2,4) by (intro mult_le_mono) auto
  then have t2: "unat (2 * w) = 2 * t" "2 * t \<le> 5120"
    using t unat_mult_lem [of 2 w] by simp_all
  have h: "unat (drop_bit 4 hs) = unat hs div 16" by (simp only: unat_drop_bit_eq) (simp add: drop_bit_eq_div)
  have "unat hs < 2 ^ 64" by (rule unat_bound)
  then have hb: "unat hs div 16 < 2 ^ 60" by (simp add: div_less_iff_less_mult)
  then have r: "unat (S_round_up (drop_bit 4 hs)) = 8 * ((unat hs div 16 + 7) div 8)"
    using unat_round_up [of "drop_bit 4 hs"] h by simp
  have "8 * ((unat hs div 16 + 7) div 8) \<le> unat hs div 16 + 7" by simp
  moreover have "unat hs div 16 < 1152921504606846976" using hb by simp
  ultimately have "2 * t + 8 * ((unat hs div 16 + 7) div 8) < 18446744073709551616" using t2(2) by linarith
  then have "unat (2 * w + S_round_up (drop_bit 4 hs)) = 2 * t + 8 * ((unat hs div 16 + 7) div 8)"
    using t2(1) r by (simp add: unat_plus_if')
  then show ?thesis by (simp only: t_def w_def)
qed

lemma find_block_ok:
  assumes "pool_at s bl" and "unat n = 8 * Suc j" and "j \<le> 16" and "16 < fuel + j"
  shows "(\<exists>i b bs w q. j \<le> i \<and> i < 16 \<and> bl ! i = b # bs \<and> unat w = 8 * Suc i \<and>
      find_block fuel n s = Inr (Some (b, w, s\<lparr>S_free_list := (S_free_list s)[i := q]\<rparr>)) \<and>
      pool_at (s\<lparr>S_free_list := (S_free_list s)[i := q]\<rparr>) (bl[i := bs])) \<or>
    (\<forall>i. j \<le> i \<longrightarrow> i < 16 \<longrightarrow> bl ! i = []) \<and> find_block fuel n s = Inr None"
  using assms(2-)
proof (induction fuel arbitrary: n j)
  case (Suc fuel)
  show ?case
  proof (cases "j = 16")
    case True
    then show ?thesis using Suc.prems(1) by (simp add: MAX_BYTES_def word_le_nat_alt)
  next
    case False
    then have j: "j < 16" using Suc.prems(2) by simp
    have in_range: "n \<le> MAX_BYTES" using Suc.prems(1) j by (simp add: MAX_BYTES_def word_le_nat_alt)
    have len: "length (S_free_list s) = 16" using assms(1) by (simp add: pool_at_def)
    have idx: "uint (S_freelist_index n) = int j" by (rule index_of_class [OF Suc.prems(1) j])
    have chain: "chain (cells s) (S_free_list s ! j) (bl ! j)" using assms(1) j by (simp add: pool_at_def)
    show ?thesis
    proof (cases "bl ! j")
      case Nil
      then have "find_block (Suc fuel) n s = find_block fuel (n + ALIGN) s"
        using chain in_range idx len j by simp
      moreover have "unat (n + ALIGN) = 8 * Suc (Suc j)" using Suc.prems(1) j by (simp add: ALIGN_def unat_word_ariths)
      ultimately show ?thesis
        using Suc.IH [of "n + ALIGN" "Suc j"] j Suc.prems(3) Nil by (metis Suc_leD Suc_leI add_Suc_shift le_neq_implies_less)
    next
      case (Cons b bs)
      then obtain q where q: "S_free_list s ! j = b" "b \<noteq> 0" "read_link b s = Inr q"
          "pool_at (s\<lparr>S_free_list := (S_free_list s)[j := q]\<rparr>) (bl[j := bs])"
        using pop_ok [OF assms(1) j] by blast
      then have "find_block (Suc fuel) n s = Inr (Some (b, n, s\<lparr>S_free_list := (S_free_list s)[j := q]\<rparr>))"
        using in_range idx len j by simp
      then show ?thesis using q(4) Cons j Suc.prems(1) by blast
    qed
  qed
qed simp

lemma once_fresh:
  assumes "once M" and "\<forall>x \<in># M. x < (p :: nat)"
  shows "once (mset [p..<q] + M)"
proof -
  have "count (mset [p..<q]) x + count M x \<le> 1" for x
  proof (cases "x \<in># M")
    case True
    then have "x \<notin># mset [p..<q]" using assms(2) by auto
    then show ?thesis using assms(1) by (simp add: once_def not_in_iff)
  next
    case False
    have "count (mset [p..<q]) x \<le> 1" using distinct_upt [of p q] by (simp only: distinct_count_atmost_1) simp
    then show ?thesis using False by (simp add: not_in_iff)
  qed
  then show ?thesis by (simp add: once_def)
qed

lemma grow_ok:
  \<comment> \<open>a pool of fresh memory\<close>
  fixes hs g :: size_t
  assumes ok: "alloc_ok s bl" and at: "pool_at (s\<lparr>cells := c, S_free_list := fl\<rparr>) bl1" and own: "free_bytes bl1 = owned s bl"
    and get: "unat g = 8 * k"
  defines "s1 \<equiv> s\<lparr>cells := c, S_free_list := fl, sbrk := sbrk s + unat g + 16, a_ticks := a_ticks s + 1,
    S_start_free := sbrk s, S_heap_size := hs, S_end_free := sbrk s + unat g\<rparr>"
  shows "alloc_ok s1 bl1 \<and> owned s1 bl1 = owned s bl + mset [sbrk s..<sbrk s + unat g]"
proof -
  have o1: "owned s1 bl1 = mset [sbrk s..<sbrk s + unat g] + owned s bl" by (simp add: owned_def s1_def own)
  have "once (owned s1 bl1)" unfolding o1 by (rule once_fresh) (use ok in \<open>auto simp: alloc_ok_def\<close>)
  moreover have "\<forall>x \<in># owned s1 bl1. 0 < x \<and> x < sbrk s1"
    using ok unfolding o1 by (auto simp: alloc_ok_def s1_def)
  moreover have "pool_at s1 bl1" using at by (simp add: pool_at_def s1_def)
  moreover have "S_end_free s1 - S_start_free s1 < 2 ^ 64" "8 dvd S_end_free s1 - S_start_free s1"
      "S_start_free s1 \<le> S_end_free s1" "0 < sbrk s1"
    using unat_bound [of g] get by (simp_all add: s1_def)
  ultimately have "alloc_ok s1 bl1" unfolding alloc_ok_def by blast
  then show ?thesis using o1 by (simp only: add.commute)
qed

lemma reuse_ok:
  \<comment> \<open>a free block becomes the pool\<close>
  assumes ok: "alloc_ok s bl" and at: "pool_at (s\<lparr>cells := c, S_free_list := fl\<rparr>) bl1" and own: "free_bytes bl1 = owned s bl"
    and i: "i < 16" "bl1 ! i = b # bs"
    and at': "pool_at (s\<lparr>cells := c, S_free_list := fl'\<rparr>) (bl1[i := bs])"
  defines "s1 \<equiv> s\<lparr>cells := c, a_ticks := a_ticks s + 1, S_free_list := fl', S_start_free := b, S_end_free := b + 8 * Suc i\<rparr>"
  shows "alloc_ok s1 (bl1[i := bs]) \<and> owned s1 (bl1[i := bs]) = owned s bl"
proof -
  have "free_bytes bl1 = free_bytes (bl1[i := bs]) + block_bytes i b"
    by (rule free_bytes_pop [OF i(1) _ i(2)]) (use at in \<open>simp add: pool_at_def\<close>)
  moreover have "owned s1 (bl1[i := bs]) = block_bytes i b + free_bytes (bl1[i := bs])"
    by (simp add: owned_def s1_def block_bytes_def)
  ultimately have o1: "owned s1 (bl1[i := bs]) = owned s bl" using own by (simp add: ac_simps)
  have "alloc_ok s1 (bl1[i := bs])"
    using ok at' i(1) unfolding alloc_ok_def o1 by (simp add: pool_at_def s1_def)
  then show ?thesis using o1 by simp
qed

definition chunk_given :: "(addr \<times> int \<times> apool) res \<Rightarrow> nat \<Rightarrow> int \<Rightarrow> apool \<Rightarrow> addr list list \<Rightarrow> bool" where
  \<comment> \<open>a chunk of 1 to \<open>nobjs\<close> blocks, taken from the allocator's bytes and new ones of the system\<close>
  "chunk_given r w nobjs s bl \<longleftrightarrow> (\<exists>p k s' bl' new. r = Inr (p, k, s') \<and> 1 \<le> k \<and> k \<le> nobjs \<and> alloc_ok s' bl' \<and>
     mset [p..<p + w * nat k] + owned s' bl' = owned s bl + mset new \<and> (\<forall>x \<in> set new. sbrk s \<le> x) \<and>
     once (mset [p..<p + w * nat k] + owned s' bl') \<and> sbrk s \<le> sbrk s')"

lemma from_pool_given:
  assumes "alloc_ok s1 bl1" and "unat n = 8 * Suc j" and "j < 16" and "1 \<le> nobjs" and "nobjs \<le> 20"
    and "8 * Suc j \<le> S_end_free s1 - S_start_free s1"
    and "owned s1 bl1 = owned s bl + mset new" and "\<forall>x \<in> set new. sbrk s \<le> x" and "sbrk s \<le> sbrk s1"
  shows "chunk_given (S_chunk_alloc (Suc f) mem oom n nobjs s1) (8 * Suc j) nobjs s bl"
proof -
  define k where "k = min nobjs (int ((S_end_free s1 - S_start_free s1) div (8 * Suc j)))"
  define s' where "s' = s1\<lparr>S_start_free := S_start_free s1 + 8 * Suc j * nat k\<rparr>"
  have p: "S_chunk_alloc (Suc f) mem oom n nobjs s1 = Inr (S_start_free s1, k, s')" "1 \<le> k" "k \<le> nobjs" "alloc_ok s' bl1"
      "owned s1 bl1 = mset [S_start_free s1..<S_start_free s1 + 8 * Suc j * nat k] + owned s' bl1"
    using from_pool [OF assms(1-6), of f mem oom] unfolding k_def s'_def by blast+
  have "once (owned s1 bl1)" using assms(1) by (simp add: alloc_ok_def)
  then have "once (mset [S_start_free s1..<S_start_free s1 + 8 * Suc j * nat k] + owned s' bl1)" using p(5) by simp
  moreover have "sbrk s \<le> sbrk s'" using assms(9) by (simp add: s'_def)
  ultimately show ?thesis unfolding chunk_given_def
    using p assms(7,8) by (intro exI [of _ "S_start_free s1"] exI [of _ k] exI [of _ s'] exI [of _ bl1] exI [of _ new]) simp
qed

definition asks_more :: "(apool \<Rightarrow> 'a res) \<Rightarrow> (nat \<Rightarrow> bool) \<Rightarrow> oom_handler \<Rightarrow> size_t \<Rightarrow> size_t \<Rightarrow> apool \<Rightarrow> 'a res" where
  \<comment> \<open>the last branch: new memory, else a block of a free list, else the first-level allocator; then again\<close>
  "asks_more again mem oom n g s =
     (if mem (a_ticks s)
      then again (s\<lparr>sbrk := sbrk s + unat g + 16, a_ticks := a_ticks s + 1,
        S_start_free := sbrk s, S_heap_size := S_heap_size s + g, S_end_free := sbrk s + unat g\<rparr>)
      else bind_res (find_block 17 n (s\<lparr>a_ticks := Suc (a_ticks s), S_start_free := 0\<rparr>)) (\<lambda>r. case r of
          Some (p, i, s) \<Rightarrow> again (s\<lparr>S_start_free := p, S_end_free := p + unat i\<rparr>)
        | None \<Rightarrow> bind_res (malloc_allocate mem oom g (s\<lparr>a_ticks := Suc (a_ticks s), S_start_free := 0, S_end_free := 0\<rparr>)) (\<lambda>(p, s).
            again (s\<lparr>S_start_free := p, S_heap_size := S_heap_size s + g, S_end_free := p + unat g\<rparr>))))"

lemma chunk_short:
  \<comment> \<open>the pool does not hold one block: its rest goes to a free list, and more memory is asked for\<close>
  assumes ok: "alloc_ok s bl" and n: "unat n = 8 * Suc j" "j < 16" and nobjs: "1 \<le> nobjs" "nobjs \<le> 20"
    and short: "S_end_free s - S_start_free s < 8 * Suc j"
    and g: "g = 2 * (n * word_of_int nobjs) + S_round_up (drop_bit 4 (S_heap_size s))"
  obtains fl c bl1 where "pool_at (s\<lparr>cells := c, S_free_list := fl\<rparr>) bl1" and "free_bytes bl1 = owned s bl"
    and "\<forall>i. j \<le> i \<longrightarrow> i < 16 \<longrightarrow> bl1 ! i = bl ! i"
    and "\<And>f mem oom. S_chunk_alloc (Suc f) mem oom n nobjs s =
      asks_more (S_chunk_alloc f mem oom n nobjs) mem oom n g (s\<lparr>cells := c, S_free_list := fl\<rparr>)"
proof -
  have left: "unat (bytes_left s) = S_end_free s - S_start_free s" using ok unat_bytes_left by (simp add: alloc_ok_def)
  have "8 * Suc j \<le> 8 * Suc j * nat nobjs" using nobjs(1) by simp
  then have "\<not> 8 * Suc j * nat nobjs \<le> S_end_free s - S_start_free s" using short by linarith
  then have cond: "\<not> n * word_of_int nobjs \<le> bytes_left s" "\<not> n \<le> bytes_left s"
    unfolding word_le_nat_alt left unat_total [OF n nobjs] n(1) using short by simp_all
  obtain fl c bl1 where st: "(if bytes_left s > 0 then push_free (bytes_left s) (S_start_free s) s else Inr s) =
      Inr (s\<lparr>cells := c, S_free_list := fl\<rparr>)" "pool_at (s\<lparr>cells := c, S_free_list := fl\<rparr>) bl1"
      "free_bytes bl1 = owned s bl" "\<forall>i. j \<le> i \<longrightarrow> i < 16 \<longrightarrow> bl1 ! i = bl ! i"
    using stash [OF ok short n(2)] by metis
  have "0 < sbrk s" using ok by (simp add: alloc_ok_def)
  then show thesis
    using cond st(1) by (intro that [OF st(2-4)]) (simp add: S_chunk_alloc.simps Let_def g [symmetric] sys_malloc_def asks_more_def cong: option.case_cong)
qed

lemma chunk_grown:
  \<comment> \<open>the new memory holds at least one block\<close>
  assumes ok: "alloc_ok s bl" and n: "unat n = 8 * Suc j" "j < 16" and nobjs: "1 \<le> nobjs" "nobjs \<le> 20"
    and st: "pool_at (s\<lparr>cells := c, S_free_list := fl\<rparr>) bl1" "free_bytes bl1 = owned s bl"
    and g: "g = 2 * (n * word_of_int nobjs) + S_round_up (drop_bit 4 (S_heap_size s))"
  shows "chunk_given (S_chunk_alloc (Suc f) mem oom n nobjs (s\<lparr>cells := c, S_free_list := fl, sbrk := sbrk s + unat g + 16,
      a_ticks := a_ticks s + 1, S_start_free := sbrk s, S_heap_size := S_heap_size s + g, S_end_free := sbrk s + unat g\<rparr>))
    (8 * Suc j) nobjs s bl"
proof -
  have u: "unat g = 2 * (8 * Suc j * nat nobjs) + 8 * ((unat (S_heap_size s) div 16 + 7) div 8)"
    unfolding g by (rule unat_to_get [OF n nobjs])
  then have g8: "unat g = 8 * (2 * (Suc j * nat nobjs) + (unat (S_heap_size s) div 16 + 7) div 8)" by (simp add: algebra_simps)
  have "8 * Suc j \<le> 8 * Suc j * nat nobjs" using nobjs(1) by simp
  then have "8 * Suc j \<le> unat g" using u by linarith
  then show ?thesis
    using from_pool_given [OF conjunct1 [OF grow_ok [OF ok st g8]] n nobjs _ conjunct2 [OF grow_ok [OF ok st g8]]] by simp
qed

lemma chunk_reused:
  \<comment> \<open>without new memory a block of a free list of the same or a larger class becomes the pool, if there is one\<close>
  assumes ok: "alloc_ok s bl" and n: "unat n = 8 * Suc j" "j < 16" and nobjs: "1 \<le> nobjs" "nobjs \<le> 20"
    and st: "pool_at (s\<lparr>cells := c, S_free_list := fl\<rparr>) bl1" "free_bytes bl1 = owned s bl" and no: "\<not> mem (a_ticks s)"
    and some: "j \<le> k" "k < 16" "bl1 ! k \<noteq> []"
  shows "chunk_given (asks_more (S_chunk_alloc (Suc f) mem oom n nobjs) mem oom n g (s\<lparr>cells := c, S_free_list := fl\<rparr>))
    (8 * Suc j) nobjs s bl"
proof -
  let ?s2 = "s\<lparr>cells := c, S_free_list := fl, a_ticks := Suc (a_ticks s), S_start_free := 0\<rparr>"
  have at2: "pool_at ?s2 bl1" using st(1) by (simp add: pool_at_def)
  obtain i b bs w q where found: "j \<le> i" "i < 16" "bl1 ! i = b # bs" "unat w = 8 * Suc i"
      "find_block 17 n ?s2 = Inr (Some (b, w, ?s2\<lparr>S_free_list := (S_free_list ?s2)[i := q]\<rparr>))"
      "pool_at (?s2\<lparr>S_free_list := (S_free_list ?s2)[i := q]\<rparr>) (bl1[i := bs])"
    using find_block_ok [OF at2 n(1), of 17] n(2) some by auto
  have at3: "pool_at (s\<lparr>cells := c, S_free_list := fl[i := q]\<rparr>) (bl1[i := bs])" using found(6) by (simp add: pool_at_def)
  note re = reuse_ok [OF ok st found(2,3) at3]
  show ?thesis
    using from_pool_given [OF conjunct1 [OF re] n nobjs, of s bl "[]" f mem oom] conjunct2 [OF re] no found(1,4,5)
    by (simp add: asks_more_def)
qed

lemma chunk_alloc_ok:
  assumes ok: "alloc_ok s bl" and n: "unat n = 8 * Suc j" "j < 16" and nobjs: "1 \<le> nobjs" "nobjs \<le> 20"
  shows "chunk_given (S_chunk_alloc (Suc (Suc f)) mem oom n nobjs s) (8 * Suc j) nobjs s bl \<or>
    \<not> mem (a_ticks s) \<and> S_end_free s - S_start_free s < 8 * Suc j \<and> (\<forall>i. j \<le> i \<longrightarrow> i < 16 \<longrightarrow> bl ! i = [])"
proof (cases "8 * Suc j \<le> S_end_free s - S_start_free s")
  case True
  then show ?thesis using from_pool_given [OF ok n nobjs True, of s bl "[]"] by simp
next
  case False
  then have short: "S_end_free s - S_start_free s < 8 * Suc j" by simp
  let ?g = "2 * (n * word_of_int nobjs) + S_round_up (drop_bit 4 (S_heap_size s))"
  obtain fl c bl1 where st: "pool_at (s\<lparr>cells := c, S_free_list := fl\<rparr>) bl1" "free_bytes bl1 = owned s bl"
      "\<forall>i. j \<le> i \<longrightarrow> i < 16 \<longrightarrow> bl1 ! i = bl ! i"
    and run: "\<And>f mem oom. S_chunk_alloc (Suc f) mem oom n nobjs s =
      asks_more (S_chunk_alloc f mem oom n nobjs) mem oom n ?g (s\<lparr>cells := c, S_free_list := fl\<rparr>)"
    by (rule chunk_short [OF ok n nobjs short refl], rule that)
  show ?thesis
  proof (cases "mem (a_ticks s)")
    case True
    then show ?thesis
      using chunk_grown [OF ok n nobjs st(1,2) refl] run [of "Suc f" mem oom] by (simp add: asks_more_def)
  next
    case False
    then show ?thesis
      using chunk_reused [where mem = mem, OF ok n nobjs st(1,2) False] st(3) short unfolding run [of "Suc f" mem oom] by metis
  qed
qed

section \<open>Blocks\<close>

lemma class_of_size: "0 < unat n \<Longrightarrow> unat n \<le> 128 \<Longrightarrow> (unat n + 7) div 8 - 1 < 16"
  by (simp add: div_le_mono)

lemma deallocate_ok:
  assumes ok: "alloc_ok s bl" and n: "0 < unat n" "unat n \<le> 128" and i: "i = (unat n + 7) div 8 - 1"
    and p: "0 < p" "p + 8 * Suc i \<le> sbrk s" and once: "once (owned s bl + block_bytes i p)"
  shows "\<exists>s1. default_deallocate p n s = Inr s1 \<and> alloc_ok s1 (bl[i := p # bl ! i]) \<and>
    owned s1 (bl[i := p # bl ! i]) = owned s bl + block_bytes i p \<and> sbrk s1 = sbrk s"
proof -
  have at: "pool_at s bl" using ok by (simp add: alloc_ok_def)
  have i16: "i < 16" using class_of_size [OF n] i by simp
  have "once (free_bytes bl + block_bytes i p)" using once by (rule once_mono) (simp add: owned_def)
  then obtain fl c where s1: "push_free n p s = Inr (s\<lparr>cells := c, S_free_list := fl\<rparr>)"
      "pool_at (s\<lparr>cells := c, S_free_list := fl\<rparr>) (bl[i := p # bl ! i])"
    using push_ok [OF at _ i16, of n p] index_of_size [OF n] i p(1) by auto
  let ?s1 = "s\<lparr>cells := c, S_free_list := fl\<rparr>" and ?bl = "bl[i := p # bl ! i]"
  have own: "owned ?s1 ?bl = owned s bl + block_bytes i p"
    using free_bytes_push [OF i16, of bl p] at by (simp add: owned_def pool_at_def)
  have all: "\<forall>x \<in># owned s bl + block_bytes i p. 0 < x \<and> x < sbrk s"
  proof
    fix x assume "x \<in># owned s bl + block_bytes i p"
    then consider "x \<in># owned s bl" | "p \<le> x" "x < p + 8 * Suc i" by auto
    then show "0 < x \<and> x < sbrk s" using ok p by cases (auto simp: alloc_ok_def)
  qed
  have f: "S_start_free ?s1 = S_start_free s" "S_end_free ?s1 = S_end_free s" "sbrk ?s1 = sbrk s" by simp_all
  have "alloc_ok ?s1 ?bl" unfolding alloc_ok_def own f using ok s1(2) once all unfolding alloc_ok_def by blast
  moreover have "\<not> n > MAX_BYTES" using n(2) by (simp add: MAX_BYTES_def word_less_nat_alt)
  ultimately show ?thesis using s1(1) own by (simp add: default_deallocate_def)
qed

lemma allocate_ok:
  assumes ok: "alloc_ok s bl" and n: "0 < unat n" "unat n \<le> 128" and i: "i = (unat n + 7) div 8 - 1" and b: "bl ! i = b # bs"
  shows "\<exists>s1. default_allocate mem oom n s = Inr (b, s1) \<and> alloc_ok s1 (bl[i := bs]) \<and>
    owned s bl = owned s1 (bl[i := bs]) + block_bytes i b"
proof -
  have at: "pool_at s bl" using ok by (simp add: alloc_ok_def)
  have i16: "i < 16" using class_of_size [OF n] i by simp
  obtain q where q: "S_free_list s ! i = b" "b \<noteq> 0" "read_link b s = Inr q"
      "pool_at (s\<lparr>S_free_list := (S_free_list s)[i := q]\<rparr>) (bl[i := bs])"
    using pop_ok [OF at i16 b] by blast
  let ?s1 = "s\<lparr>S_free_list := (S_free_list s)[i := q]\<rparr>"
  have own: "owned s bl = owned ?s1 (bl[i := bs]) + block_bytes i b"
    using free_bytes_pop [OF i16 _ b] at by (simp add: owned_def pool_at_def)
  then have "once (owned ?s1 (bl[i := bs]))" "\<forall>x \<in># owned ?s1 (bl[i := bs]). 0 < x \<and> x < sbrk s"
    using ok once_mono [of "owned s bl" "owned ?s1 (bl[i := bs])"] by (auto simp: alloc_ok_def)
  then have "alloc_ok ?s1 (bl[i := bs])" using ok q(4) by (simp add: alloc_ok_def)
  moreover have "default_allocate mem oom n s = Inr (b, ?s1)"
    using q at i16 index_of_size [OF n] i n(2)
    by (simp add: default_allocate_def MAX_BYTES_def word_less_nat_alt pool_at_def Let_def)
  ultimately show ?thesis using own by blast
qed

lemma first_chunk:
  \<comment> \<open>an empty pool gets new memory for all the blocks asked for\<close>
  assumes ok: "alloc_ok s bl" and n: "unat n = 8 * Suc j" "j < 16" and nobjs: "1 \<le> nobjs" "nobjs \<le> 20"
    and empty: "S_start_free s = S_end_free s" and mem: "mem (a_ticks s)"
  shows "\<exists>p s'. S_chunk_alloc (Suc (Suc f)) mem oom n nobjs s = Inr (p, nobjs, s')"
proof -
  define g where "g = 2 * (n * word_of_int nobjs) + S_round_up (drop_bit 4 (S_heap_size s))"
  let ?w = "8 * Suc j"
  have g: "unat g = 2 * (?w * nat nobjs) + 8 * ((unat (S_heap_size s) div 16 + 7) div 8)"
    unfolding g_def by (rule unat_to_get [OF n nobjs])
  have g8: "unat g = 8 * (2 * (Suc j * nat nobjs) + (unat (S_heap_size s) div 16 + 7) div 8)" using g by (simp add: algebra_simps)
  have left: "unat (bytes_left s) = 0" using unat_bytes_left [of s] empty by simp
  have total: "unat (n * word_of_int nobjs) = ?w * nat nobjs" by (rule unat_total [OF n nobjs])
  have cond: "\<not> n * word_of_int nobjs \<le> bytes_left s" "\<not> n \<le> bytes_left s" "\<not> bytes_left s > 0"
    unfolding word_le_nat_alt word_less_nat_alt left total n(1) using nobjs(1) by simp_all
  define s1 where "s1 = s\<lparr>cells := cells s, S_free_list := S_free_list s, sbrk := sbrk s + unat g + 16, a_ticks := a_ticks s + 1,
      S_start_free := sbrk s, S_heap_size := S_heap_size s + g, S_end_free := sbrk s + unat g\<rparr>"
  have at: "pool_at (s\<lparr>cells := cells s, S_free_list := S_free_list s\<rparr>) bl" using ok by (simp add: alloc_ok_def)
  have own: "free_bytes bl = owned s bl" using empty by (simp add: owned_def)
  have ok1: "alloc_ok s1 bl" unfolding s1_def using grow_ok [OF ok at own g8] by blast
  have "0 < sbrk s" using ok by (simp add: alloc_ok_def)
  then have "S_chunk_alloc (Suc (Suc f)) mem oom n nobjs s = S_chunk_alloc (Suc f) mem oom n nobjs s1"
    using cond mem unfolding S_chunk_alloc.simps(2) [of "Suc f"] by (simp add: Let_def g_def [symmetric] sys_malloc_def s1_def)
  moreover have big: "?w * nat nobjs \<le> unat g" "?w \<le> ?w * nat nobjs" using g nobjs(1) by simp_all
  then have "nat nobjs \<le> unat g div ?w" by (simp add: less_eq_div_iff_mult_less_eq mult.commute)
  then have "min nobjs (int ((S_end_free s1 - S_start_free s1) div ?w)) = nobjs" using nobjs(1) by (simp add: s1_def)
  moreover have "?w \<le> S_end_free s1 - S_start_free s1" using le_trans [OF big(2,1)] by (simp add: s1_def)
  ultimately show ?thesis using from_pool [OF ok1 n nobjs, of f mem oom] by auto
qed

lemma alloc_init_ok: "alloc_ok alloc_init (replicate 16 [])"
  by (simp add: alloc_ok_def pool_at_def alloc_init_def owned_def free_bytes_def once_def NFREELISTS_def)

section \<open>Properties\<close>

text \<open>C28.  A call for \<open>nobjs\<close> blocks of one of the sixteen sizes ends and returns at least one and at most
  that many blocks in one piece, from the pool, from a free block or from new memory of the system.
  No byte is lost and none is given twice: the piece and what the allocator has afterwards are what
  it had before and the new memory, and no byte occurs twice in them.  The only other outcome needs
  an exhausted pool, no free block of that size or above, and a system without memory.\<close>

theorem alloc_chunk_conserves:
  assumes "alloc_ok s bl" and "unat n = 8 * Suc j" and "j < 16" and "1 \<le> nobjs" and "nobjs \<le> 20"
  shows "(\<exists>p k s' bl' new. S_chunk_alloc 3 mem oom n nobjs s = Inr (p, k, s') \<and> 1 \<le> k \<and> k \<le> nobjs \<and> alloc_ok s' bl' \<and>
      mset [p..<p + 8 * Suc j * nat k] + owned s' bl' = owned s bl + mset new \<and> (\<forall>x \<in> set new. sbrk s \<le> x) \<and>
      once (mset [p..<p + 8 * Suc j * nat k] + owned s' bl')) \<or>
    \<not> mem (a_ticks s) \<and> S_end_free s - S_start_free s < 8 * Suc j \<and> (\<forall>i. j \<le> i \<longrightarrow> i < 16 \<longrightarrow> bl ! i = [])"
  using chunk_alloc_ok [OF assms, of 1 mem oom] unfolding chunk_given_def by (fastforce simp: numeral_3_eq_3)

theorem alloc_chunk_conserves_witness:
  "\<exists>p k s' bl' new. S_chunk_alloc 3 (\<lambda>_. True) (\<lambda>_ _. Inl OutOfMemory) 16 20 alloc_init = Inr (p, k, s') \<and> 1 \<le> k \<and>
    alloc_ok s' bl' \<and> mset [p..<p + 16 * nat k] + owned s' bl' = mset new"
proof -
  have "owned alloc_init (replicate 16 []) = {#}"
    by (simp add: owned_def alloc_init_def free_bytes_def)
  then show ?thesis
    using alloc_chunk_conserves [OF alloc_init_ok, of 16 1 20 "\<lambda>_. True" "\<lambda>_ _. Inl OutOfMemory"] by fastforce
qed

text \<open>C29.  A block given back and then asked for with any size of its class is the block returned; the
  bytes of the allocator grow by the block and shrink back, and its other free blocks stay as they
  are.\<close>

theorem alloc_block_roundtrip:
  assumes "alloc_ok s bl" and "0 < unat n" and "unat n \<le> 128" and "i = (unat n + 7) div 8 - 1"
    and "0 < p" and "p + 8 * Suc i \<le> sbrk s" and "once (owned s bl + block_bytes i p)"
    and "0 < unat m" and "unat m \<le> 128" and "i = (unat m + 7) div 8 - 1"
  shows "\<exists>s1 s2. default_deallocate p n s = Inr s1 \<and> alloc_ok s1 (bl[i := p # bl ! i]) \<and>
    owned s1 (bl[i := p # bl ! i]) = owned s bl + block_bytes i p \<and>
    default_allocate mem oom m s1 = Inr (p, s2) \<and> alloc_ok s2 bl \<and> owned s2 bl = owned s bl"
proof -
  let ?bl = "bl[i := p # bl ! i]"
  obtain s1 where s1: "default_deallocate p n s = Inr s1" "alloc_ok s1 ?bl" "owned s1 ?bl = owned s bl + block_bytes i p"
    using deallocate_ok [OF assms(1-7)] by blast
  have i: "i < length bl" using class_of_size [OF assms(2,3)] assms(1,4) by (simp add: alloc_ok_def pool_at_def)
  then have "?bl ! i = p # bl ! i" "?bl[i := bl ! i] = bl" by simp_all
  then show ?thesis using allocate_ok [OF s1(2) assms(8-10), of p "bl ! i" mem oom] s1 by auto
qed

theorem alloc_block_roundtrip_witness:
  "\<exists>s1 s2. default_deallocate 16 10 (alloc_init\<lparr>sbrk := 64\<rparr>) = Inr s1 \<and>
    default_allocate (\<lambda>_. True) (\<lambda>_ _. Inl OutOfMemory) 15 s1 = Inr (16, s2)"
proof -
  have own: "owned (alloc_init\<lparr>sbrk := 64\<rparr>) (replicate 16 []) = {#}"
    by (simp add: owned_def alloc_init_def free_bytes_def)
  have "alloc_ok (alloc_init\<lparr>sbrk := 64\<rparr>) (replicate 16 [])"
    using alloc_init_ok own by (simp add: alloc_ok_def pool_at_def once_def)
  moreover have "once (owned (alloc_init\<lparr>sbrk := 64\<rparr>) (replicate 16 []) + block_bytes 1 16)"
    using once_fresh [of "{#}" 16 32] own by (simp add: once_def block_bytes_def)
  ultimately show ?thesis
    using alloc_block_roundtrip [of "alloc_init\<lparr>sbrk := 64\<rparr>" "replicate 16 []" 10 1 16 15 "\<lambda>_. True" "\<lambda>_ _. Inl OutOfMemory"]
    by auto
qed

text \<open>C30.  The first small allocation of a program stores through a pointer that was never set, since the
  pool then yields more than one block; a request for no bytes reads in front of the array of free
  lists, which the typed interface avoids.\<close>

theorem alloc_first_fault:
  assumes "mem 0" and "0 < unat n" and "unat n \<le> 128" and "alloc_ok s bl"
  shows "default_allocate mem oom n alloc_init = Inl Uninitialised \<and> default_allocate mem oom 0 s = Inl OutOfBounds \<and>
    simple_allocate mem oom tp 0 s = Inr (0, s)"
proof -
  define j where "j = (unat n + 7) div 8 - 1"
  have "1 \<le> (unat n + 7) div 8" using assms(2) by simp
  then have j: "unat (S_round_up n) = 8 * Suc j" "j < 16"
    using unat_round_up [of n] assms(3) class_of_size [OF assms(2,3)] by (simp_all add: j_def)
  obtain p s' where "S_chunk_alloc 3 mem oom (S_round_up n) 20 alloc_init = Inr (p, 20, s')"
    using first_chunk [OF alloc_init_ok j, of 20 mem 1 oom] assms(1) by (auto simp: alloc_init_def numeral_3_eq_3)
  then have "S_refill mem oom (S_round_up n) alloc_init = Inl Uninitialised" by (simp add: S_refill_def)
  moreover have "uint (S_freelist_index n) = int j" using index_of_size [OF assms(2,3)] by (simp only: j_def)
  then have "arr_get (S_free_list alloc_init) (uint (S_freelist_index n)) = Inr 0"
    using j(2) by (simp add: alloc_init_def NFREELISTS_def)
  ultimately have "default_allocate mem oom n alloc_init = Inl Uninitialised"
    using assms(3) by (simp add: default_allocate_def MAX_BYTES_def word_less_nat_alt)
  moreover have "arr_get (S_free_list s) (uint (S_freelist_index 0)) = Inl OutOfBounds"
    using assms(4) index_zero by (simp add: alloc_ok_def pool_at_def arr_get_def)
  ultimately show ?thesis by (simp add: default_allocate_def MAX_BYTES_def simple_allocate_def)
qed

theorem alloc_first_fault_witness:
  "default_allocate (\<lambda>_. True) (\<lambda>_ _. Inl OutOfMemory) 24 alloc_init = Inl Uninitialised"
  using alloc_first_fault [OF _ _ _ alloc_init_ok, of "\<lambda>_. True" 24 "\<lambda>_ _. Inl OutOfMemory"] by simp

end
