(* ===== verification/Dict.thy ===== *)
theory Dict
  imports C_Base
begin

text \<open>
  The dictionary of \<^verbatim>\<open>dict.h\<close> and \<^verbatim>\<open>dict.c\<close>: the data types, the access macros, initialisation and the
  growth policy.  A pointer to a key, a value or private data is its 64-bit address, and the union \<^verbatim>\<open>v\<close> of an
  entry is a 64-bit word read as a pointer, unsigned or signed.  A function pointer of \<^verbatim>\<open>dictType\<close> may be
  NULL, so it is an option.  The function \<^verbatim>\<open>dictExpand\<close> is declared but defined nowhere in the
  repository: it is a parameter.

  The header does not compile as it stands: \<^verbatim>\<open>dictSetVal\<close> names a field \<^verbatim>\<open>valDup\<close> that is called \<^verbatim>\<open>valueDup\<close>,
  the definition of \<^verbatim>\<open>dictSetKey\<close> lacks a continuation at the end of its fifth line, and two
  types of the prototypes are not declared.  The macros are read as they are meant.
\<close>

section \<open>Data\<close>

type_synonym voidp = "64 word"

record dictEntry =
  de_key :: voidp
  de_v :: "64 word"
  de_next :: ptr

record dictType =
  hashFunction :: "voidp \<Rightarrow> 32 word"
  keyDup :: "(voidp \<Rightarrow> voidp \<Rightarrow> voidp) option"
  valueDup :: "(voidp \<Rightarrow> voidp \<Rightarrow> voidp) option"
  keyCompare :: "(voidp \<Rightarrow> voidp \<Rightarrow> voidp \<Rightarrow> int) option"
  keyDestructor :: "(voidp \<Rightarrow> voidp \<Rightarrow> unit) option"
  valDestructor :: "(voidp \<Rightarrow> voidp \<Rightarrow> unit) option"

record dictht =
  ht_table :: ptr
  ht_size :: "64 word"
  ht_sizemask :: "64 word"
  ht_used :: "64 word"

record dict =
  d_type :: "dictType option"
  d_privdata :: voidp
  d_ht0 :: dictht
  d_ht1 :: dictht
  d_rehashidx :: int
  d_iterators :: int

definition DICT_OK :: int where "DICT_OK = 0"

definition DICT_HT_INITIAL_SIZE :: "64 word" where "DICT_HT_INITIAL_SIZE = 4"

definition dict_force_resize_ratio :: "32 word" where "dict_force_resize_ratio = 5"

section \<open>Macros\<close>

definition the_type :: "dict \<Rightarrow> dictType res" where
  "the_type d = (case d_type d of None \<Rightarrow> Inl NullDeref | Some t \<Rightarrow> Inr t)"

datatype dict_call = Val_destructor voidp voidp | Key_destructor voidp voidp

definition dictFreeVal :: "dict \<Rightarrow> dictEntry \<Rightarrow> dict_call list res" where
  "dictFreeVal d entry = bind_res (the_type d) (\<lambda>t.
     Inr (if valDestructor t \<noteq> None then [Val_destructor (d_privdata d) (de_v entry)] else []))"

definition dictSetVal :: "dict \<Rightarrow> dictEntry \<Rightarrow> voidp \<Rightarrow> dictEntry res" where
  "dictSetVal d entry val = bind_res (the_type d) (\<lambda>t.
     Inr (case valueDup t of Some f \<Rightarrow> entry\<lparr>de_v := f (d_privdata d) val\<rparr> | None \<Rightarrow> entry\<lparr>de_v := val\<rparr>))"

definition dictSetSignedIntegerVal :: "dictEntry \<Rightarrow> int \<Rightarrow> dictEntry" where
  "dictSetSignedIntegerVal entry val = entry\<lparr>de_v := word_of_int val\<rparr>"

definition dictSetUnsignedIntegerVal :: "dictEntry \<Rightarrow> 64 word \<Rightarrow> dictEntry" where
  "dictSetUnsignedIntegerVal entry val = entry\<lparr>de_v := val\<rparr>"

definition dictFreeKey :: "dict \<Rightarrow> dictEntry \<Rightarrow> dict_call list res" where
  "dictFreeKey d entry = bind_res (the_type d) (\<lambda>t.
     Inr (if keyDestructor t \<noteq> None then [Key_destructor (d_privdata d) (de_key entry)] else []))"

definition dictSetKey :: "dict \<Rightarrow> dictEntry \<Rightarrow> voidp \<Rightarrow> dictEntry res" where
  "dictSetKey d entry key = bind_res (the_type d) (\<lambda>t.
     Inr (case keyDup t of Some f \<Rightarrow> entry\<lparr>de_key := f (d_privdata d) key\<rparr> | None \<Rightarrow> entry\<lparr>de_key := key\<rparr>))"

definition dictCompareKeys :: "dict \<Rightarrow> voidp \<Rightarrow> voidp \<Rightarrow> bool res" where
  "dictCompareKeys d key1 key2 = bind_res (the_type d) (\<lambda>t.
     Inr (case keyCompare t of Some f \<Rightarrow> f (d_privdata d) key1 key2 \<noteq> 0 | None \<Rightarrow> key1 = key2))"

definition dictHashKey :: "dict \<Rightarrow> voidp \<Rightarrow> 32 word res" where
  "dictHashKey d key = bind_res (the_type d) (\<lambda>t. Inr (hashFunction t key))"

definition dictGetKey :: "dictEntry \<Rightarrow> voidp" where
  "dictGetKey he = de_key he"

definition dictGetVal :: "dictEntry \<Rightarrow> voidp" where
  "dictGetVal he = de_v he"

definition dictGetSignedIntegerVal :: "dictEntry \<Rightarrow> int" where
  "dictGetSignedIntegerVal he = sint (de_v he)"

definition dictGetUnsignedIntegerVal :: "dictEntry \<Rightarrow> 64 word" where
  "dictGetUnsignedIntegerVal he = de_v he"

definition dictSlots :: "dict \<Rightarrow> 64 word" where
  "dictSlots d = ht_size (d_ht0 d) + ht_size (d_ht1 d)"

definition dictSize :: "dict \<Rightarrow> 64 word" where
  "dictSize d = ht_used (d_ht0 d) + ht_used (d_ht1 d)"

definition dictIsRehashing :: "dict \<Rightarrow> bool" where
  "dictIsRehashing d \<longleftrightarrow> d_rehashidx d \<noteq> -1"

section \<open>Functions\<close>

definition dictExpandIfNeeded ::
    "(dict \<Rightarrow> 64 word \<Rightarrow> int \<times> dict) \<Rightarrow> int \<Rightarrow> dict \<Rightarrow> (int \<times> dict) res" where
  "dictExpandIfNeeded dictExpand dict_can_resize d =
     (if dictIsRehashing d then Inr (DICT_OK, d)
      else if ht_size (d_ht0 d) = 0 then Inr (dictExpand d DICT_HT_INITIAL_SIZE)
      else if ht_used (d_ht0 d) \<ge> ht_size (d_ht0 d) then
        (if dict_can_resize \<noteq> 0 then Inr (dictExpand d (ht_used (d_ht0 d) * 2))
         else check (ht_size (d_ht0 d) \<noteq> 0) DivByZero (
           if ht_used (d_ht0 d) div ht_size (d_ht0 d) > ucast dict_force_resize_ratio
           then Inr (dictExpand d (ht_used (d_ht0 d) * 2)) else Inr (DICT_OK, d)))
      else Inr (DICT_OK, d))"

definition dictReset :: "dictht \<Rightarrow> dictht" where
  "dictReset ht = ht\<lparr>ht_table := NULL, ht_size := 0, ht_used := 0, ht_sizemask := 0\<rparr>"

definition dictInit :: "dict \<Rightarrow> dictType option \<Rightarrow> voidp \<Rightarrow> int option \<times> dict" where
  \<comment> \<open>\<open>None\<close> is the missing result of a function that ends without \<^verbatim>\<open>return\<close>\<close>
  "dictInit d type privDataPtr =
     (None, d\<lparr>d_ht0 := dictReset (d_ht0 d), d_ht1 := dictReset (d_ht1 d), d_type := type\<rparr>)"

section \<open>Lemmas\<close>

lemma signed_value: "- (2 ^ 63) \<le> x \<Longrightarrow> x < 2 ^ 63 \<Longrightarrow> dictGetSignedIntegerVal (dictSetSignedIntegerVal en x) = x"
  by (simp add: dictGetSignedIntegerVal_def dictSetSignedIntegerVal_def sint_sbintrunc' signed_take_bit_int_eq_self)

lemma unsigned_as_signed:
  "dictGetUnsignedIntegerVal (dictSetSignedIntegerVal en x) = word_of_int x"
  by (simp add: dictGetUnsignedIntegerVal_def dictSetSignedIntegerVal_def)

lemma force_ratio:
  assumes "(s :: 64 word) \<noteq> 0"
  shows "u div s > ucast dict_force_resize_ratio \<longleftrightarrow> 6 * unat s \<le> unat u"
proof -
  have "unat (ucast dict_force_resize_ratio :: 64 word) = 5" by (simp add: dict_force_resize_ratio_def)
  then have "u div s > ucast dict_force_resize_ratio \<longleftrightarrow> 5 < unat u div unat s"
    by (simp add: word_less_nat_alt unat_div)
  also have "\<dots> \<longleftrightarrow> 6 * unat s \<le> unat u"
    using assms less_eq_div_iff_mult_less_eq [of "unat s" 6 "unat u"] by (auto simp: unat_gt_0)
  finally show ?thesis .
qed

lemma twice: "unat (u :: 64 word) < 2 ^ 63 \<Longrightarrow> unat (u * 2) = 2 * unat u"
  by (simp add: unat_word_ariths)

section \<open>Properties\<close>

definition ht_sample :: "64 word \<Rightarrow> 64 word \<Rightarrow> dictht" where
  "ht_sample n used = \<lparr>ht_table = (if n = 0 then NULL else Some 0), ht_size = n, ht_sizemask = n - 1, ht_used = used\<rparr>"

definition dict_sample :: "64 word \<Rightarrow> 64 word \<Rightarrow> int \<Rightarrow> dict" where
  "dict_sample n used idx = \<lparr>d_type = None, d_privdata = 0, d_ht0 = ht_sample n used, d_ht1 = ht_sample 0 0,
     d_rehashidx = idx, d_iterators = 0\<rparr>"

text \<open>C33.  The growth policy on a table that exists and is not being rehashed.  Below one entry per
  slot nothing happens, and with resizing disabled nothing happens below six entries per slot (the
  ratio 5 is compared with a rounded quotient); else the table is asked to grow to exactly
  twice its entries, at least twice its slots.  No division by zero can occur.\<close>

theorem dict_growth:
  assumes "\<not> dictIsRehashing d" and "ht_size (d_ht0 d) \<noteq> 0" and "unat (ht_used (d_ht0 d)) < 2 ^ 63"
  shows "if unat (ht_used (d_ht0 d)) < (if can \<noteq> 0 then 1 else 6) * unat (ht_size (d_ht0 d))
    then dictExpandIfNeeded expand can d = Inr (DICT_OK, d)
    else \<exists>n. dictExpandIfNeeded expand can d = Inr (expand d n) \<and> unat n = 2 * unat (ht_used (d_ht0 d)) \<and>
      2 * unat (ht_size (d_ht0 d)) \<le> unat n"
  using assms twice [OF assms(3)] force_ratio [OF assms(2), of "ht_used (d_ht0 d)"]
  by (auto simp: dictExpandIfNeeded_def word_le_nat_alt)

theorem dict_growth_witness:
  "dictExpandIfNeeded (\<lambda>d n. (int (unat n), d)) 0 (dict_sample 4 23 (-1)) = Inr (DICT_OK, dict_sample 4 23 (-1)) \<and>
   dictExpandIfNeeded (\<lambda>d n. (int (unat n), d)) 0 (dict_sample 4 24 (-1)) = Inr (48, dict_sample 4 24 (-1))"
  using dict_growth [of "dict_sample 4 23 (-1)" 0 "\<lambda>d n. (int (unat n), d)"]
    dict_growth [of "dict_sample 4 24 (-1)" 0 "\<lambda>d n. (int (unat n), d)"]
  by (auto simp: dict_sample_def ht_sample_def dictIsRehashing_def uint_nat simp del: int_nat_eq of_nat_unat)

text \<open>\<^verbatim>\<open>_dictInit\<close> does not set the rehash index.  On memory where that index is not already -1, zeroed
  memory for one, the new dictionary counts as being rehashed: the check made before every
  insertion reports success, however often it is made, and no table is ever created.\<close>

lemma dict_init_no_table:
  assumes "d_rehashidx raw \<noteq> -1"
  shows "((\<lambda>d. snd (projr (dictExpandIfNeeded expand can d))) ^^ k) (snd (dictInit raw type priv)) = snd (dictInit raw type priv) \<and>
    dictExpandIfNeeded expand can (snd (dictInit raw type priv)) = Inr (DICT_OK, snd (dictInit raw type priv)) \<and>
    dictSlots (snd (dictInit raw type priv)) = 0 \<and> ht_table (d_ht0 (snd (dictInit raw type priv))) = NULL"
proof -
  have step: "dictExpandIfNeeded expand can (snd (dictInit raw type priv)) = Inr (DICT_OK, snd (dictInit raw type priv))"
    using assms by (simp add: dictInit_def dictExpandIfNeeded_def dictIsRehashing_def)
  then have "((\<lambda>d. snd (projr (dictExpandIfNeeded expand can d))) ^^ k) (snd (dictInit raw type priv)) = snd (dictInit raw type priv)"
    by (induction k) simp_all
  then show ?thesis using step by (simp add: dictInit_def dictSlots_def dictReset_def)
qed

lemma dict_init_no_table_witness:
  "dictExpandIfNeeded (\<lambda>d n. (1, d)) 1 (snd (dictInit (dict_sample 0 0 0) None 0)) =
     Inr (DICT_OK, snd (dictInit (dict_sample 0 0 0) None 0))"
  using dict_init_no_table [of "dict_sample 0 0 0" 0 "\<lambda>d n. (1, d)" 1 None 0] by (simp add: dict_sample_def)

end
