(* ===== verification/Mysql.thy ===== *)
theory Mysql
  imports C_Text "HOL-Library.AList"
begin

text \<open>
  The MySQL client class of \<^verbatim>\<open>MysqlClient.cpp\<close>.  The client library is a parameter: the record
  \<open>my_env\<close> says how each call is answered, by the number of calls made before it.  A handle of the
  library is an address; \<open>handles\<close> are those made by \<^verbatim>\<open>mysql_init\<close> and not yet closed.  As documented,
  \<^verbatim>\<open>mysql_real_connect\<close> returns its handle or NULL, and leaves the handle to be closed by the caller
  in both cases, and \<^verbatim>\<open>mysql_close\<close> accepts NULL.

  A result set is a list of column names and a list of rows of nullable cells.  The map \<^verbatim>\<open>m_field\<close> is an
  association list without repeated keys.
\<close>

section \<open>Data\<close>

type_synonym chars = "byte list"

record my_res =
  r_names :: "chars list"
  r_rows :: "chars option list list"

record my_env =
  init_ok :: "nat \<Rightarrow> bool"
  connect_ok :: "nat \<Rightarrow> chars \<Rightarrow> chars \<Rightarrow> chars \<Rightarrow> chars \<Rightarrow> int \<Rightarrow> bool"
  ping_ok :: "nat \<Rightarrow> bool"
  query_ok :: "nat \<Rightarrow> chars \<Rightarrow> bool"
  affected :: "nat \<Rightarrow> 64 word"
  stored :: "nat \<Rightarrow> my_res option"
  lengths :: bool   \<comment> \<open>whether \<^verbatim>\<open>mysql_fetch_lengths\<close> returns an array\<close>
  escape :: "chars \<Rightarrow> chars"

record MysqlResult =
  m_result :: "my_res option"
  m_pos :: nat   \<comment> \<open>the row cursor that the library keeps in the result set\<close>
  m_field :: "(chars \<times> int) list"

record MysqlRow =
  m_row :: "chars list"
  row_result :: "MysqlResult option"

record MysqlClient =
  m_ip :: chars
  m_port :: int
  m_database :: chars
  m_user :: chars
  m_password :: chars
  m_mysql_ctx :: ptr
  handles :: "addr list"
  h_next :: addr
  res_live :: nat   \<comment> \<open>result sets stored and not yet freed\<close>
  my_ticks :: nat

section \<open>Results and rows\<close>

fun field_loop :: "chars list \<Rightarrow> int \<Rightarrow> (chars \<times> int) list \<Rightarrow> (chars \<times> int) list" where
  "field_loop [] i m = m"
| "field_loop (name # names) i m = field_loop names (i + 1) (AList.update name i m)"

definition new_MysqlResult :: "my_env \<Rightarrow> ptr \<Rightarrow> MysqlClient \<Rightarrow> MysqlResult \<times> MysqlClient" where
  "new_MysqlResult e mysql c =
     (if mysql = NULL then (\<lparr>m_result = None, m_pos = 0, m_field = []\<rparr>, c)
      else let r = stored e (my_ticks c);
               c = c\<lparr>res_live := res_live c + (if r = None then 0 else 1), my_ticks := my_ticks c + 1\<rparr> in
           (\<lparr>m_result = r, m_pos = 0, m_field = (case r of None \<Rightarrow> [] | Some s \<Rightarrow> field_loop (r_names s) 0 [])\<rparr>, c))"

definition destroy_MysqlResult :: "MysqlResult \<Rightarrow> MysqlClient \<Rightarrow> MysqlClient res" where
  "destroy_MysqlResult r c =
     (if m_result r \<noteq> None then check (0 < res_live c) DanglingPtr (Inr (c\<lparr>res_live := res_live c - 1\<rparr>)) else Inr c)"

definition new_MysqlRow :: MysqlRow where
  "new_MysqlRow = \<lparr>m_row = [], row_result = None\<rparr>"

definition row_clear :: "MysqlRow \<Rightarrow> MysqlRow" where
  "row_clear row = row\<lparr>m_row := []\<rparr>"

definition num_rows :: "MysqlResult \<Rightarrow> int" where
  "num_rows r = (case m_result r of Some s \<Rightarrow> to_int (int (length (r_rows s))) | None \<Rightarrow> 0)"

definition name2idx :: "MysqlResult \<Rightarrow> chars \<Rightarrow> int" where
  "name2idx r name = (case map_of (m_field r) name of None \<Rightarrow> -1 | Some i \<Rightarrow> i)"

fun row_loop :: "bool \<Rightarrow> chars option list \<Rightarrow> nat \<Rightarrow> nat \<Rightarrow> chars list res" where
  \<comment> \<open>\<^verbatim>\<open>for (i = 0; i < m_field.size(); ++i)\<close>, \<open>k\<close> rounds to go\<close>
  "row_loop lens r i 0 = Inr []"
| "row_loop lens r i (Suc k) =
     bind_res (arr_get r (int i)) (\<lambda>cell.
     bind_res (row_loop lens r (Suc i) k) (\<lambda>rest.
     Inr ((case cell of None \<Rightarrow> [] | Some v \<Rightarrow> if lens then v else takeWhile (\<lambda>b. b \<noteq> 0) v) # rest)))"

definition fetch_row :: "my_env \<Rightarrow> MysqlRow \<Rightarrow> MysqlResult \<Rightarrow> (bool \<times> MysqlRow \<times> MysqlResult) res" where
  "fetch_row e row r =
     (let row = (row_clear row)\<lparr>row_result := Some r\<rparr> in
      case m_result r of
        None \<Rightarrow> Inr (False, row, r)
      | Some s \<Rightarrow>
          if m_pos r \<ge> length (r_rows s) then Inr (False, row, r)
          else let cells = r_rows s ! m_pos r; r = r\<lparr>m_pos := m_pos r + 1\<rparr> in
               bind_res (row_loop (lengths e) cells 0 (length (m_field r))) (\<lambda>cs.
               Inr (cs \<noteq> [], row\<lparr>m_row := cs, row_result := Some r\<rparr>, r)))"

fun fetch_many :: "my_env \<Rightarrow> nat \<Rightarrow> MysqlResult \<Rightarrow> MysqlResult res" where
  \<comment> \<open>\<^verbatim>\<open>fetch_row\<close> a number of times\<close>
  "fetch_many e 0 r = Inr r"
| "fetch_many e (Suc k) r = bind_res (fetch_row e new_MysqlRow r) (\<lambda>(_, _, r). fetch_many e k r)"

definition get_string :: "MysqlRow \<Rightarrow> chars \<Rightarrow> chars res" where
  "get_string row key = (case row_result row of
       None \<Rightarrow> Inl NullDeref
     | Some r \<Rightarrow>
         let idx = name2idx r key in
         if idx < 0 \<or> idx \<ge> int (length (m_row row)) then Inr [] else arr_get (m_row row) idx)"

definition get_int :: "MysqlRow \<Rightarrow> chars \<Rightarrow> int res" where
  "get_int row key = bind_res (get_string row key) (\<lambda>s. Inr (atoi (takeWhile (\<lambda>b. b \<noteq> 0) s)))"

definition get_int64 :: "MysqlRow \<Rightarrow> chars \<Rightarrow> int res" where
  "get_int64 row key = bind_res (get_string row key) (\<lambda>s. Inr (strtol 10 (takeWhile (\<lambda>b. b \<noteq> 0) s)))"

definition get_double :: "(chars \<Rightarrow> 'd option) \<Rightarrow> MysqlRow \<Rightarrow> chars \<Rightarrow> 'd res" where
  \<comment> \<open>\<^verbatim>\<open>std::stod\<close> is a parameter; it throws where it answers \<open>None\<close>\<close>
  "get_double stod row key = bind_res (get_string row key) (\<lambda>s. case stod s of None \<Rightarrow> Inl Thrown | Some d \<Rightarrow> Inr d)"

section \<open>The client\<close>

definition new_MysqlClient :: "MysqlClient \<Rightarrow> MysqlClient" where
  \<comment> \<open>the constructor sets one field; \<open>c\<close> is the memory it runs on, and \<^verbatim>\<open>m_port\<close> keeps what was there\<close>
  "new_MysqlClient c = c\<lparr>m_mysql_ctx := NULL\<rparr>"

definition handle :: "MysqlClient \<Rightarrow> ptr" where
  "handle c = m_mysql_ctx c"

definition mysql_close :: "ptr \<Rightarrow> MysqlClient \<Rightarrow> MysqlClient res" where
  "mysql_close h c = (case h of
       None \<Rightarrow> Inr c
     | Some a \<Rightarrow> check (a \<in> set (handles c)) DanglingPtr (Inr (c\<lparr>handles := remove1 a (handles c)\<rparr>)))"

definition destroy_MysqlClient :: "MysqlClient \<Rightarrow> MysqlClient res" where
  "destroy_MysqlClient c = (if m_mysql_ctx c \<noteq> NULL then mysql_close (m_mysql_ctx c) c else Inr c)"

definition init_mysql_ctx :: "my_env \<Rightarrow> MysqlClient \<Rightarrow> MysqlClient res" where
  "init_mysql_ctx e c =
     bind_res (mysql_close (m_mysql_ctx c) c) (\<lambda>c.
     let ok = init_ok e (my_ticks c);
         c = (if ok then c\<lparr>m_mysql_ctx := Some (h_next c), handles := h_next c # handles c, h_next := h_next c + 1,
                          my_ticks := my_ticks c + 1\<rparr>
              else c\<lparr>m_mysql_ctx := NULL, my_ticks := my_ticks c + 1\<rparr>) in
     if m_mysql_ctx c = NULL then Inr c
     else let ok = connect_ok e (my_ticks c) (m_ip c) (m_user c) (m_password c) (m_database c) (m_port c) in
          Inr (c\<lparr>m_mysql_ctx := (if ok then m_mysql_ctx c else NULL), my_ticks := my_ticks c + 1\<rparr>))"

definition mysql_connect :: "my_env \<Rightarrow> chars \<Rightarrow> chars \<Rightarrow> chars \<Rightarrow> chars \<Rightarrow> MysqlClient \<Rightarrow> (bool \<times> MysqlClient) res" where
  "mysql_connect e ip_port user password database c = (case strchr ip_port 58 of
       None \<Rightarrow> Inr (False, c)
     | Some i \<Rightarrow>
         bind_res (init_mysql_ctx e (c\<lparr>m_ip := take i ip_port,
            m_port := atoi (takeWhile (\<lambda>b. b \<noteq> 0) (drop (i + 1) ip_port)),
            m_database := database, m_user := user, m_password := password\<rparr>)) (\<lambda>c.
         Inr (m_mysql_ctx c \<noteq> NULL, c)))"

definition mysql_reconnect :: "my_env \<Rightarrow> MysqlClient \<Rightarrow> MysqlClient res" where
  "mysql_reconnect e c =
     (if m_mysql_ctx c = NULL then init_mysql_ctx e c
      else if \<not> ping_ok e (my_ticks c) then init_mysql_ctx e (c\<lparr>my_ticks := my_ticks c + 1\<rparr>)
      else Inr (c\<lparr>my_ticks := my_ticks c + 1\<rparr>))"

definition mysql_exec :: "my_env \<Rightarrow> chars \<Rightarrow> MysqlClient \<Rightarrow> (bool \<times> MysqlClient) res" where
  "mysql_exec e sql c =
     bind_res (mysql_reconnect e c) (\<lambda>c.
     if m_mysql_ctx c = NULL then Inr (False, c)
     else Inr (query_ok e (my_ticks c) sql, c\<lparr>my_ticks := my_ticks c + 1\<rparr>))"

definition mysql_last_affected_rows :: "my_env \<Rightarrow> MysqlClient \<Rightarrow> (32 word \<times> MysqlClient) res" where
  "mysql_last_affected_rows e c =
     bind_res (mysql_reconnect e c) (\<lambda>c.
     if m_mysql_ctx c = NULL then Inr (0, c)
     else Inr (ucast (affected e (my_ticks c)), c\<lparr>my_ticks := my_ticks c + 1\<rparr>))"

definition get_insert_id :: "my_env \<Rightarrow> MysqlClient \<Rightarrow> (int \<times> MysqlClient) res" where
  "get_insert_id e c =
     bind_res (mysql_exec e (str ''select  @@IDENTITY as id;'') c) (\<lambda>(ok, c).
     let (r, c) = new_MysqlResult e (handle c) c in
     bind_res (fetch_row e new_MysqlRow r) (\<lambda>(found, row, r).
     bind_res (if \<not> found then Inr (-1) else get_int row (str ''id'')) (\<lambda>i.
     bind_res (destroy_MysqlResult r c) (\<lambda>c. Inr (i, c)))))"

definition mysql_string :: "my_env \<Rightarrow> chars \<Rightarrow> MysqlClient \<Rightarrow> chars res" where
  \<comment> \<open>the buffer has twice the length and one byte; the result ends at the first zero\<close>
  "mysql_string e from c =
     (if handle c = NULL then Inr []
      else check (length (escape e from) \<le> 2 * length from) OutOfBounds (Inr (takeWhile (\<lambda>b. b \<noteq> 0) (escape e from))))"

section \<open>The test program\<close>

definition test_main :: "my_env \<Rightarrow> (nat \<Rightarrow> int) \<Rightarrow> MysqlClient \<Rightarrow> (chars list \<times> MysqlClient) res" where
  \<comment> \<open>the lines printed and the client after its destructor; \<open>clock\<close> answers the calls of \<^verbatim>\<open>time\<close>\<close>
  "test_main e clock c =
     bind_res (mysql_connect e (str ''192.168.182.129:3306'') (str ''root'') (str ''123'') (str ''dk_test'') (new_MysqlClient c))
       (\<lambda>(ok, c).
     if \<not> ok then bind_res (destroy_MysqlClient c) (\<lambda>c. Inr ([str ''connect failed.''], c))
     else bind_res (mysql_exec e (str ''select * from t_user where name = '' @ [39] @ str ''test100000'' @ [39]) c) (\<lambda>(_, c).
     let (r, c) = new_MysqlResult e (handle c) c in
     bind_res (fetch_row e new_MysqlRow r) (\<lambda>(_, row, r).
     bind_res (get_int row (str ''uid'')) (\<lambda>uid.
     bind_res (get_int row (str ''age'')) (\<lambda>age.
     bind_res (destroy_MysqlResult r c) (\<lambda>c.
     bind_res (destroy_MysqlClient c) (\<lambda>c.
     Inr ([str ''begin select'', str ''begin select time: '' @ dec (to_int (clock 2 - clock 1)),
       str ''uid='' @ dec uid @ str '', age='' @ dec age], c))))))))"

section \<open>Handles\<close>

definition client_ok :: "MysqlClient \<Rightarrow> bool" where
  "client_ok c \<longleftrightarrow> distinct (handles c) \<and> (\<forall>a \<in> set (handles c). a < h_next c) \<and>
     (\<forall>a. m_mysql_ctx c = Some a \<longrightarrow> a \<in> set (handles c))"

definition lost :: "MysqlClient \<Rightarrow> nat" where
  \<comment> \<open>open handles that the client no longer knows\<close>
  "lost c = length (handles c) - (if m_mysql_ctx c = NULL then 0 else 1)"

lemma close_ok:
  assumes "client_ok c"
  shows "\<exists>hs. mysql_close (m_mysql_ctx c) c = Inr (c\<lparr>handles := hs\<rparr>) \<and> length hs = lost c \<and> distinct hs \<and> set hs \<subseteq> set (handles c)"
proof (cases "m_mysql_ctx c")
  case None
  then show ?thesis using assms by (intro exI [of _ "handles c"]) (simp add: mysql_close_def lost_def client_ok_def)
next
  case (Some a)
  then show ?thesis using assms
    by (intro exI [of _ "remove1 a (handles c)"])
      (simp add: mysql_close_def lost_def client_ok_def length_remove1 set_remove1_subset)
qed

lemma init_ctx_ok:
  assumes "client_ok c"
  shows "\<exists>c'. init_mysql_ctx e c = Inr c' \<and> client_ok c' \<and>
    (if init_ok e (my_ticks c) \<and> m_mysql_ctx c' = NULL then lost c' = Suc (lost c) else lost c' = lost c) \<and>
    (m_mysql_ctx c' = NULL \<longleftrightarrow> \<not> (init_ok e (my_ticks c) \<and>
       connect_ok e (Suc (my_ticks c)) (m_ip c) (m_user c) (m_password c) (m_database c) (m_port c)))"
proof -
  obtain hs where hs: "mysql_close (m_mysql_ctx c) c = Inr (c\<lparr>handles := hs\<rparr>)" "length hs = lost c" "distinct hs"
      "set hs \<subseteq> set (handles c)"
    using close_ok [OF assms] by blast
  have lt: "\<forall>a \<in> set hs. a < h_next c" using hs(4) assms by (auto simp: client_ok_def)
  then have new: "h_next c \<notin> set hs" by auto
  show ?thesis
    using hs lt new by (auto simp: init_mysql_ctx_def Let_def client_ok_def lost_def less_Suc_eq)
qed

lemma client_ok_tick [simp]: "client_ok (c\<lparr>my_ticks := n\<rparr>) = client_ok c" "lost (c\<lparr>my_ticks := n\<rparr>) = lost c"
  by (simp_all add: client_ok_def lost_def)

definition no_server :: "my_env \<Rightarrow> bool" where
  "no_server e \<longleftrightarrow> (\<forall>t. init_ok e t) \<and> (\<forall>t ip user pw db port. \<not> connect_ok e t ip user pw db port)"

definition server_up :: "my_env \<Rightarrow> bool" where
  "server_up e \<longleftrightarrow> (\<forall>t ip user pw db port. connect_ok e t ip user pw db port)"

lemma exec_ok:
  assumes ok: "client_ok c"
  shows "\<exists>r c'. mysql_exec e sql c = Inr (r, c') \<and> client_ok c' \<and> lost c \<le> lost c' \<and> (r \<longrightarrow> m_mysql_ctx c' \<noteq> NULL) \<and>
    (no_server e \<longrightarrow> m_mysql_ctx c = NULL \<longrightarrow> \<not> r \<and> m_mysql_ctx c' = NULL \<and> lost c' = Suc (lost c)) \<and>
    (server_up e \<longrightarrow> lost c' = lost c)"
proof (cases "m_mysql_ctx c \<noteq> NULL \<and> ping_ok e (my_ticks c)")
  case True
  then have "mysql_exec e sql c =
      Inr (query_ok e (Suc (my_ticks c)) sql, c\<lparr>my_ticks := my_ticks c + 1\<rparr>\<lparr>my_ticks := Suc (my_ticks c) + 1\<rparr>)"
    by (auto simp: mysql_exec_def mysql_reconnect_def)
  then show ?thesis using ok True
    by (intro exI [of _ "query_ok e (Suc (my_ticks c)) sql"]
        exI [of _ "c\<lparr>my_ticks := my_ticks c + 1\<rparr>\<lparr>my_ticks := Suc (my_ticks c) + 1\<rparr>"]) simp
next
  case False
  let ?c = "if m_mysql_ctx c = NULL then c else c\<lparr>my_ticks := my_ticks c + 1\<rparr>"
  have ok1: "client_ok ?c" and lost: "lost ?c = lost c" using ok by (simp_all split: if_splits)
  obtain c1 where c1: "init_mysql_ctx e ?c = Inr c1" "client_ok c1"
      "if init_ok e (my_ticks ?c) \<and> m_mysql_ctx c1 = NULL then lost c1 = Suc (lost ?c) else lost c1 = lost ?c"
      "m_mysql_ctx c1 = NULL \<longleftrightarrow> \<not> (init_ok e (my_ticks ?c) \<and>
         connect_ok e (Suc (my_ticks ?c)) (m_ip ?c) (m_user ?c) (m_password ?c) (m_database ?c) (m_port ?c))"
    using init_ctx_ok [OF ok1, of e] by (elim exE conjE)
  have run: "mysql_reconnect e c = Inr c1" using c1(1) False by (auto simp: mysql_reconnect_def split: if_splits)
  have "lost c \<le> lost c1" using c1(3) lost by (auto split: if_splits)
  moreover have "no_server e \<Longrightarrow> m_mysql_ctx c1 = NULL \<and> lost c1 = Suc (lost c)" using c1(3,4) lost by (simp add: no_server_def)
  moreover have "server_up e \<Longrightarrow> lost c1 = lost c" using c1(3,4) lost by (auto simp: server_up_def split: if_splits)
  ultimately show ?thesis
    using run c1(2) by (cases "m_mysql_ctx c1 = NULL") (auto simp: mysql_exec_def)
qed

lemma connect_refused:
  assumes "client_ok c" and "m_mysql_ctx c = NULL" and "no_server e" and "58 \<in> set ip_port"
  shows "\<exists>c'. mysql_connect e ip_port user password database c = Inr (False, c') \<and> client_ok c' \<and>
    m_mysql_ctx c' = NULL \<and> length (handles c') = Suc (length (handles c))"
proof -
  obtain i where i: "strchr ip_port 58 = Some i"
    using assms(4) by (auto simp: strchr_def split: if_splits)
  let ?c = "c\<lparr>m_ip := take i ip_port, m_port := atoi (takeWhile (\<lambda>b. b \<noteq> 0) (drop (i + 1) ip_port)),
     m_database := database, m_user := user, m_password := password\<rparr>"
  have ok: "client_ok ?c" using assms(1) by (simp add: client_ok_def)
  obtain c' where c': "init_mysql_ctx e ?c = Inr c'" "client_ok c'"
      "if init_ok e (my_ticks ?c) \<and> m_mysql_ctx c' = NULL then lost c' = Suc (lost ?c) else lost c' = lost ?c"
      "m_mysql_ctx c' = NULL \<longleftrightarrow> \<not> (init_ok e (my_ticks ?c) \<and>
         connect_ok e (Suc (my_ticks ?c)) (m_ip ?c) (m_user ?c) (m_password ?c) (m_database ?c) (m_port ?c))"
    using init_ctx_ok [OF ok, of e] by (elim exE conjE)
  then have "m_mysql_ctx c' = NULL" "length (handles c') = Suc (length (handles c))"
    using assms(2,3) by (simp_all add: no_server_def lost_def)
  then show ?thesis using i c'(1,2) by (simp add: mysql_connect_def)
qed

lemma test_main_refused:
  assumes "client_ok c" and "m_mysql_ctx c = NULL" and "no_server e"
  shows "\<exists>c'. test_main e clock c = Inr ([str ''connect failed.''], c') \<and> length (handles c') = Suc (length (handles c))"
proof -
  have "new_MysqlClient c = c" using assms(2) by (cases c) (simp add: new_MysqlClient_def)
  then show ?thesis
    using connect_refused [OF assms, of "str ''192.168.182.129:3306''" "str ''root''" "str ''123''" "str ''dk_test''"]
    by (auto simp: test_main_def destroy_MysqlClient_def str_def)
qed

definition execs :: "my_env \<Rightarrow> MysqlClient \<Rightarrow> chars list \<Rightarrow> MysqlClient res" where
  \<comment> \<open>one statement after the other\<close>
  "execs e c sqls = fold_res (\<lambda>c sql. bind_res (mysql_exec e sql c) (\<lambda>(r, c). Inr c)) c sqls"

lemma execs_ok:
  assumes "client_ok c"
  shows "\<exists>c'. execs e c sqls = Inr c' \<and> client_ok c' \<and> lost c \<le> lost c' \<and>
    (no_server e \<longrightarrow> m_mysql_ctx c = NULL \<longrightarrow> m_mysql_ctx c' = NULL \<and> lost c' = lost c + length sqls) \<and>
    (server_up e \<longrightarrow> lost c' = lost c)"
  using assms
proof (induction sqls arbitrary: c)
  case Nil
  then show ?case by (simp add: execs_def)
next
  case (Cons sql sqls)
  obtain r c1 where c1: "mysql_exec e sql c = Inr (r, c1)" "client_ok c1" "lost c \<le> lost c1"
      "no_server e \<longrightarrow> m_mysql_ctx c = NULL \<longrightarrow> \<not> r \<and> m_mysql_ctx c1 = NULL \<and> lost c1 = Suc (lost c)"
      "server_up e \<longrightarrow> lost c1 = lost c"
    using exec_ok [OF Cons.prems, of e sql] by (elim exE conjE)
  obtain c2 where c2: "execs e c1 sqls = Inr c2" "client_ok c2" "lost c1 \<le> lost c2"
      "no_server e \<longrightarrow> m_mysql_ctx c1 = NULL \<longrightarrow> m_mysql_ctx c2 = NULL \<and> lost c2 = lost c1 + length sqls"
      "server_up e \<longrightarrow> lost c2 = lost c1"
    using Cons.IH [OF c1(2)] by (elim exE conjE)
  have "execs e c (sql # sqls) = Inr c2" using c1(1) c2(1) by (simp add: execs_def)
  then show ?case using c1(3-5) c2(2-5) by (intro exI [of _ c2]) simp
qed

section \<open>Columns by name\<close>

lemma field_loop_other: "k \<notin> set names \<Longrightarrow> map_of (field_loop names i m) k = map_of m k"
  by (induction names i m rule: field_loop.induct) (auto simp: update_conv)

lemma field_loop_last:
  "j < length names \<Longrightarrow> \<forall>j'. j < j' \<longrightarrow> j' < length names \<longrightarrow> names ! j' \<noteq> names ! j \<Longrightarrow>
   map_of (field_loop names i m) (names ! j) = Some (i + int j)"
proof (induction names arbitrary: i j m)
  case (Cons n names)
  show ?case
  proof (cases j)
    case 0
    then have "n \<notin> set names" using Cons.prems(2) by (auto simp: in_set_conv_nth)
    then show ?thesis using 0 by (simp add: field_loop_other update_conv)
  next
    case (Suc j')
    have later: "\<forall>k. j' < k \<longrightarrow> k < length names \<longrightarrow> names ! k \<noteq> names ! j'"
      using Cons.prems(2) Suc by (metis Suc_less_eq length_Cons nth_Cons_Suc)
    show ?thesis using Cons.IH [OF _ later, of "i + 1" "AList.update n i m"] Cons.prems(1) Suc by simp
  qed
qed simp

lemma field_loop_length:
  "distinct (map fst m) \<Longrightarrow> length (field_loop names i m) = card (set names \<union> fst ` set m)"
proof (induction names i m rule: field_loop.induct)
  case (1 i m)
  then show ?case using distinct_card [of "map fst m"] by simp
next
  case (2 name names i m)
  then show ?case by (simp add: dom_update distinct_update)
qed

definition cell_text :: "bool \<Rightarrow> chars option \<Rightarrow> chars" where
  "cell_text lens cell = (case cell of None \<Rightarrow> [] | Some v \<Rightarrow> if lens then v else takeWhile (\<lambda>b. b \<noteq> 0) v)"

lemma row_loop_ok: "i + k \<le> length r \<Longrightarrow> row_loop lens r i k = Inr (map (cell_text lens) (take k (drop i r)))"
proof (induction k arbitrary: i)
  case (Suc k)
  then have "drop i r = r ! i # drop (Suc i) r" by (simp add: Cons_nth_drop_Suc)
  then show ?case using Suc.IH [of "Suc i"] Suc.prems by (simp add: cell_text_def)
qed simp

section \<open>Properties\<close>

definition client_sample :: MysqlClient where
  "client_sample = \<lparr>m_ip = [], m_port = 0, m_database = [], m_user = [], m_password = [], m_mysql_ctx = NULL,
     handles = [], h_next = 0, res_live = 0, my_ticks = 0\<rparr>"

definition env_sample :: my_env where
  \<comment> \<open>a library without a server to connect to\<close>
  "env_sample = \<lparr>init_ok = (\<lambda>_. True), connect_ok = (\<lambda>_ _ _ _ _ _. False), ping_ok = (\<lambda>_. False), query_ok = (\<lambda>_ _. False),
     affected = (\<lambda>_. 0), stored = (\<lambda>_. None), lengths = True, escape = (\<lambda>s. s)\<rparr>"

text \<open>C36.  However the library answers, statements executed one after the other close no handle twice
  and keep the client consistent.  While connections succeed no handle is lost.  While the server
  cannot be reached every statement loses one more handle, which stays open and which the
  destructor does not close.\<close>

theorem mysql_handles:
  assumes "client_ok c"
  shows "\<exists>c'. execs e c sqls = Inr c' \<and> client_ok c' \<and> (server_up e \<longrightarrow> lost c' = lost c) \<and>
    (no_server e \<longrightarrow> m_mysql_ctx c = NULL \<longrightarrow>
       length (handles c') = length (handles c) + length sqls \<and> destroy_MysqlClient c' = Inr c')"
proof -
  obtain c' where c': "execs e c sqls = Inr c'" "client_ok c'"
      "no_server e \<longrightarrow> m_mysql_ctx c = NULL \<longrightarrow> m_mysql_ctx c' = NULL \<and> lost c' = lost c + length sqls"
      "server_up e \<longrightarrow> lost c' = lost c"
    using execs_ok [OF assms, of e sqls] by (elim exE conjE)
  have "length (handles c') = length (handles c) + length sqls \<and> destroy_MysqlClient c' = Inr c'"
    if "no_server e" "m_mysql_ctx c = NULL"
    using c'(3) that by (auto simp: lost_def destroy_MysqlClient_def)
  then show ?thesis using c'(1,2,4) by (intro exI [of _ c']) simp
qed

theorem mysql_handles_witness:
  "\<exists>c'. execs env_sample client_sample [[1], [2], [3]] = Inr c' \<and> length (handles c') = Suc (Suc (Suc 0)) \<and> destroy_MysqlClient c' = Inr c'"
proof -
  have "client_ok client_sample" "no_server env_sample" by (simp_all add: client_ok_def client_sample_def no_server_def env_sample_def)
  then show ?thesis
    using mysql_handles [of client_sample env_sample "[[1], [2], [3]]"] by (auto simp: client_sample_def)
qed

definition result_of :: "my_res \<Rightarrow> nat \<Rightarrow> MysqlResult" where
  "result_of s k = \<lparr>m_result = Some s, m_pos = k, m_field = field_loop (r_names s) 0 []\<rparr>"

definition well_formed_res :: "my_res \<Rightarrow> bool" where
  \<comment> \<open>documented: every row of a result set has a cell for each column, and there is a column\<close>
  "well_formed_res s \<longleftrightarrow> r_names s \<noteq> [] \<and> (\<forall>cells \<in> set (r_rows s). length cells = length (r_names s))"

lemma field_loop_card: "length (field_loop names 0 []) = card (set names)"
  using field_loop_length [of "[]" names 0] by simp

lemma fetch_row_ok:
  assumes wf: "well_formed_res s" and k: "k < length (r_rows s)"
  shows "fetch_row e row (result_of s k) =
    Inr (True, \<lparr>m_row = map (cell_text (lengths e)) (take (card (set (r_names s))) (r_rows s ! k)),
      row_result = Some (result_of s (Suc k))\<rparr>, result_of s (Suc k))"
proof -
  have "length (r_rows s ! k) = length (r_names s)" using wf k by (simp add: well_formed_res_def)
  then have "card (set (r_names s)) \<le> length (r_rows s ! k)" "0 < card (set (r_names s))" "r_rows s ! k \<noteq> []"
    using wf card_length [of "r_names s"] by (auto simp: well_formed_res_def card_gt_0_iff)
  then show ?thesis using k row_loop_ok [of 0 "card (set (r_names s))" "r_rows s ! k" "lengths e"]
    by (auto simp: fetch_row_def row_clear_def result_of_def field_loop_card Let_def)
qed

lemma fetch_row_end: "length (r_rows s) \<le> k \<Longrightarrow>
  fetch_row e row (result_of s k) = Inr (False, \<lparr>m_row = [], row_result = Some (result_of s k)\<rparr>, result_of s k)"
  by (simp add: fetch_row_def row_clear_def result_of_def)

lemma fetch_many_ok: "well_formed_res s \<Longrightarrow> k + n \<le> length (r_rows s) \<Longrightarrow> fetch_many e n (result_of s k) = Inr (result_of s (k + n))"
  by (induction n arbitrary: k) (simp_all add: fetch_row_ok)

lemma get_string_ok:
  assumes j: "j < length (r_names s)" "\<forall>j'. j < j' \<longrightarrow> j' < length (r_names s) \<longrightarrow> r_names s ! j' \<noteq> r_names s ! j"
    and le: "n \<le> length cells"
  shows "get_string \<lparr>m_row = map (cell_text b) (take n cells), row_result = Some (result_of s k)\<rparr> (r_names s ! j) =
    Inr (if j < n then cell_text b (cells ! j) else [])"
  using field_loop_last [OF j, of 0 "[]"] le by (simp add: get_string_def name2idx_def result_of_def Let_def)

text \<open>C37.  \<^verbatim>\<open>fetch_row\<close> gives the rows of the result one after the other and false after the last; the
  number of rows does not change.  A fetched row has as many cells as there are different column
  names.  A name gives the cell of the last column of that name when its position is below that
  number, and the empty string otherwise: with distinct names every column is found, with a
  repeated name the last columns of the row are cut off.\<close>

theorem mysql_row_by_name:
  assumes "stored e (my_ticks c) = Some s" and "m_mysql_ctx c = Some h" and "well_formed_res s" and "k \<le> length (r_rows s)"
  shows "\<exists>r row r'. fetch_many e k (fst (new_MysqlResult e (m_mysql_ctx c) c)) = Inr r \<and>
    num_rows r = to_int (int (length (r_rows s))) \<and>
    fetch_row e row0 r = Inr (k < length (r_rows s), row, r') \<and>
    (k < length (r_rows s) \<longrightarrow> length (m_row row) = card (set (r_names s)) \<and>
      (\<forall>j < length (r_names s). (\<forall>j'. j < j' \<longrightarrow> j' < length (r_names s) \<longrightarrow> r_names s ! j' \<noteq> r_names s ! j) \<longrightarrow>
         get_string row (r_names s ! j) =
           Inr (if j < card (set (r_names s)) then cell_text (lengths e) (r_rows s ! k ! j) else [])))"
proof -
  have r: "fetch_many e k (fst (new_MysqlResult e (m_mysql_ctx c) c)) = Inr (result_of s k)"
    using fetch_many_ok [of s 0 k e] assms by (simp add: new_MysqlResult_def result_of_def Let_def)
  have num: "num_rows (result_of s k) = to_int (int (length (r_rows s)))" by (simp add: num_rows_def result_of_def)
  show ?thesis
  proof (cases "k < length (r_rows s)")
    case True
    then have "card (set (r_names s)) \<le> length (r_rows s ! k)"
      using assms(3) card_length [of "r_names s"] by (simp add: well_formed_res_def)
    then show ?thesis using r num fetch_row_ok [OF assms(3) True, of e row0] True by (simp add: get_string_ok)
  next
    case False
    then show ?thesis using r num fetch_row_end [of s k e row0] by simp
  qed
qed

definition res_sample :: my_res where
  \<comment> \<open>the columns \<^verbatim>\<open>a, a, b\<close> and two rows\<close>
  "res_sample = \<lparr>r_names = [[97], [97], [98]], r_rows = [[Some [1], Some [2], Some [3]], [Some [4], None, Some [6]]]\<rparr>"

definition row_sample :: "(bool \<times> MysqlRow \<times> MysqlResult) res" where
  "row_sample = bind_res (fetch_many (env_sample\<lparr>stored := \<lambda>_. Some res_sample\<rparr>) 1
     (fst (new_MysqlResult (env_sample\<lparr>stored := \<lambda>_. Some res_sample\<rparr>) (Some 0) (client_sample\<lparr>m_mysql_ctx := Some 0\<rparr>))))
     (fetch_row (env_sample\<lparr>stored := \<lambda>_. Some res_sample\<rparr>) new_MysqlRow)"

theorem mysql_row_by_name_witness:
  "\<exists>row r'. row_sample = Inr (True, row, r') \<and> get_string row [97] = Inr [] \<and> get_string row [98] = Inr []"
proof -
  have wf: "well_formed_res res_sample" by (simp add: well_formed_res_def res_sample_def)
  have card: "card (set (r_names res_sample)) = 2" by (simp add: res_sample_def)
  obtain r row r' where run: "fetch_many (env_sample\<lparr>stored := \<lambda>_. Some res_sample\<rparr>) 1
      (fst (new_MysqlResult (env_sample\<lparr>stored := \<lambda>_. Some res_sample\<rparr>) (Some 0) (client_sample\<lparr>m_mysql_ctx := Some 0\<rparr>))) = Inr r"
    "fetch_row (env_sample\<lparr>stored := \<lambda>_. Some res_sample\<rparr>) new_MysqlRow r = Inr (True, row, r')"
    and names: "\<forall>j < length (r_names res_sample).
      (\<forall>j'. j < j' \<longrightarrow> j' < length (r_names res_sample) \<longrightarrow> r_names res_sample ! j' \<noteq> r_names res_sample ! j) \<longrightarrow>
      get_string row (r_names res_sample ! j) = Inr (if j < 2 then cell_text True (r_rows res_sample ! 1 ! j) else [])"
    using mysql_row_by_name [of "env_sample\<lparr>stored := \<lambda>_. Some res_sample\<rparr>" "client_sample\<lparr>m_mysql_ctx := Some 0\<rparr>" res_sample 0 1 new_MysqlRow]
      wf card by (auto simp: res_sample_def env_sample_def)
  have later: "\<forall>j'. (1::nat) < j' \<longrightarrow> j' < 3 \<longrightarrow> r_names res_sample ! j' \<noteq> r_names res_sample ! 1"
    by (auto simp: res_sample_def less_Suc_eq numeral_3_eq_3)
  have "get_string row [97] = Inr []"
    using names [rule_format, of 1] later by (simp add: res_sample_def cell_text_def)
  moreover have "get_string row [98] = Inr []" using names [rule_format, of 2] by (simp add: res_sample_def)
  ultimately show ?thesis using run by (simp add: row_sample_def)
qed

section \<open>Insert ids and missing cells\<close>

lemma init_ctx_live: "init_mysql_ctx e c = Inr c' \<Longrightarrow> res_live c' = res_live c"
  by (auto simp: init_mysql_ctx_def mysql_close_def Let_def check_def split: option.splits if_splits)

lemma exec_live: "mysql_exec e sql c = Inr (r, c') \<Longrightarrow> res_live c' = res_live c"
  by (auto simp: mysql_exec_def mysql_reconnect_def split: if_splits dest!: init_ctx_live)

lemma client_ok_live [simp]: "client_ok (c\<lparr>res_live := n\<rparr>) = client_ok c"
  by (simp add: client_ok_def)

definition id_result :: "chars option list \<Rightarrow> my_res" where
  \<comment> \<open>what \<^verbatim>\<open>select @@IDENTITY as id\<close> answers: one column of that name, with any number of rows\<close>
  "id_result cells = \<lparr>r_names = [str ''id''], r_rows = map (\<lambda>c. [c]) cells\<rparr>"

lemma id_row:
  "fetch_row e new_MysqlRow (result_of (id_result (cell # cells)) 0) =
     Inr (True, \<lparr>m_row = [cell_text (lengths e) cell], row_result = Some (result_of (id_result (cell # cells)) 1)\<rparr>,
       result_of (id_result (cell # cells)) 1)"
  using fetch_row_ok [of "id_result (cell # cells)" 0 e new_MysqlRow] by (simp add: well_formed_res_def id_result_def)

lemma id_no_row:
  "fetch_row e new_MysqlRow (result_of (id_result []) 0) =
     Inr (False, \<lparr>m_row = [], row_result = Some (result_of (id_result []) 0)\<rparr>, result_of (id_result []) 0)"
  by (rule fetch_row_end) (simp add: id_result_def)

lemma id_string: "get_string \<lparr>m_row = [t], row_result = Some (result_of (id_result cells) k)\<rparr> (str ''id'') = Inr t"
  by (simp add: get_string_def name2idx_def result_of_def id_result_def)

lemma destroy_result_of: "0 < res_live c \<Longrightarrow> destroy_MysqlResult (result_of s k) c = Inr (c\<lparr>res_live := res_live c - 1\<rparr>)"
  by (simp add: destroy_MysqlResult_def result_of_def)

lemma insert_id_run:
  assumes "mysql_exec e (str ''select  @@IDENTITY as id;'') c = Inr (r, c1)"
  shows "get_insert_id e c =
    (if m_mysql_ctx c1 = NULL then Inr (-1, c1)
     else case stored e (my_ticks c1) of
       None \<Rightarrow> Inr (-1, c1\<lparr>my_ticks := my_ticks c1 + 1\<rparr>)
     | Some s \<Rightarrow> bind_res (fetch_row e new_MysqlRow (result_of s 0)) (\<lambda>(found, row, r).
         bind_res (if \<not> found then Inr (-1) else get_int row (str ''id'')) (\<lambda>i.
         bind_res (destroy_MysqlResult r (c1\<lparr>res_live := res_live c1 + 1, my_ticks := my_ticks c1 + 1\<rparr>)) (\<lambda>c.
         Inr (i, c)))))"
proof -
  have none: "fetch_row e new_MysqlRow \<lparr>m_result = None, m_pos = 0, m_field = []\<rparr> =
      Inr (False, new_MysqlRow\<lparr>row_result := Some \<lparr>m_result = None, m_pos = 0, m_field = []\<rparr>\<rparr>, \<lparr>m_result = None, m_pos = 0, m_field = []\<rparr>)"
    by (simp add: fetch_row_def row_clear_def new_MysqlRow_def)
  have "c1\<lparr>res_live := res_live c1, my_ticks := my_ticks c1 + 1\<rparr> = c1\<lparr>my_ticks := my_ticks c1 + 1\<rparr>" by (cases c1) simp
  then show ?thesis using assms
    by (cases "m_mysql_ctx c1"; cases "stored e (my_ticks c1)")
      (simp_all add: get_insert_id_def handle_def new_MysqlResult_def none destroy_MysqlResult_def result_of_def)
qed

definition insert_id :: "my_env \<Rightarrow> MysqlClient \<Rightarrow> int" where
  \<comment> \<open>the answer, from the client after the statement was executed\<close>
  "insert_id e c =
     (if m_mysql_ctx c = NULL then -1
      else case stored e (my_ticks c) of None \<Rightarrow> -1
        | Some s \<Rightarrow> (case r_rows s of [] \<Rightarrow> -1 | cells # _ \<Rightarrow> atoi (takeWhile (\<lambda>b. b \<noteq> 0) (cell_text (lengths e) (hd cells)))))"

text \<open>C38.  \<^verbatim>\<open>get_insert_id\<close> on every path: it does not fail, keeps the client consistent and frees its result set.
  It answers -1 exactly when there is no connection, when the library has no result set, or when the result
  set has no row (or the cell says so), and else the number in the cell of the first row; a NULL cell reads as 0.\<close>

theorem mysql_insert_id:
  assumes ok: "client_ok c" and res: "\<forall>t s. stored e t = Some s \<longrightarrow> (\<exists>cells. s = id_result cells)"
  shows "\<exists>r c1 c'. mysql_exec e (str ''select  @@IDENTITY as id;'') c = Inr (r, c1) \<and>
    get_insert_id e c = Inr (insert_id e c1, c') \<and> client_ok c' \<and> res_live c' = res_live c \<and>
    m_mysql_ctx c' = m_mysql_ctx c1 \<and> handles c' = handles c1"
proof -
  let ?sql = "str ''select  @@IDENTITY as id;''"
  obtain r c1 where c1: "mysql_exec e ?sql c = Inr (r, c1)" "client_ok c1"
    using exec_ok [OF ok, of e ?sql] by (elim exE conjE)
  note run = insert_id_run [OF c1(1)] and live = exec_live [OF c1(1)]
  let ?c = "c1\<lparr>my_ticks := my_ticks c1 + 1\<rparr>" and ?c1 = "c1\<lparr>my_ticks := my_ticks c1 + 1, res_live := res_live c1\<rparr>"
  have eq: "?c1 = ?c" by (cases c1) simp
  consider (off) "m_mysql_ctx c1 = NULL" | (none) "m_mysql_ctx c1 \<noteq> NULL" "stored e (my_ticks c1) = None"
    | (empty) "m_mysql_ctx c1 \<noteq> NULL" "stored e (my_ticks c1) = Some (id_result [])"
    | (row) cell cells where "m_mysql_ctx c1 \<noteq> NULL" "stored e (my_ticks c1) = Some (id_result (cell # cells))"
    using res by (metis neq_Nil_conv option.exhaust)
  then have "\<exists>c'. get_insert_id e c = Inr (insert_id e c1, c') \<and> (c' = c1 \<or> c' = ?c)"
  proof cases
    case off
    then show ?thesis using run by (simp add: insert_id_def)
  next
    case none
    then show ?thesis using run by (simp add: insert_id_def)
  next
    case empty
    then have "get_insert_id e c = Inr (-1, ?c1)" using run by (auto simp: id_no_row destroy_result_of)
    moreover have "insert_id e c1 = -1" using empty by (simp add: insert_id_def id_result_def)
    ultimately show ?thesis using eq by metis
  next
    case row
    let ?i = "atoi (takeWhile (\<lambda>b. b \<noteq> 0) (cell_text (lengths e) cell))"
    have "get_insert_id e c = Inr (?i, ?c1)"
      using run row by (auto simp: id_row id_string get_int_def destroy_result_of)
    moreover have "insert_id e c1 = ?i" using row by (auto simp: insert_id_def id_result_def)
    ultimately show ?thesis using eq by metis
  qed
  then show ?thesis using c1 live by auto
qed

lemma missing_cell:
  \<comment> \<open>a NULL cell and an unknown column read as 0 by \<^verbatim>\<open>get_int\<close>, but \<^verbatim>\<open>get_double\<close> throws: \<^verbatim>\<open>std::stod\<close> rejects the empty string\<close>
  assumes "get_string row key = Inr []" and "stod [] = None"
  shows "get_int row key = Inr 0 \<and> get_int64 row key = Inr 0 \<and> get_double stod row key = Inl Thrown"
  using assms by (simp add: get_int_def get_int64_def get_double_def atoi_def strtol_def read_number_def LONG_MAX_def in_intI)

definition up_sample :: my_env where
  \<comment> \<open>a library with a server that answers the id 7\<close>
  "up_sample = \<lparr>init_ok = (\<lambda>_. True), connect_ok = (\<lambda>_ _ _ _ _ _. True), ping_ok = (\<lambda>_. True), query_ok = (\<lambda>_ _. True),
     affected = (\<lambda>_. 1), stored = (\<lambda>_. Some (id_result [Some (str ''7'')])), lengths = True, escape = (\<lambda>s. s)\<rparr>"

lemma up_connects:
  assumes "mysql_exec (up_sample\<lparr>stored := x\<rparr>) sql client_sample = Inr (r, c1)"
  shows "m_mysql_ctx c1 \<noteq> NULL"
  using assms by (auto simp: mysql_exec_def mysql_reconnect_def init_mysql_ctx_def mysql_close_def up_sample_def client_sample_def)

theorem mysql_insert_id_witness:
  "(\<exists>c'. get_insert_id (up_sample\<lparr>stored := \<lambda>_. Some (id_result [Some (str ''7'')])\<rparr>) client_sample = Inr (7, c') \<and> res_live c' = 0) \<and>
    (\<exists>c'. get_insert_id (up_sample\<lparr>stored := \<lambda>_. None\<rparr>) client_sample = Inr (-1, c') \<and> res_live c' = 0) \<and>
    (\<exists>c'. get_insert_id (up_sample\<lparr>stored := \<lambda>_. Some (id_result [])\<rparr>) client_sample = Inr (-1, c') \<and> res_live c' = 0)"
proof -
  have ok: "client_ok client_sample" and live: "res_live client_sample = 0" by (simp_all add: client_ok_def client_sample_def)
  have run: "\<exists>c'. get_insert_id (up_sample\<lparr>stored := x\<rparr>) client_sample = Inr (i, c') \<and> res_live c' = 0"
    if "\<forall>t s. x t = Some s \<longrightarrow> (\<exists>cells. s = id_result cells)"
      and "\<And>c1. m_mysql_ctx c1 \<noteq> NULL \<Longrightarrow> insert_id (up_sample\<lparr>stored := x\<rparr>) c1 = i" for x i
  proof -
    have "\<forall>t s. stored (up_sample\<lparr>stored := x\<rparr>) t = Some s \<longrightarrow> (\<exists>cells. s = id_result cells)" using that(1) by simp
    then obtain r c1 c' where "mysql_exec (up_sample\<lparr>stored := x\<rparr>) (str ''select  @@IDENTITY as id;'') client_sample = Inr (r, c1)"
        "get_insert_id (up_sample\<lparr>stored := x\<rparr>) client_sample = Inr (insert_id (up_sample\<lparr>stored := x\<rparr>) c1, c')"
        "res_live c' = res_live client_sample"
      by (rule mysql_insert_id [OF ok, THEN exE]) (elim exE conjE)
    then show ?thesis using up_connects that(2) live by simp
  qed
  have one: "\<exists>cells. [[x :: chars option]] = map (\<lambda>c. [c]) cells" for x by (rule exI [of _ "[x]"]) simp
  have "atoi (takeWhile (\<lambda>b. b \<noteq> 0) (str ''7'')) = 7" by code_simp
  then show ?thesis
    using one by (intro conjI run) (auto simp: insert_id_def id_result_def cell_text_def up_sample_def simp del: takeWhile_eq_all_conv)
qed

end
