(* ===== verification/Loggers.thy ===== *)
theory Loggers
  imports C_Text
begin

text \<open>
  The two loggers built on glog: the Lua module of \<^verbatim>\<open>lua_test/testglog/log.cpp\<close> and the log service of
  \<^verbatim>\<open>testcluster/cpp/log/service_log.cpp\<close>.  Memory is a map from addresses to blocks; \<open>grant\<close> says which
  allocations succeed.  \<^verbatim>\<open>vsnprintf\<close> writes the formatted text cut to the size of the buffer and answers the
  length of the whole text, or a negative number when it fails (\<open>fails\<close>, by the size of the
  buffer) or when that length is no \<^verbatim>\<open>int\<close>.  Bytes of a block that are never read are zero.
\<close>

section \<open>Formatting a message\<close>

record lheap =
  lh_blocks :: "addr \<rightharpoonup> byte list"
  lh_next :: addr

record lenv =
  grant :: "addr \<Rightarrow> bool"
  fails :: "int \<Rightarrow> bool"

definition LOG_MESSAGE_SIZE :: int where "LOG_MESSAGE_SIZE = 256"

definition skynet_malloc :: "lenv \<Rightarrow> int \<Rightarrow> lheap \<Rightarrow> ptr \<times> lheap" where
  "skynet_malloc e n h =
     (if grant e (lh_next h)
      then (Some (lh_next h), h\<lparr>lh_blocks := (lh_blocks h)(lh_next h \<mapsto> replicate (nat n) 0), lh_next := lh_next h + 1\<rparr>)
      else (NULL, h))"

definition skynet_free :: "ptr \<Rightarrow> lheap \<Rightarrow> lheap res" where
  "skynet_free p h = bind_res (dealloc (lh_blocks h) p) (\<lambda>m. Inr (h\<lparr>lh_blocks := m\<rparr>))"

definition vsn_len :: "lenv \<Rightarrow> int \<Rightarrow> byte list \<Rightarrow> int" where
  "vsn_len e n txt = (if fails e n \<or> int (length txt) > INT_MAX then -1 else int (length txt))"

definition vsn_text :: "int \<Rightarrow> byte list \<Rightarrow> byte list" where
  "vsn_text n txt = take (nat n - 1) txt @ [0]"

definition fill :: "byte list \<Rightarrow> byte list \<Rightarrow> byte list" where
  \<comment> \<open>a block after something was copied to its start\<close>
  "fill new old = new @ drop (length new) old"

definition store :: "ptr \<Rightarrow> byte list \<Rightarrow> lheap \<Rightarrow> lheap res" where
  "store p new h = bind_res (deref (lh_blocks h) p) (\<lambda>old.
     check (length new \<le> length old) OutOfBounds (
     bind_res (assign (lh_blocks h) p (fill new)) (\<lambda>m. Inr (h\<lparr>lh_blocks := m\<rparr>))))"

definition skynet_strdup :: "lenv \<Rightarrow> byte list \<Rightarrow> lheap \<Rightarrow> (ptr \<times> lheap) res" where
  \<comment> \<open>of a string, given without its terminating zero\<close>
  "skynet_strdup e s h =
     (case skynet_malloc e (int (length s) + 1) h of (ret, h) \<Rightarrow>
      bind_res (store ret (s @ [0]) h) (\<lambda>h. Inr (ret, h)))"

fun format_loop :: "nat \<Rightarrow> lenv \<Rightarrow> byte list \<Rightarrow> int \<Rightarrow> lheap \<Rightarrow> (int \<times> ptr \<times> lheap) res" where
  "format_loop 0 e txt max_size h = Inl Diverges"
| "format_loop (Suc fuel) e txt max_size h =
     bind_res (c_int (max_size * 2)) (\<lambda>max_size.
     case skynet_malloc e max_size h of (data, h) \<Rightarrow>
     bind_res (store data (vsn_text max_size txt) h) (\<lambda>h.
     let len = vsn_len e max_size txt in
     if len < max_size then Inr (len, data, h)
     else bind_res (skynet_free data h) (\<lambda>h. format_loop fuel e txt max_size h)))"

definition format_message :: "lenv \<Rightarrow> byte list \<Rightarrow> lheap \<Rightarrow> (bool \<times> ptr \<times> lheap) res" where
  \<comment> \<open>\<open>txt\<close> is the whole formatted text; the loop doubles at most 23 times before \<^verbatim>\<open>int\<close> overflows\<close>
  "format_message e txt h =
     (let len = vsn_len e LOG_MESSAGE_SIZE txt in
      bind_res
        (if 0 \<le> len \<and> len < LOG_MESSAGE_SIZE
         then bind_res (skynet_strdup e (takeWhile (\<lambda>b. b \<noteq> 0) (vsn_text LOG_MESSAGE_SIZE txt)) h) (\<lambda>(data, h).
              Inr (len, data, h))
         else format_loop 24 e txt LOG_MESSAGE_SIZE h)
        (\<lambda>(len, data, h).
      if len < 0 then bind_res (skynet_free data h) (\<lambda>h. Inr (False, data, h))
      else Inr (True, data, h)))"

fun joined :: "byte list list \<Rightarrow> byte list" where
  \<comment> \<open>the loop over the arguments of \<^verbatim>\<open>lerror\<close>\<close>
  "joined [] = []"
| "joined [s] = s"
| "joined (s # ss) = s @ [32] @ joined ss"

definition lerror :: "lenv \<Rightarrow> byte list list \<Rightarrow> lheap \<Rightarrow> (byte list list \<times> lheap) res" where
  \<comment> \<open>\<open>args\<close> are the arguments as \<^verbatim>\<open>luaL_tolstring\<close> prints them; the result is what is logged\<close>
  "lerror e args h =
     (if length args < 1 then Inr ([], h)
      else bind_res (format_message e (takeWhile (\<lambda>b. b \<noteq> 0) (joined args)) h) (\<lambda>(ret, data, h).
        if ret
        then bind_res (deref (lh_blocks h) data) (\<lambda>block.
             bind_res (c_str block 0) (\<lambda>s.
             bind_res (skynet_free data h) (\<lambda>h. Inr ([s], h))))
        else Inr ([], h)))"

datatype beelog_fun = Linit | Lerror

record 's lua_reg =
  \<comment> \<open>the functions of the Lua library that register a module\<close>
  checkversion :: "'s \<Rightarrow> bool"   \<comment> \<open>otherwise a Lua error is raised\<close>
  createtable :: "'s \<Rightarrow> int \<Rightarrow> int \<Rightarrow> 's"
  setfuncs :: "'s \<Rightarrow> (byte list \<times> beelog_fun) list \<Rightarrow> 's"

definition luaopen_beelog :: "'s lua_reg \<Rightarrow> 's \<Rightarrow> (int \<times> 's) option" where
  \<comment> \<open>\<open>None\<close>: the call does not return; the array ends with a pair of null pointers, which is not counted\<close>
  "luaopen_beelog R L =
     (if \<not> checkversion R L then None
      else let l = [(str ''init'', Linit), (str ''error'', Lerror)];
               L = createtable R L 0 (int (length l + 1) - 1);
               L = setfuncs R L l in
           Some (1, L))"

section \<open>The log service\<close>

definition logger_create :: "lenv \<Rightarrow> lheap \<Rightarrow> ptr \<times> lheap" where
  \<comment> \<open>an object of a class without members has one byte\<close>
  "logger_create e h = skynet_malloc e 1 h"

definition logger_release :: "ptr \<Rightarrow> lheap \<Rightarrow> lheap res" where
  "logger_release inst h = skynet_free inst h"

record glog =
  logtostderr :: bool
  log_dir :: "byte list"
  logbufsecs :: int
  max_log_size :: int
  log_name :: "byte list"
  log_lines :: "byte list list"
  log_calls :: "byte list list"   \<comment> \<open>framework calls\<close>

definition hex8 :: "32 word \<Rightarrow> byte list" where
  \<comment> \<open>\<^verbatim>\<open>%08x\<close>\<close>
  "hex8 w = replicate (8 - length (hex w)) 48 @ hex w"

definition logger_cb :: "32 word \<Rightarrow> byte list \<Rightarrow> glog \<Rightarrow> (int \<times> glog) res" where
  \<comment> \<open>the message memory is read up to its first zero byte, whatever its size is\<close>
  "logger_cb source msg g =
     bind_res (c_str msg 0) (\<lambda>s.
     if source \<noteq> 0
     then Inr (0, g\<lparr>log_lines := log_lines g @ [str ''['' @ hex8 source @ str ''] '' @ s]\<rparr>)
     else Inr (0, g\<lparr>log_lines := log_lines g @ [s]\<rparr>))"

definition logger_init :: "(byte list \<Rightarrow> byte list option) \<Rightarrow> glog \<Rightarrow> (int \<times> glog) res" where
  "logger_init getenv g =
     (case getenv (str ''log_name'') of
        None \<Rightarrow> Inl NullDeref
      | Some name \<Rightarrow>
          let g = (if name = str ''stdout'' then g\<lparr>logtostderr := True\<rparr> else g) in
          (case getenv (str ''logbufsecs'') of
             None \<Rightarrow> Inl NullDeref
           | Some secs \<Rightarrow>
               (case getenv (str ''log_dir'') of
                  None \<Rightarrow> Inl NullDeref
                | Some dir \<Rightarrow>
                    Inr (0, g\<lparr>log_dir := dir, logbufsecs := atoi secs, max_log_size := 10, log_name := name,
                      log_calls := log_calls g @ [str ''callback'', str ''REG .logger'']\<rparr>))))"

definition linit :: "glog \<Rightarrow> int \<times> glog" where
  \<comment> \<open>the same settings, fixed, in the Lua module\<close>
  "linit g = (0, g\<lparr>log_dir := str ''./log'', logbufsecs := 1, max_log_size := 10, log_name := str ''test''\<rparr>)"

section \<open>Lemmas\<close>

definition fresh :: "lheap \<Rightarrow> bool" where
  "fresh h \<longleftrightarrow> (\<forall>a \<ge> lh_next h. lh_blocks h a = None)"

definition log_ok :: "lenv \<Rightarrow> bool" where
  "log_ok e \<longleftrightarrow> (\<forall>a. grant e a) \<and> (\<forall>n. \<not> fails e n)"

definition put_block :: "byte list \<Rightarrow> lheap \<Rightarrow> lheap" where
  \<comment> \<open>the next block allocated, with its contents\<close>
  "put_block b h = h\<lparr>lh_next := lh_next h + 1, lh_blocks := (lh_blocks h)(lh_next h \<mapsto> b)\<rparr>"

lemma malloc_store:
  assumes "log_ok e" and "length new \<le> nat n"
  shows "(case skynet_malloc e n h of (p, h1) \<Rightarrow> bind_res (store p new h1) (f p)) =
    f (Some (lh_next h)) (put_block (new @ replicate (nat n - length new) 0) h)"
  using assms by (simp add: skynet_malloc_def store_def fill_def put_block_def log_ok_def)

lemma free_put:
  assumes "fresh h"
  shows "skynet_free (Some (lh_next h)) (put_block b h) = Inr (h\<lparr>lh_next := lh_next h + 1\<rparr>)"
proof -
  have "(lh_blocks h)(lh_next h := None) = lh_blocks h" using assms by (auto simp: fresh_def)
  then show ?thesis by (cases h) (simp add: skynet_free_def put_block_def)
qed

lemma fresh_next: "fresh h \<Longrightarrow> fresh (h\<lparr>lh_next := lh_next h + 1\<rparr>)"
  by (simp add: fresh_def)

lemma vsn_text_whole: "int (length txt) < n \<Longrightarrow> vsn_text n txt = txt @ [0]"
  by (simp add: vsn_text_def)

lemma vsn_text_length: "0 < n \<Longrightarrow> length (vsn_text n txt) \<le> nat n"
  by (simp add: vsn_text_def)

lemma pow_double: "(2::int) ^ (8 + k) * 2 = 2 ^ (8 + Suc k)"
  by (simp add: power_add)

lemma pow_in_int: "k < 22 \<Longrightarrow> in_int (2 ^ (8 + Suc k))"
  using power_increasing [of "8 + Suc k" 30 "2::int"] by (intro in_intI) (auto intro: order_trans [of _ 0])

lemma format_loop_ok:
  assumes "log_ok e" and "int (length txt) \<le> INT_MAX" and "fresh h" and "k \<le> 22" and "22 - k < fuel"
    and "2 ^ (8 + k) \<le> int (length txt)"
  shows "if int (length txt) < 2 ^ 30
    then \<exists>t n. format_loop fuel e txt (2 ^ (8 + k)) h = Inr (int (length txt), Some n, put_block (txt @ [0] @ t) (h\<lparr>lh_next := n\<rparr>)) \<and>
      lh_next h \<le> n
    else format_loop fuel e txt (2 ^ (8 + k)) h = Inl SignedOverflow"
  using assms(3-6)
proof (induction fuel arbitrary: k h)
  case (Suc fuel)
  let ?m = "2 ^ (8 + Suc k) :: int" and ?l = "int (length txt)"
  have len: "vsn_len e n txt = ?l" for n using assms(1,2) by (simp add: vsn_len_def log_ok_def)
  show ?case
  proof (cases "k = 22")
    case True
    then show ?thesis using Suc.prems(4) by (simp add: c_int_def in_int_def INT_MAX_def)
  next
    case False
    then have k: "k < 22" using Suc.prems(2) by simp
    have fits: "length (vsn_text ?m txt) \<le> nat ?m" by (rule vsn_text_length) simp
    have "format_loop (Suc fuel) e txt (2 ^ (8 + k)) h =
      (if ?l < ?m then Inr (?l, Some (lh_next h), put_block (vsn_text ?m txt @ replicate (nat ?m - length (vsn_text ?m txt)) 0) h)
       else format_loop fuel e txt ?m (h\<lparr>lh_next := lh_next h + 1\<rparr>))"
      using malloc_store [OF assms(1) fits,
          of "\<lambda>p h'. if ?l < ?m then Inr (?l, p, h') else bind_res (skynet_free p h') (format_loop fuel e txt ?m)" h]
      by (simp only: format_loop.simps pow_double c_int_ok [OF pow_in_int [OF k]] bind_res_simps Let_def len
          free_put [OF Suc.prems(1)])
    note step = this
    show ?thesis
    proof (cases "?l < ?m")
      case True
      moreover have "?l < 2 ^ 30" using k by (intro less_le_trans [OF True] power_increasing) simp_all
      ultimately show ?thesis using step by (auto simp: vsn_text_whole intro!: exI [of _ "lh_next h"])
    next
      case False
      then have "?m \<le> ?l" by simp
      moreover have "Suc k \<le> 22" "22 - Suc k < fuel" using k Suc.prems(3) by linarith+
      moreover have "format_loop (Suc fuel) e txt (2 ^ (8 + k)) h = format_loop fuel e txt ?m (h\<lparr>lh_next := lh_next h + 1\<rparr>)"
        using step False by (simp only: if_False)
      ultimately show ?thesis using Suc.IH [OF fresh_next [OF Suc.prems(1)], of "Suc k"]
        by (auto simp del: format_loop.simps power_Suc split: if_splits dest: Suc_leD)
    qed
  qed
qed simp

lemma takeWhile_whole: "0 \<notin> set txt \<Longrightarrow> takeWhile (\<lambda>b. b \<noteq> 0) (txt @ 0 # t) = (txt :: byte list)"
  by (subst takeWhile_append2) auto

lemma format_message_ok:
  assumes "log_ok e" and "int (length txt) \<le> INT_MAX" and "fresh h" and "0 \<notin> set txt"
  shows "if int (length txt) < 2 ^ 30
    then \<exists>t n. format_message e txt h = Inr (True, Some n, put_block (txt @ [0] @ t) (h\<lparr>lh_next := n\<rparr>)) \<and> lh_next h \<le> n
    else format_message e txt h = Inl SignedOverflow"
proof (cases "int (length txt) < LOG_MESSAGE_SIZE")
  case True
  have "vsn_len e LOG_MESSAGE_SIZE txt = int (length txt)" using assms(1,2) by (simp add: vsn_len_def log_ok_def)
  moreover have "skynet_strdup e txt h = Inr (Some (lh_next h), put_block (txt @ [0]) h)"
    using malloc_store [OF assms(1), of "txt @ [0]" "int (length txt) + 1" "\<lambda>p h. Inr (p, h)" h]
    by (simp add: skynet_strdup_def)
  ultimately have "format_message e txt h = Inr (True, Some (lh_next h), put_block (txt @ [0]) h)"
    using True takeWhile_whole [OF assms(4), of "[]"] by (simp add: format_message_def Let_def vsn_text_whole)
  then show ?thesis using True by (auto simp: LOG_MESSAGE_SIZE_def intro!: exI [of _ "[]"] exI [of _ "lh_next h"])
next
  case False
  have len: "vsn_len e LOG_MESSAGE_SIZE txt = int (length txt)" using assms(1,2) by (simp add: vsn_len_def log_ok_def)
  have "2 ^ (8 + 0) \<le> int (length txt)" using False by (simp add: LOG_MESSAGE_SIZE_def)
  from format_loop_ok [OF assms(1-3) _ _ this, of 24] show ?thesis
    using False len by (auto simp: format_message_def Let_def LOG_MESSAGE_SIZE_def split: if_splits)
qed

lemma logger_create_release:
  assumes "fresh h"
  shows "\<exists>h'. logger_release (fst (logger_create e h)) (snd (logger_create e h)) = Inr h' \<and> lh_blocks h' = lh_blocks h"
proof -
  have "(lh_blocks h)(lh_next h := None) = lh_blocks h" using assms by (auto simp: fresh_def)
  then show ?thesis by (simp add: logger_create_def logger_release_def skynet_malloc_def skynet_free_def)
qed

lemma beelog_table:
  \<comment> \<open>with what the manual says of the stack, the module is a table with the two functions\<close>
  assumes "checkversion R L" and "\<And>L n m. tables (createtable R L n m) = Map.empty # tables L"
    and "\<And>L m ms l. tables L = m # ms \<Longrightarrow> tables (setfuncs R L l) = (m ++ map_of (rev l)) # ms"
  shows "\<exists>L'. luaopen_beelog R L = Some (1, L') \<and> tables L' = [str ''init'' \<mapsto> Linit, str ''error'' \<mapsto> Lerror] # tables L"
proof -
  have "map_of (rev [(str ''init'', Linit), (str ''error'', Lerror)]) = [str ''init'' \<mapsto> Linit, str ''error'' \<mapsto> Lerror]"
    by (auto simp: str_def)
  then show ?thesis using assms by (simp add: luaopen_beelog_def)
qed

lemma lerror_no_memory:
  assumes "args \<noteq> []" and "\<not> grant e (lh_next h)"
  shows "lerror e args h = Inl NullDeref"
proof -
  have "format_loop 24 e s LOG_MESSAGE_SIZE h = Inl NullDeref" for s
    using assms(2) format_loop.simps(2) [of 23 e s LOG_MESSAGE_SIZE h]
    by (simp add: skynet_malloc_def store_def LOG_MESSAGE_SIZE_def in_intI)
  then show ?thesis
    using assms by (cases args) (simp_all add: lerror_def format_message_def skynet_strdup_def skynet_malloc_def store_def Let_def)
qed

lemma lerror_unformatted:
  assumes "args \<noteq> []" and "\<forall>a. grant e a" and "\<forall>n. fails e n" and "fresh h"
  shows "\<exists>h'. lerror e args h = Inr ([], h') \<and> lh_blocks h' = lh_blocks h \<and> fresh h'"
proof -
  have len: "vsn_len e n s = -1" for n s using assms(3) by (simp add: vsn_len_def)
  have "format_loop 24 e s LOG_MESSAGE_SIZE h =
      Inr (-1, Some (lh_next h), put_block (vsn_text 512 s @ replicate (512 - length (vsn_text 512 s)) 0) h)" for s
    using assms(2) vsn_text_length [of 512 s] format_loop.simps(2) [of 23 e s LOG_MESSAGE_SIZE h]
    by (simp add: skynet_malloc_def store_def fill_def put_block_def LOG_MESSAGE_SIZE_def in_intI len)
  then have "format_message e s h = Inr (False, Some (lh_next h), h\<lparr>lh_next := lh_next h + 1\<rparr>)" for s
    using free_put [OF assms(4)] by (simp add: format_message_def len Let_def)
  then show ?thesis using assms(1) fresh_next [OF assms(4)] by (cases args) (simp_all add: lerror_def)
qed

section \<open>Properties\<close>

text \<open>C32.  \<^verbatim>\<open>lerror\<close> logs its arguments joined by blanks, up to the first zero byte, as one line and gives all
  memory back, however long the text is: the loop that doubles the buffer ends.  From 2^30
  characters on the doubling overflows.  When \<^verbatim>\<open>vsnprintf\<close> fails on every call, and without an argument,
  nothing is logged and no memory is kept; when \<^verbatim>\<open>malloc\<close> always answers NULL the code writes through NULL.\<close>

theorem lerror_logs:
  assumes "log_ok e" and "fresh h" and "args \<noteq> []"
    and "txt = takeWhile (\<lambda>b. b \<noteq> 0) (joined args)" and "int (length txt) \<le> INT_MAX"
  shows "lerror e [] h = Inr ([], h) \<and>
    (if int (length txt) < 2 ^ 30
     then \<exists>h'. lerror e args h = Inr ([txt], h') \<and> lh_blocks h' = lh_blocks h \<and> fresh h'
     else lerror e args h = Inl SignedOverflow) \<and>
    (\<exists>h'. lerror (e\<lparr>fails := \<lambda>_. True\<rparr>) args h = Inr ([], h') \<and> lh_blocks h' = lh_blocks h \<and> fresh h') \<and>
    lerror (e\<lparr>grant := \<lambda>_. False\<rparr>) args h = Inl NullDeref"
proof -
  have failing: "\<exists>h'. lerror (e\<lparr>fails := \<lambda>_. True\<rparr>) args h = Inr ([], h') \<and> lh_blocks h' = lh_blocks h \<and> fresh h'"
      "lerror (e\<lparr>grant := \<lambda>_. False\<rparr>) args h = Inl NullDeref"
    using assms(1-3) by (intro lerror_unformatted lerror_no_memory; simp add: log_ok_def)+
  have nz: "0 \<notin> set txt" using assms(4) by (auto dest: set_takeWhileD)
  note fm = format_message_ok [OF assms(1,5,2) nz]
  show ?thesis
  proof (cases "int (length txt) < 2 ^ 30")
    case True
    then obtain t n where f: "format_message e txt h = Inr (True, Some n, put_block (txt @ [0] @ t) (h\<lparr>lh_next := n\<rparr>))" "lh_next h \<le> n"
      using fm by auto
    have fr: "fresh (h\<lparr>lh_next := n\<rparr>)" using f(2) assms(2) by (simp add: fresh_def)
    have "skynet_free (Some n) (put_block (txt @ [0] @ t) (h\<lparr>lh_next := n\<rparr>)) = Inr (h\<lparr>lh_next := n + 1\<rparr>)"
      using free_put [OF fr] by simp
    moreover have "lh_blocks (put_block (txt @ [0] @ t) (h\<lparr>lh_next := n\<rparr>)) n = Some (txt @ [0] @ t)" by (simp add: put_block_def)
    moreover have "c_str (txt @ [0] @ t) 0 = Inr txt" using c_str_terminated [OF nz, of "[]" t] by simp
    ultimately have "lerror e args h = Inr ([txt], h\<lparr>lh_next := n + 1\<rparr>)"
      using f(1) assms(3,4) by (cases args) (simp_all add: lerror_def)
    moreover have "fresh (h\<lparr>lh_next := n + 1\<rparr>)" using fresh_next [OF fr] by simp
    ultimately show ?thesis using True failing by (simp add: lerror_def)
  next
    case False
    then have "lerror e args h = Inl SignedOverflow" using fm assms(3,4) by (cases args) (simp_all add: lerror_def)
    then show ?thesis using False failing by (simp add: lerror_def [of e "[]"])
  qed
qed

definition lheap_sample :: lheap where
  "lheap_sample = \<lparr>lh_blocks = Map.empty, lh_next = 0\<rparr>"

theorem lerror_logs_witness:
  "\<exists>h'. lerror \<lparr>grant = \<lambda>_. True, fails = \<lambda>_. False\<rparr> [str ''a'', replicate 300 98] lheap_sample =
     Inr ([str ''a '' @ replicate 300 98], h') \<and> lh_blocks h' = Map.empty"
proof -
  have all: "str ''a '' @ replicate 300 98 = takeWhile (\<lambda>b. b \<noteq> 0) (joined [str ''a'', replicate 300 98])"
    by (simp add: str_def takeWhile_replicate)
  show ?thesis
    using lerror_logs [OF _ _ _ all, of "\<lparr>grant = \<lambda>_. True, fails = \<lambda>_. False\<rparr>" lheap_sample]
    by (auto simp: log_ok_def fresh_def lheap_sample_def str_def INT_MAX_def)
qed

end
