(* ===== verification/Sockets.thy ===== *)
theory Sockets
  imports C_Text
begin

text \<open>
  The socket programs: the edge-triggered server \<^verbatim>\<open>epoll_test/server.cpp\<close>, its client \<^verbatim>\<open>client.cpp\<close>, and
  the reading client \<^verbatim>\<open>socket_test/test_socket1.cpp\<close>.  What the kernel answers is an argument: the results of
  the calls made at start, the events of each \<^verbatim>\<open>epoll_wait\<close>, and for each event the descriptor \<^verbatim>\<open>accept\<close>
  returned or what \<^verbatim>\<open>read\<close> delivered.  As documented, \<^verbatim>\<open>read\<close> delivers at most the bytes asked for and \<^verbatim>\<open>epoll_wait\<close>
  at most the events asked for, and a closed descriptor leaves the epoll set.  The loop of the server does not
  end: a run is what it does on a list of batches of events.
\<close>

section \<open>The server\<close>

definition MAXLINE :: int where "MAXLINE = 250"

datatype read_result =
    Got "byte list"
  | Failed bool   \<comment> \<open>-1, with \<^verbatim>\<open>errno == ECONNRESET\<close> or another error\<close>

record epoll_event =
  ev_fd :: int
  ev_in :: bool
  ev_out :: bool
  ev_accept :: int          \<comment> \<open>the answer of \<^verbatim>\<open>accept\<close> should the event lead to it\<close>
  ev_ctl :: bool            \<comment> \<open>whether \<^verbatim>\<open>epoll_ctl\<close> then adds the connection; the program does not look\<close>
  ev_read :: read_result    \<comment> \<open>the answer of \<^verbatim>\<open>read\<close>\<close>

record server =
  sv_line :: "byte list"
  sv_watch :: "int list"    \<comment> \<open>the epoll set\<close>
  sv_open :: "int list"     \<comment> \<open>open connections\<close>
  sv_out :: "byte list list"

definition say :: "byte list \<Rightarrow> server \<Rightarrow> server" where
  "say s sv = sv\<lparr>sv_out := sv_out sv @ [s]\<rparr>"

definition close_fd :: "int \<Rightarrow> server \<Rightarrow> server res" where
  \<comment> \<open>closing a descriptor that is not open would be an error of the program\<close>
  "close_fd fd sv = check (fd \<in> set (sv_open sv)) DanglingPtr (
     Inr (sv\<lparr>sv_open := remove1 fd (sv_open sv), sv_watch := removeAll fd (sv_watch sv)\<rparr>))"

definition setnonblocking :: "int \<Rightarrow> int \<Rightarrow> (int \<Rightarrow> int) \<Rightarrow> int option \<times> byte list list" where
  \<comment> \<open>the flag \<^verbatim>\<open>O_NONBLOCK\<close> and what \<^verbatim>\<open>fcntl\<close> answers to \<^verbatim>\<open>F_GETFL\<close> and \<^verbatim>\<open>F_SETFL\<close>; \<^verbatim>\<open>main\<close> does not call it\<close>
  "setnonblocking nonblock getfl setfl =
     (if getfl < 0 then (Some 1, [str ''fcntl(sock,GETFL)''])
      else let opts = or getfl nonblock in
           if setfl opts < 0 then (Some 1, [str ''fcntl(sock,SETFL,opts)'']) else (None, []))"

definition accept_event :: "epoll_event \<Rightarrow> server \<Rightarrow> int option \<times> server" where
  "accept_event ev sv =
     (let connfd = ev_accept ev in
      if connfd < 0 then (Some (-1), say (str ''connfd < 0'') sv)
      else (None, sv\<lparr>sv_open := connfd # sv_open sv, sv_watch := (if ev_ctl ev then connfd # sv_watch sv else sv_watch sv)\<rparr>))"

definition read_event :: "epoll_event \<Rightarrow> server \<Rightarrow> server res" where
  "read_event ev sv =
     (let sv = say (str ''EPOLLIN'') sv in
      if ev_fd ev < 0 then Inr sv
      else
      bind_res
        (case ev_read ev of
           Failed reset \<Rightarrow>
             bind_res (if reset then close_fd (ev_fd ev) sv else Inr (say (str ''readline error'') sv)) (\<lambda>sv. Inr (-1, sv))
         | Got d \<Rightarrow>
             let sv = sv\<lparr>sv_line := d @ drop (length d) (sv_line sv)\<rparr> in
             bind_res (if d = [] then bind_res (close_fd (ev_fd ev) sv) (\<lambda>sv. Inr (say (str ''client close socket'') sv))
                       else Inr sv) (\<lambda>sv. Inr (int (length d), sv)))
        (\<lambda>(n, sv).
      bind_res (arr_set (sv_line sv) n 10) (\<lambda>line.
      bind_res (c_str line 0) (\<lambda>s.
      Inr (say (str ''read: '' @ s) (sv\<lparr>sv_line := line\<rparr>))))))"

definition handle_event :: "int \<Rightarrow> epoll_event \<Rightarrow> server \<Rightarrow> (int option \<times> server) res" where
  \<comment> \<open>the status the program exits with, if it does\<close>
  "handle_event listenfd ev sv =
     (if ev_fd ev = listenfd then Inr (accept_event ev sv)
      else if ev_in ev then bind_res (read_event ev sv) (\<lambda>sv. Inr (None, sv))
      else Inr (None, sv))"

fun handle_events :: "int \<Rightarrow> epoll_event list \<Rightarrow> server \<Rightarrow> (int option \<times> server) res" where
  "handle_events listenfd [] sv = Inr (None, sv)"
| "handle_events listenfd (ev # evs) sv =
     bind_res (handle_event listenfd ev sv) (\<lambda>(st, sv).
     if st \<noteq> None then Inr (st, sv) else handle_events listenfd evs sv)"

fun serve :: "int \<Rightarrow> epoll_event list option list \<Rightarrow> server \<Rightarrow> (int option \<times> server) res" where
  \<comment> \<open>the endless loop on the batches that \<^verbatim>\<open>epoll_wait\<close> delivers, \<open>None\<close> when it fails with -1\<close>
  "serve listenfd [] sv = Inr (None, sv)"
| "serve listenfd (None # batches) sv = serve listenfd batches (say (str ''wake up: '' @ dec (-1)) sv)"
| "serve listenfd (Some evs # batches) sv =
     bind_res (handle_events listenfd evs (say (str ''wake up: '' @ dec (int (length evs))) sv)) (\<lambda>(st, sv).
     if st \<noteq> None then Inr (st, sv) else serve listenfd batches sv)"

definition server_main :: "int \<Rightarrow> bool \<Rightarrow> int \<Rightarrow> int \<Rightarrow> epoll_event list option list \<Rightarrow> (int option \<times> server) res" where
  \<comment> \<open>the answers of \<^verbatim>\<open>socket\<close>, \<^verbatim>\<open>bind\<close> and \<^verbatim>\<open>listen\<close>, and whether \<^verbatim>\<open>epoll_ctl\<close> adds the listening socket; it does not
    when \<^verbatim>\<open>epoll_create\<close> failed, and the program looks at neither\<close>
  "server_main sock ctl bnd lst batches =
     (let sv = \<lparr>sv_line = replicate (nat MAXLINE) 0, sv_watch = [], sv_open = [], sv_out = []\<rparr>;
          listenfd = sock in
      if listenfd = -1 then Inr (Some (-1), say (str ''create socket failed'') sv)
      else let sv = sv\<lparr>sv_watch := (if ctl then [listenfd] else [])\<rparr> in
      if bnd = -1 then Inr (Some (-1), say (str ''bind failed'') sv)
      else if lst = -1 then Inr (Some (-1), say (str ''listen failed'') sv)
      else serve listenfd batches sv)"

section \<open>The clients\<close>

definition epoll_client :: "int \<Rightarrow> int \<Rightarrow> read_result \<Rightarrow> (int \<times> byte list) res" where
  \<comment> \<open>\<^verbatim>\<open>client.cpp\<close>: one \<^verbatim>\<open>recv\<close> of at most 120 bytes into a zeroed array of 120 bytes, printed as a string; the
    answers of \<^verbatim>\<open>socket\<close> and \<^verbatim>\<open>connect\<close> are not looked at\<close>
  "epoll_client sock conn r =
     (let buf = replicate 120 0;
          buf = (case r of Got d \<Rightarrow> d @ drop (length d) buf | Failed _ \<Rightarrow> buf) in
      bind_res (c_str buf 0) (\<lambda>s. Inr (0, s)))"

fun recv_loop :: "(byte list \<Rightarrow> bool) \<Rightarrow> read_result list \<Rightarrow> byte list \<Rightarrow> byte list list \<Rightarrow> (int \<times> byte list list) res" where
  \<comment> \<open>the loop of \<^verbatim>\<open>test_socket1.cpp\<close> on the answers of \<^verbatim>\<open>read\<close>: the last \<^verbatim>\<open>n\<close> and what is written; \<open>puts\<close> says
    which strings \<^verbatim>\<open>fputs\<close> can write\<close>
  "recv_loop puts [] recvline out = Inl Diverges"
| "recv_loop puts (Failed _ # rs) recvline out = Inr (-1, out)"
| "recv_loop puts (Got d # rs) recvline out =
     (if d = [] then Inr (0, out)
      else let recvline = d @ drop (length d) recvline in
           bind_res (arr_set recvline (int (length d)) 0) (\<lambda>recvline.
           bind_res (c_str recvline 0) (\<lambda>s.
           recv_loop puts rs recvline (out @ [if puts s then s else str ''fputs error'']))))"

record socket_env =
  sk_socket :: int
  sk_errno :: "32 word"
  sk_pton :: "byte list \<Rightarrow> int"
  sk_connect :: "16 word \<Rightarrow> int"
  sk_puts :: "byte list \<Rightarrow> bool"
  sk_reads :: "read_result list"
  sk_junk :: "byte list"   \<comment> \<open>the array \<^verbatim>\<open>recvline\<close> before anything was stored in it\<close>

definition socket_main :: "socket_env \<Rightarrow> byte list list \<Rightarrow> (int \<times> byte list list) res" where
  "socket_main e argv =
     (if length argv \<noteq> 3 then Inr (0, [])
      else if sk_socket e = -1 then Inr (-1, [str ''create socket failed. err='' @ udec (sk_errno e)])
      else if sk_pton e (argv ! 1) < 0 then Inr (-1, [str ''inet_pton error for '' @ argv ! 1])
      else if sk_connect e (word_of_int (atoi (argv ! 2))) < 0 then Inr (0, [str ''connect error''])
      else bind_res (recv_loop (sk_puts e) (sk_reads e) (sk_junk e) []) (\<lambda>(n, out).
           Inr (0, out @ (if n < 0 then [str ''read error''] else []))))"

section \<open>Invariant of the server\<close>

definition server_inv :: "int \<Rightarrow> server \<Rightarrow> bool" where
  "server_inv l sv \<longleftrightarrow> length (sv_line sv) = 250 \<and> distinct (sv_open sv) \<and>
     l \<notin> set (sv_open sv) \<and> set (sv_watch sv) \<subseteq> insert l (set (sv_open sv))"

definition kernel_ok :: "int \<Rightarrow> server \<Rightarrow> epoll_event \<Rightarrow> bool" where
  \<comment> \<open>events come for descriptors of the epoll set, \<^verbatim>\<open>accept\<close> gives a descriptor that is not in use, \<^verbatim>\<open>read\<close> at
    most the bytes asked for\<close>
  "kernel_ok l sv ev \<longleftrightarrow> ev_fd ev \<in> set (sv_watch sv) \<and> ev_accept ev \<notin> insert l (set (sv_open sv)) \<and>
     0 \<le> ev_fd ev \<and> (\<forall>d. ev_read ev = Got d \<longrightarrow> length d \<le> 250)"

inductive server_run :: "int \<Rightarrow> epoll_event list \<Rightarrow> server \<Rightarrow> bool" for l where
  \<comment> \<open>the server after the events so far, whatever they brought, as long as it has not failed or exited\<close>
  start: "server_run l [] \<lparr>sv_line = replicate 250 0, sv_watch = [l], sv_open = [], sv_out = []\<rparr>"
| wake: "server_run l evs sv \<Longrightarrow> server_run l evs (say s sv)"
| event: "server_run l evs sv \<Longrightarrow> kernel_ok l sv ev \<Longrightarrow> handle_event l ev sv = Inr (None, sv') \<Longrightarrow>
    server_run l (evs @ [ev]) sv'"

definition read_by :: "int \<Rightarrow> epoll_event \<Rightarrow> byte list option" where
  \<comment> \<open>what an event makes the server read\<close>
  "read_by l ev = (if ev_fd ev \<noteq> l \<and> ev_in ev then case ev_read ev of Got d \<Rightarrow> Some d | Failed _ \<Rightarrow> None else None)"

definition line_after :: "byte list list \<Rightarrow> byte list" where
  \<comment> \<open>the line buffer after the reads \<open>ds\<close>: each overwrites the front and puts a newline behind it\<close>
  "line_after ds = foldl (\<lambda>line d. d @ 10 # drop (Suc (length d)) line) (replicate 250 0) ds"

definition overruns :: "int \<Rightarrow> byte list \<Rightarrow> epoll_event \<Rightarrow> bool" where
  \<comment> \<open>the read fails or fills the buffer, or neither the bytes read nor those left behind them hold a zero\<close>
  "overruns l line ev \<longleftrightarrow> ev_fd ev \<noteq> l \<and> ev_in ev \<and>
     (case ev_read ev of Failed _ \<Rightarrow> True | Got d \<Rightarrow> length d = 250 \<or> 0 \<notin> set d \<and> 0 \<notin> set (drop (Suc (length d)) line))"

lemma server_inv_say [simp]: "server_inv l (say s sv) = server_inv l sv"
  by (simp add: server_inv_def say_def)

lemma say_sel [simp]: "sv_line (say s sv) = sv_line sv" "sv_open (say s sv) = sv_open sv" "sv_watch (say s sv) = sv_watch sv"
  by (simp_all add: say_def)

lemma accept_keeps:
  "server_inv l sv \<Longrightarrow> kernel_ok l sv ev \<Longrightarrow> accept_event ev sv = (None, sv') \<Longrightarrow>
    server_inv l sv' \<and> sv_line sv' = sv_line sv \<and>
    (ev_ctl ev \<longrightarrow> set (sv_watch sv) = insert l (set (sv_open sv)) \<longrightarrow> set (sv_watch sv') = insert l (set (sv_open sv')))"
  by (auto simp: accept_event_def Let_def server_inv_def kernel_ok_def split: if_splits)

definition after_read :: "epoll_event \<Rightarrow> byte list \<Rightarrow> server \<Rightarrow> server" where
  \<comment> \<open>the connection is closed when nothing was read\<close>
  "after_read ev d sv =
     (let sv = say (str ''EPOLLIN'') sv; sv = sv\<lparr>sv_line := d @ drop (length d) (sv_line sv)\<rparr> in
      if d = [] then say (str ''client close socket'') (sv\<lparr>sv_open := remove1 (ev_fd ev) (sv_open sv),
        sv_watch := removeAll (ev_fd ev) (sv_watch sv)\<rparr>) else sv)"

lemma read_event_eq:
  assumes "server_inv l sv" and "kernel_ok l sv ev" and "ev_fd ev \<noteq> l" and "ev_read ev = Got d"
  shows "read_event ev sv =
    bind_res (arr_set (d @ drop (length d) (sv_line sv)) (int (length d)) 10) (\<lambda>line.
    bind_res (c_str line 0) (\<lambda>s. Inr (say (str ''read: '' @ s) ((after_read ev d sv)\<lparr>sv_line := line\<rparr>))))"
proof -
  have "ev_fd ev \<in> set (sv_open sv)" "\<not> ev_fd ev < 0" using assms(1-3) by (auto simp: server_inv_def kernel_ok_def)
  then show ?thesis using assms(4)
    by (simp add: read_event_def after_read_def close_fd_def say_def Let_def)
qed

lemma set_line:
  assumes "length line = 250" and "length d \<le> 249"
  shows "arr_set (d @ drop (length d) line) (int (length d)) 10 = Inr (d @ 10 # drop (Suc (length d)) line)"
proof -
  have "drop (length d) line = line ! length d # drop (Suc (length d)) line" using assms by (simp add: Cons_nth_drop_Suc)
  then show ?thesis using assms by (simp add: arr_set_def)
qed

lemma c_str_first: "c_str s 0 = (if 0 \<in> set s then Inr (takeWhile (\<lambda>b. b \<noteq> 0) s) else Inl OutOfBounds)"
  by (simp add: c_str_def)

lemma after_read_sel:
  assumes "server_inv l sv" and "ev_fd ev \<noteq> l" and "length line = 250"
  shows "server_inv l ((after_read ev d sv)\<lparr>sv_line := line\<rparr>)"
    and "set (sv_watch sv) = insert l (set (sv_open sv)) \<Longrightarrow>
      set (sv_watch (after_read ev d sv)) = insert l (set (sv_open (after_read ev d sv)))"
  using assms by (auto simp: server_inv_def after_read_def say_def Let_def)

lemma read_run:
  \<comment> \<open>a read event, in full\<close>
  assumes "server_inv l sv" and "kernel_ok l sv ev" and "ev_fd ev \<noteq> l" and "ev_read ev = Got d"
  defines "line \<equiv> d @ 10 # drop (Suc (length d)) (sv_line sv)"
  shows "read_event ev sv = (if length d = 250 \<or> 0 \<notin> set line then Inl OutOfBounds
    else Inr (say (str ''read: '' @ takeWhile (\<lambda>b. b \<noteq> 0) line) ((after_read ev d sv)\<lparr>sv_line := line\<rparr>)))"
proof -
  have len: "length (sv_line sv) = 250" "length d \<le> 250" using assms(1,2,4) by (simp_all add: server_inv_def kernel_ok_def)
  note eq = read_event_eq [OF assms(1-4)]
  show ?thesis
  proof (cases "length d = 250")
    case True
    then show ?thesis using eq len(1) by (simp add: arr_set_def)
  next
    case False
    then show ?thesis using eq set_line [OF len(1), of d] len(2) by (auto simp: c_str_first line_def)
  qed
qed

lemma event_fault:
  assumes "server_inv l sv" and "kernel_ok l sv ev"
  shows "if overruns l (sv_line sv) ev then handle_event l ev sv = Inl OutOfBounds else \<exists>st sv'. handle_event l ev sv = Inr (st, sv')"
proof (cases "ev_fd ev \<noteq> l \<and> ev_in ev")
  case True
  show ?thesis
  proof (cases "ev_read ev")
    case (Failed r)
    have "ev_fd ev \<in> set (sv_open sv)" "\<not> ev_fd ev < 0" using assms True by (auto simp: server_inv_def kernel_ok_def)
    then show ?thesis using Failed True
      by (simp add: overruns_def handle_event_def read_event_def close_fd_def say_def arr_set_def Let_def)
  next
    case (Got d)
    then show ?thesis using read_run [OF assms conjunct1 [OF True] Got] True by (auto simp: overruns_def handle_event_def)
  qed
next
  case False
  then show ?thesis by (cases "accept_event ev sv") (auto simp: overruns_def handle_event_def)
qed

lemma event_keeps:
  assumes "server_inv l sv" and "kernel_ok l sv ev" and "handle_event l ev sv = Inr (None, sv')"
  shows "server_inv l sv'"
    and "sv_line sv' = (case read_by l ev of None \<Rightarrow> sv_line sv | Some d \<Rightarrow> d @ 10 # drop (Suc (length d)) (sv_line sv))"
    and "ev_ctl ev \<Longrightarrow> set (sv_watch sv) = insert l (set (sv_open sv)) \<Longrightarrow> set (sv_watch sv') = insert l (set (sv_open sv'))"
proof -
  have "server_inv l sv' \<and>
      sv_line sv' = (case read_by l ev of None \<Rightarrow> sv_line sv | Some d \<Rightarrow> d @ 10 # drop (Suc (length d)) (sv_line sv)) \<and>
      (ev_ctl ev \<longrightarrow> set (sv_watch sv) = insert l (set (sv_open sv)) \<longrightarrow> set (sv_watch sv') = insert l (set (sv_open sv')))"
  proof (cases "ev_fd ev \<noteq> l \<and> ev_in ev")
    case True
    then obtain d where d: "ev_read ev = Got d"
      using event_fault [OF assms(1,2)] assms(3) by (cases "ev_read ev") (auto simp: overruns_def)
    let ?line = "d @ 10 # drop (Suc (length d)) (sv_line sv)"
    have sv': "sv' = say (str ''read: '' @ takeWhile (\<lambda>b. b \<noteq> 0) ?line) ((after_read ev d sv)\<lparr>sv_line := ?line\<rparr>)"
      and len: "length d \<noteq> 250"
      using read_run [OF assms(1,2) conjunct1 [OF True] d] assms(3) True by (auto simp: handle_event_def split: if_splits)
    have "length ?line = 250" using len assms(1,2) d by (auto simp: server_inv_def kernel_ok_def)
    from after_read_sel [OF assms(1) conjunct1 [OF True] this] show ?thesis
      using True d by (simp add: sv' read_by_def)
  next
    case False
    then have "read_by l ev = None" by (auto simp: read_by_def)
    moreover have "accept_event ev sv = (None, sv') \<or> sv' = sv" using assms(3) False by (auto simp: handle_event_def split: if_splits)
    ultimately show ?thesis using accept_keeps [OF assms(1,2), of sv'] assms(1) by (elim disjE) simp_all
  qed
  then show "server_inv l sv'"
    "sv_line sv' = (case read_by l ev of None \<Rightarrow> sv_line sv | Some d \<Rightarrow> d @ 10 # drop (Suc (length d)) (sv_line sv))"
    "ev_ctl ev \<Longrightarrow> set (sv_watch sv) = insert l (set (sv_open sv)) \<Longrightarrow> set (sv_watch sv') = insert l (set (sv_open sv'))"
    by simp_all
qed

lemma run_keeps:
  assumes "server_run l evs sv"
  shows "server_inv l sv \<and> sv_line sv = line_after (List.map_filter (read_by l) evs) \<and>
    ((\<forall>ev \<in> set evs. ev_ctl ev) \<longrightarrow> set (sv_watch sv) = insert l (set (sv_open sv)))"
  using assms
proof induction
  case start
  then show ?case by (simp add: server_inv_def line_after_def List.map_filter_def)
next
  case (wake evs sv s)
  then show ?case by simp
next
  case (event evs sv ev sv')
  then show ?case
    using event_keeps [of l sv ev sv']
    by (auto simp: line_after_def List.map_filter_def split: option.splits)
qed

lemma line_after_length: "(\<And>d. d \<in> set ds \<Longrightarrow> length d \<le> 249) \<Longrightarrow> length (line_after ds) = 250"
  by (induction ds rule: rev_induct) (fastforce simp: line_after_def)+

lemma short_reads_zero:
  assumes "\<And>d. d \<in> set ds \<Longrightarrow> length d \<le> 248"
  shows "line_after ds ! 249 = 0"
  using assms
proof (induction ds rule: rev_induct)
  case (snoc d ds)
  have "length (line_after ds) = 250" using snoc.prems by (intro line_after_length) fastforce
  moreover have "length d \<le> 248" "line_after ds ! 249 = 0" using snoc by auto
  ultimately show ?case by (simp add: line_after_def nth_append nth_Cons')
qed (simp add: line_after_def)

lemma short_reads_end:
  assumes "\<And>d. d \<in> set ds \<Longrightarrow> length d \<le> 248" and "n \<le> 249"
  shows "0 \<in> set (drop n (line_after ds))"
proof -
  have "length (line_after ds) = 250" using assms(1) by (intro line_after_length) fastforce
  then have "drop n (line_after ds) ! (249 - n) = 0" "249 - n < length (drop n (line_after ds))"
    using short_reads_zero [of ds] assms by simp_all
  then show ?thesis by (metis nth_mem)
qed

section \<open>The reading client\<close>

definition shown :: "(byte list \<Rightarrow> bool) \<Rightarrow> byte list \<Rightarrow> byte list" where
  \<comment> \<open>what is written for a chunk: its bytes up to the first zero\<close>
  "shown puts d = (let s = takeWhile (\<lambda>b. b \<noteq> 0) d in if puts s then s else str ''fputs error'')"

lemma recv_step:
  assumes "length line = 1025" and "d \<noteq> []" and "length d \<le> 1024"
  shows "\<exists>line'. length line' = 1025 \<and> recv_loop puts (Got d # rs) line out = recv_loop puts rs line' (out @ [shown puts d])"
proof -
  let ?line = "d @ 0 # drop (Suc (length d)) line"
  have "drop (length d) line = line ! length d # drop (Suc (length d)) line" using assms by (simp add: Cons_nth_drop_Suc)
  then have "arr_set (d @ drop (length d) line) (int (length d)) 0 = Inr ?line" using assms by (simp add: arr_set_def)
  moreover have "takeWhile (\<lambda>b. b \<noteq> 0) ?line = takeWhile (\<lambda>b. b \<noteq> 0) d"
    by (auto simp: takeWhile_append takeWhile_eq_all_conv [THEN iffD2])
  ultimately show ?thesis using assms
    by (intro exI [of _ ?line]) (simp add: Let_def c_str_first shown_def)
qed

lemma recv_loop_ok:
  assumes "r = Got [] \<or> (\<exists>x. r = Failed x)" and "length line = 1025" and "\<forall>d \<in> set ds. d \<noteq> [] \<and> length d \<le> 1024"
  shows "recv_loop puts (map Got ds @ r # rs) line out = Inr (if r = Got [] then 0 else -1, out @ map (shown puts) ds)"
  using assms(2,3)
proof (induction ds arbitrary: line out)
  case Nil
  then show ?case using assms(1) by auto
next
  case (Cons d ds)
  then obtain line' where "length line' = 1025"
      "recv_loop puts (Got d # map Got ds @ r # rs) line out = recv_loop puts (map Got ds @ r # rs) line' (out @ [shown puts d])"
    using recv_step [of line d puts "map Got ds @ r # rs" out] by auto
  then show ?case using Cons by simp
qed

section \<open>Properties\<close>

text \<open>C31.  The server in every state it can reach, whatever the events brought: its line buffer is what the reads so
  far wrote, each over the front of the one before; open connections are distinct, the epoll set holds nothing but
  the listening socket and open connections, and all of them unless an \<^verbatim>\<open>epoll_ctl\<close> failed.  The next event
  makes it write or read outside the buffer exactly when the read fails, fills the buffer, or finds no zero in
  its bytes and in those earlier reads left behind them; as long as all reads were of at most 248 bytes, the
  last case needs a read of 249 bytes.  Otherwise the bytes are printed with what was left behind them.\<close>

theorem epoll_server_overrun:
  assumes "server_run l evs sv" and "kernel_ok l sv ev" and "reads = List.map_filter (read_by l) evs"
  shows "sv_line sv = line_after reads \<and> distinct (sv_open sv) \<and> set (sv_watch sv) \<subseteq> insert l (set (sv_open sv)) \<and>
    ((\<forall>ev \<in> set evs. ev_ctl ev) \<longrightarrow> set (sv_watch sv) = insert l (set (sv_open sv))) \<and>
    (if overruns l (line_after reads) ev then handle_event l ev sv = Inl OutOfBounds
     else \<exists>st sv'. handle_event l ev sv = Inr (st, sv')) \<and>
    (\<forall>d. read_by l ev = Some d \<longrightarrow> (\<forall>d' \<in> set reads. length d' \<le> 248) \<longrightarrow>
       (overruns l (line_after reads) ev \<longleftrightarrow> length d = 250 \<or> length d = 249 \<and> 0 \<notin> set d)) \<and>
    (\<forall>d. read_by l ev = Some d \<longrightarrow> d \<noteq> [] \<longrightarrow> \<not> overruns l (line_after reads) ev \<longrightarrow>
       (\<exists>sv'. handle_event l ev sv = Inr (None, sv') \<and> sv_open sv' = sv_open sv \<and>
         sv_out sv' = sv_out sv @ [str ''EPOLLIN'',
           str ''read: '' @ takeWhile (\<lambda>b. b \<noteq> 0) (d @ 10 # drop (Suc (length d)) (line_after reads))]))"
proof -
  have inv: "server_inv l sv" and line: "sv_line sv = line_after reads"
    and all: "(\<forall>ev \<in> set evs. ev_ctl ev) \<longrightarrow> set (sv_watch sv) = insert l (set (sv_open sv))"
    using run_keeps [OF assms(1)] assms(3) by simp_all
  have len: "length (line_after reads) = 250" using inv line by (simp add: server_inv_def)
  have got: "ev_fd ev \<noteq> l" "ev_in ev" "ev_read ev = Got d" "length d \<le> 250" if "read_by l ev = Some d" for d
    using that assms(2) by (auto simp: kernel_ok_def read_by_def split: if_splits read_result.splits)
  have short: "overruns l (line_after reads) ev \<longleftrightarrow> length d = 250 \<or> length d = 249 \<and> 0 \<notin> set d"
    if "read_by l ev = Some d" "\<forall>d' \<in> set reads. length d' \<le> 248" for d
  proof -
    have "0 \<in> set (drop (Suc (length d)) (line_after reads))" if "length d \<le> 248"
      using short_reads_end [of reads "Suc (length d)"] \<open>\<forall>d' \<in> set reads. length d' \<le> 248\<close> that by simp
    then show ?thesis using got [OF that(1)] len by (cases "length d \<le> 248") (auto simp: overruns_def)
  qed
  have shows_line: "\<exists>sv'. handle_event l ev sv = Inr (None, sv') \<and> sv_open sv' = sv_open sv \<and>
         sv_out sv' = sv_out sv @ [str ''EPOLLIN'',
           str ''read: '' @ takeWhile (\<lambda>b. b \<noteq> 0) (d @ 10 # drop (Suc (length d)) (line_after reads))]"
    if "read_by l ev = Some d" "d \<noteq> []" "\<not> overruns l (line_after reads) ev" for d
    using read_run [OF inv assms(2) got(1,3) [OF that(1)]] got [OF that(1)] that(2,3)
    by (auto simp: handle_event_def overruns_def line after_read_def say_def Let_def)
  show ?thesis
    using event_fault [OF inv assms(2)] inv line all short shows_line by (simp add: server_inv_def)
qed

definition ev_sample :: "int \<Rightarrow> int \<Rightarrow> read_result \<Rightarrow> epoll_event" where
  "ev_sample fd conn r = \<lparr>ev_fd = fd, ev_in = True, ev_out = False, ev_accept = conn, ev_ctl = True, ev_read = r\<rparr>"

theorem epoll_server_overrun_witness:
  \<comment> \<open>a harmless read of 249 bytes, after which a read of 248 bytes leaves the buffer\<close>
  "\<exists>sv. server_run 3 [ev_sample 3 5 (Got []), ev_sample 5 6 (Got (0 # replicate 248 65))] sv \<and>
     handle_event 3 (ev_sample 5 6 (Got (replicate 248 66))) sv = Inl OutOfBounds"
proof -
  let ?sv0 = "\<lparr>sv_line = replicate 250 0, sv_watch = [3], sv_open = [], sv_out = []\<rparr>"
  let ?sv1 = "?sv0\<lparr>sv_open := [5], sv_watch := [5, 3]\<rparr>"
  let ?d = "0 # replicate 248 65 :: byte list"
  have run1: "server_run 3 ([] @ [ev_sample 3 5 (Got [])]) ?sv1"
    by (rule server_run.event [OF server_run.start]) (simp_all add: kernel_ok_def handle_event_def accept_event_def ev_sample_def)
  have k1: "kernel_ok 3 ?sv1 (ev_sample 5 6 (Got ?d))" by (simp add: kernel_ok_def ev_sample_def)
  have no1: "\<not> overruns 3 (line_after (List.map_filter (read_by 3) ([] @ [ev_sample 3 5 (Got [])]))) (ev_sample 5 6 (Got ?d))"
    by (simp add: overruns_def ev_sample_def)
  have by1: "read_by 3 (ev_sample 5 6 (Got ?d)) = Some ?d" by (simp add: read_by_def ev_sample_def)
  obtain sv2 where sv2: "handle_event 3 (ev_sample 5 6 (Got ?d)) ?sv1 = Inr (None, sv2)" "sv_open sv2 = [5]"
    using epoll_server_overrun [OF run1 k1 refl] no1 by1 by auto
  note run2 = server_run.event [OF run1 k1 sv2(1)]
  have reads: "List.map_filter (read_by 3) (([] @ [ev_sample 3 5 (Got [])]) @ [ev_sample 5 6 (Got ?d)]) = [?d]"
    by (simp add: List.map_filter_def read_by_def ev_sample_def)
  have "sv_watch sv2 = [5, 3]"
    using sv2(1) by (auto simp: handle_event_def read_event_def ev_sample_def say_def Let_def)
  then have k2: "kernel_ok 3 sv2 (ev_sample 5 6 (Got (replicate 248 66)))"
    using sv2(2) by (simp add: kernel_ok_def ev_sample_def)
  have "drop 249 (line_after [?d]) = [10]" by (simp add: line_after_def)
  then have "overruns 3 (line_after [?d]) (ev_sample 5 6 (Got (replicate 248 66)))" by (simp add: overruns_def ev_sample_def)
  then have "handle_event 3 (ev_sample 5 6 (Got (replicate 248 66))) sv2 = Inl OutOfBounds"
    using epoll_server_overrun [OF run2 k2 refl] reads by simp
  then show ?thesis using run2 by (intro exI [of _ sv2]) simp
qed

text \<open>The reading client ends with its connection and writes, chunk by chunk, what it received, up
  to the first zero byte of each chunk; it stays within its buffer, and a failed read is
  reported after the data.\<close>

lemma socket_client_writes:
  assumes "length argv = 3" and "sk_socket e \<noteq> -1" and "0 \<le> sk_pton e (argv ! 1)"
    and "0 \<le> sk_connect e (word_of_int (atoi (argv ! 2)))" and "length (sk_junk e) = 1025"
    and "sk_reads e = map Got ds @ r # rs" and "r = Got [] \<or> (\<exists>x. r = Failed x)"
    and "\<forall>d \<in> set ds. d \<noteq> [] \<and> length d \<le> 1024"
  shows "socket_main e argv = Inr (0, map (shown (sk_puts e)) ds @ (if r = Got [] then [] else [str ''read error'']))"
  using assms recv_loop_ok [OF assms(7,5,8), of "sk_puts e" rs "[]"] by (simp add: socket_main_def)

definition socket_env_sample :: socket_env where
  "socket_env_sample = \<lparr>sk_socket = 3, sk_errno = 0, sk_pton = \<lambda>_. 1, sk_connect = \<lambda>_. 0, sk_puts = \<lambda>_. True,
     sk_reads = [Got [72, 105], Got [33, 0, 65], Got []], sk_junk = replicate 1025 0\<rparr>"

lemma socket_client_writes_witness:
  "socket_main socket_env_sample [str ''client'', str ''127.0.0.1'', str ''80''] = Inr (0, [[72, 105], [33]])"
  using socket_client_writes [of "[str ''client'', str ''127.0.0.1'', str ''80'']" socket_env_sample "[[72, 105], [33, 0, 65]]" "Got []" "[]"]
  by (simp add: socket_env_sample_def shown_def Let_def)

end
