(* ===== verification/Lua_Host.thy ===== *)
theory Lua_Host
  imports C_Text
begin

text \<open>
  The two programs on top of the Lua library: the C module \<^verbatim>\<open>C_module_test/module.c\<close> and the host program
  \<^verbatim>\<open>lua_and_c/main.c\<close> with its script \<^verbatim>\<open>callC.lua\<close>.  The library is the record \<open>lua\<close>, one field for each function the
  programs call, on an abstract interpreter state \<open>'s\<close> and an abstract type \<open>'d\<close> of doubles.  The semantics of the
  language is the record \<open>lua_values\<close>: a state has a stack of values and a world, which is everything else, and
  reading a global, indexing, calling and assigning may each raise an error and change the world (by a metamethod,
  or by the function that is called).  \<open>lua_documented\<close> collects what the reference manual says of the library in
  these terms, errors for lack of memory and calls that never return aside; the properties take it as a hypothesis.
  \<open>toy\<close> is an interpreter that satisfies it.
\<close>

section \<open>The library\<close>

record ('s, 'd) lua =
  luaL_newstate :: "'s option"
  luaL_openlibs :: "'s \<Rightarrow> 's"
  luaL_dofile :: "'s \<Rightarrow> byte list \<Rightarrow> 's"
  luaL_checknumber :: "'s \<Rightarrow> int \<Rightarrow> 'd option"   \<comment> \<open>\<open>None\<close>: raises a Lua error and does not return\<close>
  luaL_setfuncs :: "'s \<Rightarrow> (byte list \<times> ('s \<Rightarrow> (int \<times> 's) option)) list \<Rightarrow> 's"
  lua_createtable :: "'s \<Rightarrow> int \<Rightarrow> int \<Rightarrow> 's"
  lua_register :: "'s \<Rightarrow> byte list \<Rightarrow> ('s \<Rightarrow> (int \<times> 's) option) \<Rightarrow> 's option"  \<comment> \<open>\<open>None\<close>: raises, as above\<close>
  lua_getglobal :: "'s \<Rightarrow> byte list \<Rightarrow> 's option"
  lua_getfield :: "'s \<Rightarrow> int \<Rightarrow> byte list \<Rightarrow> 's option"
  lua_gettable :: "'s \<Rightarrow> int \<Rightarrow> 's option"
  lua_gettop :: "'s \<Rightarrow> int"
  lua_settop :: "'s \<Rightarrow> int \<Rightarrow> 's"
  lua_pushnumber :: "'s \<Rightarrow> 'd \<Rightarrow> 's"
  lua_pushinteger :: "'s \<Rightarrow> int \<Rightarrow> 's"
  lua_pushstring :: "'s \<Rightarrow> byte list \<Rightarrow> 's"
  lua_isnumber :: "'s \<Rightarrow> int \<Rightarrow> bool"
  lua_isstring :: "'s \<Rightarrow> int \<Rightarrow> bool"
  lua_tonumber :: "'s \<Rightarrow> int \<Rightarrow> 'd"
  lua_tointeger :: "'s \<Rightarrow> int \<Rightarrow> int"
  lua_tostring :: "'s \<Rightarrow> int \<Rightarrow> byte list \<times> 's"  \<comment> \<open>turns a number in place into a string\<close>
  lua_pcall :: "'s \<Rightarrow> int \<Rightarrow> int \<Rightarrow> 's"           \<comment> \<open>without message handler; no program uses the status\<close>
  lua_close :: "'s \<Rightarrow> 's"
  dbl_zero :: 'd
  dbl_add :: "'d \<Rightarrow> 'd \<Rightarrow> 'd"
  dbl_sub :: "'d \<Rightarrow> 'd \<Rightarrow> 'd"
  dbl_print :: "'d \<Rightarrow> byte list"                   \<comment> \<open>\<^verbatim>\<open>%f\<close>\<close>

section \<open>The C module\<close>

definition module_add :: "('s, 'd) lua \<Rightarrow> 's \<Rightarrow> (int \<times> 's) option" where
  "module_add lua L =
     (case luaL_checknumber lua L 1 of None \<Rightarrow> None
      | Some arg1 \<Rightarrow> (case luaL_checknumber lua L 2 of None \<Rightarrow> None
      | Some arg2 \<Rightarrow>
          let ret = dbl_add lua arg1 arg2;
              L = lua_pushnumber lua L ret;
              L = lua_pushstring lua L (str ''hello world'') in
          Some (2, L)))"

definition module_sub :: "('s, 'd) lua \<Rightarrow> 's \<Rightarrow> (int \<times> 's) option" where
  "module_sub lua L =
     (case luaL_checknumber lua L 1 of None \<Rightarrow> None
      | Some arg1 \<Rightarrow> (case luaL_checknumber lua L 2 of None \<Rightarrow> None
      | Some arg2 \<Rightarrow>
          let ret = dbl_sub lua arg1 arg2;
              L = lua_pushnumber lua L ret in
          Some (1, L)))"

definition luaopen_module_core_aa :: "('s, 'd) lua \<Rightarrow> 's \<Rightarrow> int \<times> 's" where
  \<comment> \<open>the registration array ends with a pair of null pointers, which is not counted\<close>
  "luaopen_module_core_aa lua L =
     (let l = [(str ''madd'', module_add lua), (str ''msub'', module_sub lua)];
          L = lua_createtable lua L 0 (int (length l + 1) - 1);
          L = luaL_setfuncs lua L l in
      (1, L))"

section \<open>The host program\<close>

function sum_loop :: "('s, 'd) lua \<Rightarrow> 's \<Rightarrow> int \<Rightarrow> int \<Rightarrow> 'd \<Rightarrow> 'd" where
  "sum_loop lua L i n acc =
     (if i \<le> n then sum_loop lua L (i + 1) n (dbl_add lua acc (lua_tonumber lua L i)) else acc)"
  by pat_completeness auto
termination
  by (relation "measure (\<lambda>(lua, L, i, n, acc). nat (n + 1 - i))") auto

declare sum_loop.simps [simp del]

definition cfunc_add :: "('s, 'd) lua \<Rightarrow> 's \<Rightarrow> (int \<times> 's) option" where
  "cfunc_add lua L =
     (let n = lua_gettop lua L;
          acc = sum_loop lua L 1 n (dbl_zero lua);
          L = lua_pushnumber lua L acc in
      Some (1, L))"

definition show_number :: "('s, 'd) lua \<Rightarrow> byte list \<Rightarrow> 's \<Rightarrow> byte list list" where
  \<comment> \<open>\<^verbatim>\<open>if (lua_isnumber(L, -1) == 1) printf("...=%d\n", (int)lua_tointeger(L, -1))\<close>\<close>
  "show_number lua label L =
     (if lua_isnumber lua L (-1) then [label @ dec (to_int (lua_tointeger lua L (-1)))] else [])"

definition show_string :: "('s, 'd) lua \<Rightarrow> byte list \<Rightarrow> 's \<Rightarrow> byte list list \<times> 's" where
  \<comment> \<open>\<^verbatim>\<open>if (lua_isstring(L, -1) == 1) printf("...=%s\n", lua_tostring(L, -1))\<close>; C stops at a zero byte\<close>
  "show_string lua label L =
     (if lua_isstring lua L (-1)
      then (case lua_tostring lua L (-1) of (s, L) \<Rightarrow> ([label @ takeWhile (\<lambda>b. b \<noteq> 0) s], L))
      else ([], L))"

definition unprotected :: "'a option \<Rightarrow> 'a res" where
  \<comment> \<open>an error that is raised outside of every protected call ends the program\<close>
  "unprotected x = (case x of None \<Rightarrow> Inl Thrown | Some a \<Rightarrow> Inr a)"

definition CcallLua :: "('s, 'd) lua \<Rightarrow> (byte list list \<times> 's) res" where
  \<comment> \<open>the lines printed and the closed state\<close>
  "CcallLua lua =
     (case luaL_newstate lua of None \<Rightarrow> Inl NullDeref
      | Some L \<Rightarrow>
          let L = luaL_openlibs lua L;
              L = luaL_dofile lua L (str ''module.lua'') in
          bind_res (unprotected (lua_getglobal lua L (str ''Obj1''))) (\<lambda>L.
          let out1 = show_number lua (str ''Obj1='') L;
              L = lua_settop lua L 0 in
          bind_res (unprotected (lua_getglobal lua L (str ''Add''))) (\<lambda>L.
          let L = lua_pushinteger lua L 5;
              L = lua_pushinteger lua L 10;
              L = lua_pcall lua L 2 1;
              out2 = show_number lua (str ''Add ret='') L;
              L = lua_settop lua L 0 in
          bind_res (unprotected (lua_getglobal lua L (str ''tt''))) (\<lambda>L.
          bind_res (unprotected (lua_getfield lua L 1 (str ''show''))) (\<lambda>L.
          let L = lua_pushinteger lua L 99;
              L = lua_pcall lua L 1 0 in
          bind_res (unprotected (lua_getfield lua L 1 (str ''name''))) (\<lambda>L.
          let (out3, L) = show_string lua (str ''tt.name='') L;
              L = lua_pushstring lua L (str ''name'') in
          bind_res (unprotected (lua_gettable lua L 1)) (\<lambda>L.
          let (out4, L) = show_string lua (str ''tt[name]='') L;
              L = lua_pushinteger lua L 1 in
          bind_res (unprotected (lua_gettable lua L 1)) (\<lambda>L.
          let out5 = show_number lua (str ''tt[1]='') L in
          Inr (out1 @ out2 @ out3 @ out4 @ out5, lua_close lua L)))))))))"

definition LuaCallC :: "('s, 'd) lua \<Rightarrow> (byte list list \<times> 's) res" where
  "LuaCallC lua =
     (case luaL_newstate lua of None \<Rightarrow> Inl NullDeref
      | Some L \<Rightarrow>
          let L = luaL_openlibs lua L in
          bind_res (unprotected (lua_register lua L (str ''cfunc_add_v'') (cfunc_add lua))) (\<lambda>L.
          let L = luaL_dofile lua L (str ''callC.lua'') in
          bind_res (unprotected (lua_getglobal lua L (str ''aa''))) (\<lambda>L.
          let out = (if lua_isnumber lua L (-1) then [str ''aa='' @ dbl_print lua (lua_tonumber lua L (-1))] else []) in
          Inr (out, lua_close lua L))))"

definition lua_main :: "('s, 'd) lua \<Rightarrow> (int \<times> byte list list) res" where
  "lua_main lua = bind_res (LuaCallC lua) (\<lambda>(out, L). Inr (0, out))"

section \<open>The language\<close>

type_synonym ('w, 'v, 'a) outcome = "('v + 'a) \<times> 'w"   \<comment> \<open>an error object or an answer, and the world afterwards\<close>

record ('s, 'w, 'v, 'd) lua_values =
  vstack :: "'s \<Rightarrow> 'v list"
  world :: "'s \<Rightarrow> 'w"
  vglobal :: "'w \<Rightarrow> byte list \<Rightarrow> ('w, 'v, 'v) outcome"
  vsetglobal :: "'w \<Rightarrow> byte list \<Rightarrow> 'v \<Rightarrow> ('w, 'v, unit) outcome"
  vindex :: "'w \<Rightarrow> 'v \<Rightarrow> 'v \<Rightarrow> ('w, 'v, 'v) outcome"       \<comment> \<open>\<^verbatim>\<open>t[k]\<close>\<close>
  vcall :: "'w \<Rightarrow> 'v \<Rightarrow> 'v list \<Rightarrow> ('w, 'v, 'v list) outcome"
  vplain :: "'w \<Rightarrow> bool"                         \<comment> \<open>the table of the globals has no metamethods\<close>
  vcfun :: "('s \<Rightarrow> (int \<times> 's) option) \<Rightarrow> 'v"      \<comment> \<open>a C function as a value\<close>
  vnumeral :: "byte list \<Rightarrow> 'v"                  \<comment> \<open>the value of a numeral of the source text\<close>
  vnil :: 'v
  of_num :: "'d \<Rightarrow> 'v"
  of_integer :: "int \<Rightarrow> 'v"
  of_string :: "byte list \<Rightarrow> 'v"
  to_num :: "'v \<Rightarrow> 'd option"                     \<comment> \<open>a number, or a string that reads as one\<close>
  to_integer :: "'v \<Rightarrow> int"
  to_string :: "'v \<Rightarrow> byte list option"           \<comment> \<open>a string, or a number\<close>

definition at :: "('s, 'w, 'v, 'd) lua_values \<Rightarrow> 's \<Rightarrow> int \<Rightarrow> 'v" where
  \<comment> \<open>the value at an index: from 1 up at the bottom, from -1 down at the top, nothing outside\<close>
  "at V L i = (let vs = vstack V L; n = int (length vs) in
     if 1 \<le> i \<and> i \<le> n then vs ! nat (i - 1) else if - n \<le> i \<and> i \<le> -1 then vs ! nat (n + i) else vnil V)"

definition holds_at :: "('s, 'w, 'v, 'd) lua_values \<Rightarrow> 's \<Rightarrow> 'v list \<Rightarrow> 'w \<Rightarrow> bool" where
  "holds_at V L vs w \<longleftrightarrow> vstack V L = vs \<and> world V L = w"

definition answered :: "('s, 'w, 'v, 'd) lua_values \<Rightarrow> 's option \<Rightarrow> ('w, 'v, 'a) outcome \<Rightarrow> ('a \<Rightarrow> 'v list) \<Rightarrow> bool" where
  \<comment> \<open>a call of the library raises the error of the operation, or leaves its answer on the stack\<close>
  "answered V x y vs = (case y of (Inl err, w) \<Rightarrow> x = None | (Inr a, w) \<Rightarrow> (\<exists>L'. x = Some L' \<and> holds_at V L' (vs a) w))"

definition adjusted :: "('s, 'w, 'v, 'd) lua_values \<Rightarrow> nat \<Rightarrow> 'v list \<Rightarrow> 'v list" where
  "adjusted V n vs = take n (vs @ replicate n (vnil V))"

definition called :: "('s, 'w, 'v, 'd) lua_values \<Rightarrow> nat \<Rightarrow> 'v + 'v list \<Rightarrow> 'v list" where
  \<comment> \<open>what a protected call leaves: the error object, or as many results as are wanted\<close>
  "called V n r = (case r of Inl err \<Rightarrow> [err] | Inr rs \<Rightarrow> adjusted V n rs)"

definition lua_documented :: "('s, 'd) lua \<Rightarrow> ('s, 'w, 'v, 'd) lua_values \<Rightarrow> bool" where
  "lua_documented lua V \<longleftrightarrow>
     (\<forall>L. lua_gettop lua L = int (length (vstack V L))) \<and>
     (\<forall>L. holds_at V (lua_settop lua L 0) [] (world V L)) \<and>
     (\<forall>L x. holds_at V (lua_pushnumber lua L x) (vstack V L @ [of_num V x]) (world V L)) \<and>
     (\<forall>L i. holds_at V (lua_pushinteger lua L i) (vstack V L @ [of_integer V i]) (world V L)) \<and>
     (\<forall>L s. holds_at V (lua_pushstring lua L s) (vstack V L @ [of_string V s]) (world V L)) \<and>
     (\<forall>L s. answered V (lua_getglobal lua L s) (vglobal V (world V L) s) (\<lambda>v. vstack V L @ [v])) \<and>
     (\<forall>L i s. answered V (lua_getfield lua L i s) (vindex V (world V L) (at V L i) (of_string V s)) (\<lambda>v. vstack V L @ [v])) \<and>
     (\<forall>L i vs k. vstack V L = vs @ [k] \<longrightarrow>
        answered V (lua_gettable lua L i) (vindex V (world V L) (at V L i) k) (\<lambda>v. vs @ [v])) \<and>
     (\<forall>L s f. answered V (lua_register lua L s f) (vsetglobal V (world V L) s (vcfun V f)) (\<lambda>_. vstack V L)) \<and>
     (\<forall>L i. lua_isnumber lua L i \<longleftrightarrow> to_num V (at V L i) \<noteq> None) \<and>
     (\<forall>L i. lua_isstring lua L i \<longleftrightarrow> to_string V (at V L i) \<noteq> None) \<and>
     (\<forall>L i. lua_tonumber lua L i = (case to_num V (at V L i) of None \<Rightarrow> dbl_zero lua | Some x \<Rightarrow> x)) \<and>
     (\<forall>L i. luaL_checknumber lua L i = to_num V (at V L i)) \<and>
     (\<forall>L i. lua_tointeger lua L i = to_integer V (at V L i)) \<and>
     (\<forall>L vs v s. vstack V L = vs @ [v] \<longrightarrow> to_string V v = Some s \<longrightarrow> fst (lua_tostring lua L (-1)) = s \<and>
        holds_at V (snd (lua_tostring lua L (-1))) (vs @ [of_string V s]) (world V L)) \<and>
     (\<forall>L n r vs f args. vstack V L = vs @ [f] @ args \<longrightarrow> int (length args) = n \<longrightarrow>
        holds_at V (lua_pcall lua L n r) (vs @ called V (nat r) (fst (vcall V (world V L) f args))) (snd (vcall V (world V L) f args))) \<and>
     (\<forall>w s v. vplain V w \<longrightarrow> (\<exists>w'. vsetglobal V w s v = (Inr (), w') \<and> vplain V w' \<and> vglobal V w' s = (Inr v, w'))) \<and>
     (\<forall>x. to_num V (of_num V x) = Some x) \<and> to_num V (vnil V) = None"

definition c_protocol :: "('s, 'w, 'v, 'd) lua_values \<Rightarrow> ('s \<Rightarrow> (int \<times> 's) option) \<Rightarrow> bool" where
  \<comment> \<open>a C function finds its arguments on a stack of its own; the values it leaves on top, as many as it says, are its results\<close>
  "c_protocol V f \<longleftrightarrow> (\<forall>w args. \<exists>L. holds_at V L args w \<and>
     (case f L of None \<Rightarrow> (\<exists>err w'. vcall V w (vcfun V f) args = (Inl err, w'))
      | Some (n, L') \<Rightarrow> vcall V w (vcfun V f) args =
          (Inr (drop (length (vstack V L') - nat n) (vstack V L')), world V L')))"

text \<open>The part of the language that \<^verbatim>\<open>callC.lua\<close> uses: assignments of the result of a call, with numerals and
  global names as arguments.  A statement that raises an error ends the chunk.\<close>

datatype lua_atom = Numeral "byte list" | Name "byte list"

datatype lua_stat = Assign_call "byte list" "byte list" "lua_atom list"   \<comment> \<open>\<^verbatim>\<open>x = f(a, ...)\<close>\<close>

fun eval_args :: "('s, 'w, 'v, 'd) lua_values \<Rightarrow> 'w \<Rightarrow> lua_atom list \<Rightarrow> ('w, 'v, 'v list) outcome" where
  "eval_args V w [] = (Inr [], w)"
| "eval_args V w (Numeral s # as) = apfst (map_sum id ((#) (vnumeral V s))) (eval_args V w as)"
| "eval_args V w (Name s # as) =
     (case vglobal V w s of (Inl err, w) \<Rightarrow> (Inl err, w) | (Inr v, w) \<Rightarrow> apfst (map_sum id ((#) v)) (eval_args V w as))"

fun exec_stat :: "('s, 'w, 'v, 'd) lua_values \<Rightarrow> 'w \<Rightarrow> lua_stat \<Rightarrow> ('w, 'v, unit) outcome" where
  "exec_stat V w (Assign_call x f as) =
     (case vglobal V w f of (Inl err, w) \<Rightarrow> (Inl err, w) | (Inr g, w) \<Rightarrow>
     (case eval_args V w as of (Inl err, w) \<Rightarrow> (Inl err, w) | (Inr args, w) \<Rightarrow>
     (case vcall V w g args of (Inl err, w) \<Rightarrow> (Inl err, w) | (Inr rs, w) \<Rightarrow> vsetglobal V w x (hd (adjusted V 1 rs)))))"

fun exec_chunk :: "('s, 'w, 'v, 'd) lua_values \<Rightarrow> 'w \<Rightarrow> lua_stat list \<Rightarrow> ('w, 'v, unit) outcome" where
  "exec_chunk V w [] = (Inr (), w)"
| "exec_chunk V w (s # ss) = (case exec_stat V w s of (Inl err, w) \<Rightarrow> (Inl err, w) | (Inr _, w) \<Rightarrow> exec_chunk V w ss)"

definition callC_lua :: "lua_stat list" where
  "callC_lua = [Assign_call (str ''aa'') (str ''cfunc_add_v'') [Numeral (str ''11.5''), Numeral (str ''12'')]]"

definition runs_file :: "('s, 'd) lua \<Rightarrow> ('s, 'w, 'v, 'd) lua_values \<Rightarrow> byte list \<Rightarrow> lua_stat list \<Rightarrow> bool" where
  \<comment> \<open>\<^verbatim>\<open>luaL_dofile\<close> runs the statements of the file; an error, which it catches, keeps what was done before\<close>
  "runs_file lua V file ss \<longleftrightarrow> (\<forall>L. world V (luaL_dofile lua L file) = snd (exec_chunk V (world V L) ss))"

section \<open>Laws of the library\<close>

lemma lua_push:
  assumes "lua_documented lua V" and "holds_at V L vs w"
  shows "holds_at V (lua_pushnumber lua L x) (vs @ [of_num V x]) w" and "holds_at V (lua_pushinteger lua L i) (vs @ [of_integer V i]) w"
    and "holds_at V (lua_pushstring lua L s) (vs @ [of_string V s]) w" and "holds_at V (lua_settop lua L 0) [] w"
  using assms by (simp_all add: lua_documented_def holds_at_def)

lemma lua_read:
  assumes "lua_documented lua V"
  shows "lua_gettop lua L = int (length (vstack V L))" and "lua_isnumber lua L i \<longleftrightarrow> to_num V (at V L i) \<noteq> None"
    and "lua_isstring lua L i \<longleftrightarrow> to_string V (at V L i) \<noteq> None"
    and "lua_tonumber lua L i = (case to_num V (at V L i) of None \<Rightarrow> dbl_zero lua | Some x \<Rightarrow> x)"
    and "luaL_checknumber lua L i = to_num V (at V L i)" and "lua_tointeger lua L i = to_integer V (at V L i)"
    and "to_num V (of_num V x) = Some x" and "to_num V (vnil V) = None"
  using assms by (simp_all add: lua_documented_def)

lemma lua_get:
  assumes "lua_documented lua V" and "holds_at V L vs w"
  shows "answered V (lua_getglobal lua L s) (vglobal V w s) (\<lambda>v. vs @ [v])"
    and "answered V (lua_register lua L s f) (vsetglobal V w s (vcfun V f)) (\<lambda>_. vs)"
    and "answered V (lua_getfield lua L i s) (vindex V w (at V L i) (of_string V s)) (\<lambda>v. vs @ [v])"
    and "vs = us @ [k] \<Longrightarrow> answered V (lua_gettable lua L i) (vindex V w (at V L i) k) (\<lambda>v. us @ [v])"
  using assms unfolding lua_documented_def holds_at_def by metis+

lemma lua_tostring_top:
  assumes "lua_documented lua V" and "holds_at V L (vs @ [v]) w" and "to_string V v = Some s"
  shows "fst (lua_tostring lua L (-1)) = s" and "holds_at V (snd (lua_tostring lua L (-1))) (vs @ [of_string V s]) w"
  using assms unfolding lua_documented_def holds_at_def by metis+

lemma lua_protected:
  assumes "lua_documented lua V" and "holds_at V L (vs @ [f] @ args) w" and "int (length args) = n"
  shows "holds_at V (lua_pcall lua L n r) (vs @ called V (nat r) (fst (vcall V w f args))) (snd (vcall V w f args))"
  using assms unfolding lua_documented_def holds_at_def by metis

lemma lua_plain:
  assumes "lua_documented lua V" and "vplain V w"
  obtains w' where "vsetglobal V w s v = (Inr (), w')" and "vplain V w'" and "vglobal V w' s = (Inr v, w')"
  using assms unfolding lua_documented_def by metis

lemma at_top: "holds_at V L (vs @ [v]) w \<Longrightarrow> at V L (-1) = v"
  by (simp add: at_def holds_at_def Let_def nat_add_distrib)

lemma at_bottom: "holds_at V L (v # vs) w \<Longrightarrow> at V L 1 = v"
  by (simp add: at_def holds_at_def Let_def)

section \<open>Adding\<close>

lemma sum_loop_fold:
  assumes "\<And>i. i < length xs \<Longrightarrow> lua_tonumber lua L (int i + 1) = xs ! i" and "k \<le> length xs"
  shows "sum_loop lua L (int k + 1) (int (length xs)) acc = foldl (dbl_add lua) acc (drop k xs)"
  using assms(2)
proof (induction "length xs - k" arbitrary: k acc)
  case 0
  then show ?case by (subst sum_loop.simps) simp
next
  case (Suc j)
  then have k: "k < length xs" by simp
  have "sum_loop lua L (int (Suc k) + 1) (int (length xs)) (dbl_add lua acc (xs ! k)) =
      foldl (dbl_add lua) (dbl_add lua acc (xs ! k)) (drop (Suc k) xs)"
    using Suc.hyps(1) [of "Suc k" "dbl_add lua acc (xs ! k)"] Suc.hyps(2) k by simp
  moreover have "foldl (dbl_add lua) acc (drop k xs) = foldl (dbl_add lua) (dbl_add lua acc (xs ! k)) (drop (Suc k) xs)"
    using k by (simp add: Cons_nth_drop_Suc [symmetric])
  ultimately show ?case
    using k assms(1) [OF k] by (subst sum_loop.simps) (simp add: add.commute)
qed

definition number_of :: "('s, 'd) lua \<Rightarrow> ('s, 'w, 'v, 'd) lua_values \<Rightarrow> 'v \<Rightarrow> 'd" where
  \<comment> \<open>what \<^verbatim>\<open>lua_tonumber\<close> makes of a value\<close>
  "number_of lua V v = (case to_num V v of None \<Rightarrow> dbl_zero lua | Some x \<Rightarrow> x)"

definition sum_of :: "('s, 'd) lua \<Rightarrow> ('s, 'w, 'v, 'd) lua_values \<Rightarrow> 'v list \<Rightarrow> 'd" where
  "sum_of lua V vs = foldl (dbl_add lua) (dbl_zero lua) (map (number_of lua V) vs)"

lemma cfunc_add_sum:
  assumes doc: "lua_documented lua V" and L: "holds_at V L vs w"
  shows "\<exists>L'. cfunc_add lua L = Some (1, L') \<and> holds_at V L' (vs @ [of_num V (sum_of lua V vs)]) w"
proof -
  let ?xs = "map (number_of lua V) vs"
  have "lua_tonumber lua L (int i + 1) = ?xs ! i" if "i < length ?xs" for i
    using that L by (simp add: lua_read(4) [OF doc] number_of_def at_def holds_at_def Let_def)
  from sum_loop_fold [where xs = ?xs, OF this, of 0]
  have "sum_loop lua L 1 (lua_gettop lua L) (dbl_zero lua) = sum_of lua V vs"
    using L by (simp add: lua_read(1) [OF doc] holds_at_def sum_of_def)
  then show ?thesis using lua_push(1) [OF doc L] by (simp add: cfunc_add_def Let_def)
qed

lemma cfunc_add_called:
  \<comment> \<open>as Lua sees it\<close>
  assumes "lua_documented lua V" and "c_protocol V (cfunc_add lua)"
  shows "vcall V w (vcfun V (cfunc_add lua)) args = (Inr [of_num V (sum_of lua V args)], w)"
proof -
  obtain L where L: "holds_at V L args w" "case cfunc_add lua L of None \<Rightarrow> (\<exists>err w'. vcall V w (vcfun V (cfunc_add lua)) args = (Inl err, w'))
      | Some (n, L') \<Rightarrow> vcall V w (vcfun V (cfunc_add lua)) args = (Inr (drop (length (vstack V L') - nat n) (vstack V L')), world V L')"
    using assms(2) unfolding c_protocol_def by blast
  with cfunc_add_sum [OF assms(1) L(1)] show ?thesis by (auto simp: holds_at_def)
qed

section \<open>Calling Lua\<close>

definition number_line :: "('s, 'w, 'v, 'd) lua_values \<Rightarrow> byte list \<Rightarrow> 'v \<Rightarrow> byte list list" where
  "number_line V label v = (if to_num V v = None then [] else [label @ dec (to_int (to_integer V v))])"

definition string_line :: "('s, 'w, 'v, 'd) lua_values \<Rightarrow> byte list \<Rightarrow> 'v \<Rightarrow> byte list list" where
  "string_line V label v = (case to_string V v of None \<Rightarrow> [] | Some s \<Rightarrow> [label @ takeWhile (\<lambda>b. b \<noteq> 0) s])"

definition run_or_end :: "('w, 'v, 'a) outcome \<Rightarrow> ('a \<times> 'w) res" where
  \<comment> \<open>outside of a protected call an error ends the program\<close>
  "run_or_end x = (case x of (Inl err, w) \<Rightarrow> Inl Thrown | (Inr a, w) \<Rightarrow> Inr (a, w))"

definition ccall_spec :: "('s, 'w, 'v, 'd) lua_values \<Rightarrow> 'w \<Rightarrow> (byte list list \<times> 'w) res" where
  \<comment> \<open>the program without a stack: each value is named\<close>
  "ccall_spec V w =
     bind_res (run_or_end (vglobal V w (str ''Obj1''))) (\<lambda>(obj, w).
     bind_res (run_or_end (vglobal V w (str ''Add''))) (\<lambda>(add, w).
     let (r, w) = vcall V w add [of_integer V 5, of_integer V 10] in
     bind_res (run_or_end (vglobal V w (str ''tt''))) (\<lambda>(tt, w).
     bind_res (run_or_end (vindex V w tt (of_string V (str ''show'')))) (\<lambda>(f, w).
     let (q, w) = vcall V w f [of_integer V 99] in
     bind_res (run_or_end (vindex V w tt (of_string V (str ''name'')))) (\<lambda>(name1, w).
     bind_res (run_or_end (vindex V w tt (of_string V (str ''name'')))) (\<lambda>(name2, w).
     bind_res (run_or_end (vindex V w tt (of_integer V 1))) (\<lambda>(x, w).
     Inr (number_line V (str ''Obj1='') obj @ number_line V (str ''Add ret='') (hd (called V 1 r)) @
       string_line V (str ''tt.name='') name1 @ string_line V (str ''tt[name]='') name2 @
       number_line V (str ''tt[1]='') x, w))))))))"

definition closes :: "('s, 'd) lua \<Rightarrow> ('s, 'w, 'v, 'd) lua_values \<Rightarrow> (byte list list \<times> 's) res \<Rightarrow>
    (byte list list \<times> 'w) res \<Rightarrow> bool" where
  \<comment> \<open>the same fault, or the same lines and a state with the same world, which is closed\<close>
  "closes lua V x y = (case y of Inl err \<Rightarrow> x = Inl err
     | Inr (out, w) \<Rightarrow> (\<exists>L. x = Inr (out, lua_close lua L) \<and> world V L = w))"

lemma closes_bind:
  assumes "answered V x y vs" and "\<And>L a w. y = (Inr a, w) \<Longrightarrow> holds_at V L (vs a) w \<Longrightarrow> closes lua V (k L) (k' a w)"
  shows "closes lua V (bind_res (unprotected x) k) (bind_res (run_or_end y) (\<lambda>(a, w). k' a w))"
proof -
  obtain r w where y: "y = (r, w)" by (cases y)
  show ?thesis
  proof (cases r)
    case (Inl err)
    then show ?thesis using assms(1) y by (simp add: answered_def unprotected_def run_or_end_def closes_def)
  next
    case (Inr a)
    then show ?thesis using assms y by (auto simp: answered_def unprotected_def run_or_end_def)
  qed
qed

lemma show_number_top:
  "lua_documented lua V \<Longrightarrow> holds_at V L (vs @ [v]) w \<Longrightarrow> show_number lua label L = number_line V label v"
  by (simp add: show_number_def number_line_def lua_read at_top)

lemma show_string_top:
  assumes doc: "lua_documented lua V" and top: "holds_at V L (vs @ [v]) w"
  obtains L' v' where "show_string lua label L = (string_line V label v, L')" and "holds_at V L' (vs @ [v']) w"
proof (cases "to_string V v")
  case None
  then show thesis
    using that [of L v] top by (simp add: show_string_def string_line_def lua_read(3) [OF doc] at_top)
next
  case (Some s)
  obtain s' L' where L': "lua_tostring lua L (-1) = (s', L')" by (cases "lua_tostring lua L (-1)")
  then have "s' = s" "holds_at V L' (vs @ [of_string V s]) w"
    using lua_tostring_top [OF doc top Some] by simp_all
  then show thesis
    using that [of L' "of_string V s"] L' Some top
    by (simp add: show_string_def string_line_def lua_read(3) [OF doc] at_top)
qed

lemma called_one: "called V (nat 1) r = [hd (called V 1 r)]"
  by (cases r; cases "projr r") (simp_all add: called_def adjusted_def)

lemma get_bottom:
  assumes doc: "lua_documented lua V"
  shows "holds_at V L (t # vs) w \<Longrightarrow> answered V (lua_getfield lua L 1 s) (vindex V w t (of_string V s)) (\<lambda>v. (t # vs) @ [v])"
    and "holds_at V L ((t # vs) @ [k]) w \<Longrightarrow> answered V (lua_gettable lua L 1) (vindex V w t k) (\<lambda>v. (t # vs) @ [v])"
  using lua_get(3) [OF doc, of L "t # vs" w 1 s] lua_get(4) [OF doc, of L "(t # vs) @ [k]" w "t # vs" k 1]
    at_bottom [of V L t] by auto

lemma tt_part:
  \<comment> \<open>from \<^verbatim>\<open>tt.show(99)\<close> on the table stays at the bottom of the stack, whether or not the call failed\<close>
  assumes doc: "lua_documented lua V" and L: "holds_at V L [tt] w"
  shows "closes lua V
    (bind_res (unprotected (lua_getfield lua L 1 (str ''show''))) (\<lambda>L.
     bind_res (unprotected (lua_getfield lua (lua_pcall lua (lua_pushinteger lua L 99) 1 0) 1 (str ''name''))) (\<lambda>L.
     case show_string lua (str ''tt.name='') L of (out3, L) \<Rightarrow>
     bind_res (unprotected (lua_gettable lua (lua_pushstring lua L (str ''name'')) 1)) (\<lambda>L.
     case show_string lua (str ''tt[name]='') L of (out4, L) \<Rightarrow>
     bind_res (unprotected (lua_gettable lua (lua_pushinteger lua L 1) 1)) (\<lambda>L.
     Inr (out1 @ out2 @ out3 @ out4 @ show_number lua (str ''tt[1]='') L, lua_close lua L))))))
    (bind_res (run_or_end (vindex V w tt (of_string V (str ''show'')))) (\<lambda>(f, w).
     case vcall V w f [of_integer V 99] of (q, w) \<Rightarrow>
     bind_res (run_or_end (vindex V w tt (of_string V (str ''name'')))) (\<lambda>(name1, w).
     bind_res (run_or_end (vindex V w tt (of_string V (str ''name'')))) (\<lambda>(name2, w).
     bind_res (run_or_end (vindex V w tt (of_integer V 1))) (\<lambda>(x, w).
     Inr (out1 @ out2 @ string_line V (str ''tt.name='') name1 @ string_line V (str ''tt[name]='') name2 @
       number_line V (str ''tt[1]='') x, w))))))"
proof (rule closes_bind [OF get_bottom(1) [OF doc L]], goal_cases)
  case (1 L1 f w1)
  obtain q w2 where q: "vcall V w1 f [of_integer V 99] = (q, w2)" by fastforce
  define e where "e = called V 0 q"
  have L2: "holds_at V (lua_pcall lua (lua_pushinteger lua L1 99) 1 0) (tt # e) w2"
    using lua_protected [OF doc, of _ "[tt]" f "[of_integer V 99]" w1 1 0] lua_push(2) [OF doc 1(2), of 99] q by (simp add: e_def)
  show ?case
    unfolding q prod.case
  proof (rule closes_bind [OF get_bottom(1) [OF doc L2]], goal_cases)
    case (1 L3 name1 w3)
    obtain L4 v4 where L4: "show_string lua (str ''tt.name='') L3 = (string_line V (str ''tt.name='') name1, L4)"
        "holds_at V L4 ((tt # e) @ [v4]) w3"
      by (rule show_string_top [OF doc 1(2)])
    show ?case
      unfolding L4(1) prod.case
    proof (rule closes_bind [OF get_bottom(2) [OF doc, of _ _ "e @ [v4]"]], goal_cases)
      case 1
      then show ?case using lua_push(3) [OF doc L4(2), of "str ''name''"] by simp
    next
      case (2 L5 name2 w5)
      obtain L6 v6 where L6: "show_string lua (str ''tt[name]='') L5 = (string_line V (str ''tt[name]='') name2, L6)"
          "holds_at V L6 ((tt # e @ [v4]) @ [v6]) w5"
        by (rule show_string_top [OF doc 2(2)])
      show ?case
        unfolding L6(1) prod.case
      proof (rule closes_bind [OF get_bottom(2) [OF doc, of _ _ "e @ [v4, v6]"]], goal_cases)
        case 1
        then show ?case using lua_push(2) [OF doc L6(2), of 1] by simp
      next
        case (2 L7 x w7)
        then show ?case using show_number_top [OF doc 2(2)] by (auto simp: closes_def holds_at_def)
      qed
    qed
  qed
qed

lemma CcallLua_closes:
  assumes doc: "lua_documented lua V" and new: "luaL_newstate lua = Some L0"
    and W: "W = luaL_dofile lua (luaL_openlibs lua L0) (str ''module.lua'')"
  shows "closes lua V (CcallLua lua) (ccall_spec V (world V W))"
proof -
  note push = lua_push [OF doc] and get = lua_get [OF doc]
  have W0: "holds_at V W (vstack V W) (world V W)" by (simp add: holds_at_def)
  show ?thesis
    unfolding CcallLua_def ccall_spec_def new option.case W [symmetric] Let_def
  proof (rule closes_bind [OF get(1) [OF W0]], goal_cases)
    case (1 L1 obj w1)
    note n1 = show_number_top [OF doc 1(2)]
    show ?case
    proof (rule closes_bind [OF get(1) [OF push(4) [OF 1(2)]]], goal_cases)
      case (1 L2 add w2)
      obtain r w3 where r: "vcall V w2 add [of_integer V 5, of_integer V 10] = (r, w3)" by fastforce
      define L3 where "L3 = lua_pcall lua (lua_pushinteger lua (lua_pushinteger lua L2 5) 10) 2 1"
      have L3: "holds_at V L3 ([] @ [hd (called V 1 r)]) w3"
        using lua_protected [OF doc, of _ "[]" add "[of_integer V 5, of_integer V 10]" w2 2 1] push(2) [OF push(2) [OF 1(2)]] r
          called_one [of V r] by (simp add: L3_def)
      note n2 = show_number_top [OF doc L3]
      show ?case
        unfolding r prod.case L3_def [symmetric] n1 n2
        by (rule closes_bind [OF get(1) [OF push(4) [OF L3]]], rule tt_part [OF doc]) simp
    qed
  qed
qed

section \<open>Called from Lua\<close>

lemma callC_lua_result:
  \<comment> \<open>the script leaves the sum of its two numerals in \<^verbatim>\<open>aa\<close>\<close>
  assumes doc: "lua_documented lua V" and c: "c_protocol V (cfunc_add lua)"
    and w: "vplain V w" "vglobal V w (str ''cfunc_add_v'') = (Inr (vcfun V (cfunc_add lua)), w)"
    and num: "to_num V (vnumeral V (str ''11.5'')) = Some x" "to_num V (vnumeral V (str ''12'')) = Some y"
  obtains w' where "exec_chunk V w callC_lua = (Inr (), w')"
    and "vglobal V w' (str ''aa'') = (Inr (of_num V (dbl_add lua (dbl_add lua (dbl_zero lua) x) y)), w')"
proof -
  let ?s = "of_num V (dbl_add lua (dbl_add lua (dbl_zero lua) x) y)"
  obtain w' where w': "vsetglobal V w (str ''aa'') ?s = (Inr (), w')" "vglobal V w' (str ''aa'') = (Inr ?s, w')"
    by (rule lua_plain [OF doc w(1)])
  have "of_num V (sum_of lua V [vnumeral V (str ''11.5''), vnumeral V (str ''12'')]) = ?s"
    using num by (simp add: sum_of_def number_of_def)
  then have "exec_chunk V w callC_lua = (Inr (), w')"
    using w(2) w'(1) cfunc_add_called [OF doc c, of w] by (simp add: callC_lua_def adjusted_def)
  then show thesis using that w'(2) by blast
qed

lemma LuaCallC_prints:
  assumes doc: "lua_documented lua V" and new: "luaL_newstate lua = Some L"
    and plain: "vplain V (world V (luaL_openlibs lua L))" and c: "c_protocol V (cfunc_add lua)"
    and script: "runs_file lua V (str ''callC.lua'') callC_lua"
    and num: "to_num V (vnumeral V (str ''11.5'')) = Some x" "to_num V (vnumeral V (str ''12'')) = Some y"
  shows "\<exists>L'. LuaCallC lua = Inr ([str ''aa='' @ dbl_print lua (dbl_add lua (dbl_add lua (dbl_zero lua) x) y)], lua_close lua L')"
proof -
  let ?s = "dbl_add lua (dbl_add lua (dbl_zero lua) x) y" and ?L = "luaL_openlibs lua L"
  obtain w1 where w1: "vsetglobal V (world V ?L) (str ''cfunc_add_v'') (vcfun V (cfunc_add lua)) = (Inr (), w1)" "vplain V w1"
      "vglobal V w1 (str ''cfunc_add_v'') = (Inr (vcfun V (cfunc_add lua)), w1)"
    by (rule lua_plain [OF doc plain])
  have "holds_at V ?L (vstack V ?L) (world V ?L)" by (simp add: holds_at_def)
  from lua_get(2) [OF doc this, of "str ''cfunc_add_v''" "cfunc_add lua"]
  obtain L1 where L1: "lua_register lua ?L (str ''cfunc_add_v'') (cfunc_add lua) = Some L1" "world V L1 = w1"
    using w1(1) by (auto simp: answered_def holds_at_def)
  let ?W = "luaL_dofile lua L1 (str ''callC.lua'')"
  obtain w2 where w2: "exec_chunk V w1 callC_lua = (Inr (), w2)" "vglobal V w2 (str ''aa'') = (Inr (of_num V ?s), w2)"
    by (rule callC_lua_result [OF doc c w1(2,3) num])
  have "holds_at V ?W (vstack V ?W) w2" using script w2(1) L1(2) by (simp add: runs_file_def holds_at_def)
  from lua_get(1) [OF doc this, of "str ''aa''"]
  obtain L2 where L2: "lua_getglobal lua ?W (str ''aa'') = Some L2" "holds_at V L2 (vstack V ?W @ [of_num V ?s]) w2"
    using w2(2) by (auto simp: answered_def)
  show ?thesis
    using new L1(1) L2(1) at_top [OF L2(2)] lua_read(2,4,7) [OF doc] by (auto simp: LuaCallC_def unprotected_def Let_def)
qed

lemma module_results:
  assumes doc: "lua_documented lua V" and L: "holds_at V L vs w"
  shows "case (to_num V (at V L 1), to_num V (at V L 2)) of
      (Some a, Some b) \<Rightarrow>
        (\<exists>L1 L2. module_add lua L = Some (2, L1) \<and> holds_at V L1 (vs @ [of_num V (dbl_add lua a b), of_string V (str ''hello world'')]) w \<and>
          module_sub lua L = Some (1, L2) \<and> holds_at V L2 (vs @ [of_num V (dbl_sub lua a b)]) w)
    | _ \<Rightarrow> module_add lua L = None \<and> module_sub lua L = None"
proof -
  note num = lua_push(1) [OF doc L]
  have "holds_at V (lua_pushstring lua (lua_pushnumber lua L x) s) (vs @ [of_num V x, of_string V s]) w" for x s
    using lua_push(3) [OF doc num] by simp
  with num show ?thesis
    by (auto simp: module_add_def module_sub_def Let_def lua_read(5) [OF doc] split: option.splits)
qed

section \<open>An interpreter for the examples\<close>

text \<open>A double is a number of millionths.  The globals are the world; \<open>TSum\<close> is the one C function that is
  registered.  The file \<^verbatim>\<open>module.lua\<close> may be missing.\<close>

datatype tv = TNil | TNum int | TStr "byte list" | TTab | TAdd | TShow | TSum

record toy =
  t_stack :: "tv list"
  t_glob :: "byte list \<Rightarrow> tv"

definition toy_digits :: "byte list \<Rightarrow> int" where
  "toy_digits s = foldl (\<lambda>n b. n * 10 + (uint b - 48)) 0 s"

definition toy_numeral :: "byte list \<Rightarrow> int" where
  "toy_numeral s = toy_digits (takeWhile (\<lambda>b. b \<noteq> 46) s @
     take 6 (tl (dropWhile (\<lambda>b. b \<noteq> 46) s) @ [48, 48, 48, 48, 48, 48]))"

definition toy_print :: "int \<Rightarrow> byte list" where
  "toy_print x = dec (x div 1000000) @ str ''.'' @ tl (dec (1000000 + x mod 1000000))"

definition toy_num :: "tv \<Rightarrow> int option" where
  "toy_num v = (case v of TNum n \<Rightarrow> Some n | _ \<Rightarrow> None)"

definition toy_index :: "tv \<Rightarrow> tv \<Rightarrow> tv + tv" where
  "toy_index v k = (if v \<noteq> TTab then Inl (TStr (str ''attempt to index''))
     else Inr (if k = TStr (str ''name'') then TStr (str ''kk'') else if k = TNum 1000000 then TNum 10000000
       else if k = TStr (str ''show'') then TShow else TNil))"

definition toy_call :: "(byte list \<Rightarrow> tv) \<Rightarrow> tv \<Rightarrow> tv list \<Rightarrow> (tv + tv list) \<times> (byte list \<Rightarrow> tv)" where
  "toy_call w f args = (case (f, args) of
       (TAdd, [TNum a, TNum b]) \<Rightarrow> (Inr [TNum (a + b)], w)
     | (TShow, [v]) \<Rightarrow> (Inr [], w(str ''shown'' := v))
     | (TSum, vs) \<Rightarrow> (Inr [TNum (foldl (+) 0 (map (\<lambda>v. case toy_num v of None \<Rightarrow> 0 | Some n \<Rightarrow> n) vs))], w)
     | _ \<Rightarrow> (Inl (TStr (str ''attempt to call'')), w))"

definition toy_values :: "(toy, byte list \<Rightarrow> tv, tv, int) lua_values" where
  "toy_values = \<lparr>vstack = t_stack, world = t_glob, vglobal = (\<lambda>w s. (Inr (w s), w)), vsetglobal = (\<lambda>w s v. (Inr (), w(s := v))),
     vindex = (\<lambda>w v k. (toy_index v k, w)), vcall = toy_call, vplain = (\<lambda>w. True), vcfun = (\<lambda>f. TSum),
     vnumeral = (\<lambda>s. TNum (toy_numeral s)), vnil = TNil, of_num = TNum, of_integer = (\<lambda>i. TNum (i * 1000000)), of_string = TStr,
     to_num = toy_num, to_integer = (\<lambda>v. case v of TNum n \<Rightarrow> n div 1000000 | _ \<Rightarrow> 0),
     to_string = (\<lambda>v. case v of TStr s \<Rightarrow> Some s | TNum n \<Rightarrow> Some (toy_print n) | _ \<Rightarrow> None)\<rparr>"

definition toy_push :: "toy \<Rightarrow> tv \<Rightarrow> toy" where
  "toy_push L v = L\<lparr>t_stack := t_stack L @ [v]\<rparr>"

definition toy_dofile :: "bool \<Rightarrow> toy \<Rightarrow> byte list \<Rightarrow> toy" where
  "toy_dofile found L file =
     (if file = str ''callC.lua'' then L\<lparr>t_glob := snd (exec_chunk toy_values (t_glob L) callC_lua)\<rparr>
      else if found then L\<lparr>t_glob := (t_glob L)(str ''Obj1'' := TNum 10000000, str ''Add'' := TAdd, str ''tt'' := TTab)\<rparr>
      else toy_push L (TStr (str ''cannot open file'')))"

definition toy_pcall :: "toy \<Rightarrow> int \<Rightarrow> int \<Rightarrow> toy" where
  "toy_pcall L n r =
     (let vs = t_stack L; k = length vs - nat n - 1; x = toy_call (t_glob L) (vs ! k) (drop (Suc k) vs) in
      \<lparr>t_stack = take k vs @ called toy_values (nat r) (fst x), t_glob = snd x\<rparr>)"

definition toy :: "bool \<Rightarrow> (toy, int) lua" where
  "toy found = \<lparr>luaL_newstate = Some \<lparr>t_stack = [], t_glob = \<lambda>_. TNil\<rparr>, luaL_openlibs = id, luaL_dofile = toy_dofile found,
     luaL_checknumber = (\<lambda>L i. to_num toy_values (at toy_values L i)), luaL_setfuncs = (\<lambda>L fs. L),
     lua_createtable = (\<lambda>L i j. toy_push L TTab),
     lua_register = (\<lambda>L s f. Some (L\<lparr>t_glob := (t_glob L)(s := TSum)\<rparr>)),
     lua_getglobal = (\<lambda>L s. Some (toy_push L (t_glob L s))),
     lua_getfield = (\<lambda>L i s. case toy_index (at toy_values L i) (TStr s) of Inl err \<Rightarrow> None | Inr v \<Rightarrow> Some (toy_push L v)),
     lua_gettable = (\<lambda>L i. case toy_index (at toy_values L i) (last (t_stack L)) of Inl err \<Rightarrow> None
       | Inr v \<Rightarrow> Some (L\<lparr>t_stack := butlast (t_stack L) @ [v]\<rparr>)),
     lua_gettop = (\<lambda>L. int (length (t_stack L))), lua_settop = (\<lambda>L i. L\<lparr>t_stack := take (nat i) (t_stack L)\<rparr>),
     lua_pushnumber = (\<lambda>L x. toy_push L (TNum x)), lua_pushinteger = (\<lambda>L i. toy_push L (TNum (i * 1000000))),
     lua_pushstring = (\<lambda>L s. toy_push L (TStr s)),
     lua_isnumber = (\<lambda>L i. to_num toy_values (at toy_values L i) \<noteq> None),
     lua_isstring = (\<lambda>L i. to_string toy_values (at toy_values L i) \<noteq> None),
     lua_tonumber = (\<lambda>L i. case to_num toy_values (at toy_values L i) of None \<Rightarrow> 0 | Some x \<Rightarrow> x),
     lua_tointeger = (\<lambda>L i. to_integer toy_values (at toy_values L i)),
     lua_tostring = (\<lambda>L i. let s = the (to_string toy_values (at toy_values L i)) in
       (s, L\<lparr>t_stack := butlast (t_stack L) @ [TStr s]\<rparr>)),
     lua_pcall = toy_pcall, lua_close = id, dbl_zero = 0, dbl_add = (+), dbl_sub = (-), dbl_print = toy_print\<rparr>"

lemma toy_sel [simp]:
  "vstack toy_values = t_stack" "world toy_values = t_glob" "vglobal toy_values w s = (Inr (w s), w)"
  "vsetglobal toy_values w s v = (Inr (), w(s := v))" "vindex toy_values w v k = (toy_index v k, w)" "vcall toy_values = toy_call"
  "vplain toy_values w" "vcfun toy_values f = TSum" "vnumeral toy_values s = TNum (toy_numeral s)" "vnil toy_values = TNil"
  "of_num toy_values = TNum" "of_integer toy_values i = TNum (i * 1000000)" "of_string toy_values = TStr" "to_num toy_values = toy_num"
  by (simp_all add: toy_values_def)

lemma toy_lib [simp]:
  "luaL_newstate (toy b) = Some \<lparr>t_stack = [], t_glob = \<lambda>_. TNil\<rparr>" "luaL_openlibs (toy b) L = L" "lua_close (toy b) L = L"
  "luaL_dofile (toy b) = toy_dofile b" "dbl_zero (toy b) = 0" "dbl_add (toy b) = (+)" "dbl_print (toy b) = toy_print"
  by (simp_all add: toy_def)

lemma toy_documented: "lua_documented (toy found) toy_values"
proof -
  have "at toy_values L (-1) = v" if "t_stack L = vs @ [v]" for L vs v
    using at_top [of toy_values L vs v] that by (simp add: holds_at_def)
  then show ?thesis
    unfolding lua_documented_def
    by (intro conjI) (auto simp: toy_def toy_push_def toy_pcall_def holds_at_def answered_def Let_def toy_num_def split: sum.splits cong: option.case_cong)
qed

lemma toy_protocol: "c_protocol toy_values (cfunc_add (toy found))"
  unfolding c_protocol_def
proof (intro allI)
  fix w args
  let ?L = "\<lparr>t_stack = args, t_glob = w\<rparr>"
  have L: "holds_at toy_values ?L args w" by (simp add: holds_at_def)
  have "sum_of (toy found) toy_values args = foldl (+) 0 (map (\<lambda>v. case toy_num v of None \<Rightarrow> 0 | Some n \<Rightarrow> n) args)"
    by (simp add: sum_of_def number_of_def [abs_def] cong: option.case_cong)
  then have "toy_call w TSum args = (Inr [TNum (sum_of (toy found) toy_values args)], w)" by (simp add: toy_call_def)
  with cfunc_add_sum [OF toy_documented L, of found]
  show "\<exists>L. holds_at toy_values L args w \<and> (case cfunc_add (toy found) L of
      None \<Rightarrow> (\<exists>err w'. vcall toy_values w (vcfun toy_values (cfunc_add (toy found))) args = (Inl err, w'))
    | Some (n, L') \<Rightarrow> vcall toy_values w (vcfun toy_values (cfunc_add (toy found))) args =
        (Inr (drop (length (vstack toy_values L') - nat n) (vstack toy_values L')), world toy_values L'))"
    using L by (intro exI [of _ ?L] conjI) (auto simp: holds_at_def)
qed

lemma toy_numerals: "toy_numeral (str ''11.5'') = 11500000" "toy_numeral (str ''12'') = 12000000"
  by (simp_all add: toy_numeral_def toy_digits_def str_def)

lemma toy_printed: "toy_print 23500000 = str ''23.500000''"
  by (simp add: toy_print_def dec_def digits.simps str_def)

lemma toy_names: "str ''Add'' \<noteq> str ''Obj1''" "str ''tt'' \<noteq> str ''Obj1''" "str ''tt'' \<noteq> str ''Add''"
  "str ''name'' \<noteq> str ''show''" "str ''module.lua'' \<noteq> str ''callC.lua''" "takeWhile (\<lambda>b. b \<noteq> 0) (str ''kk'') = str ''kk''"
  by (simp_all add: str_def)

section \<open>Properties\<close>

text \<open>C39. \<^verbatim>\<open>CcallLua\<close> addresses the right values of the Lua stack.  Whatever the script leaves behind, and whatever its
  functions and metamethods answer or change, the program does what \<open>ccall_spec\<close> says with named values: it prints
  \<^verbatim>\<open>Obj1\<close>, the result of \<^verbatim>\<open>Add(5, 10)\<close> (or the error object), \<^verbatim>\<open>tt.name\<close> twice, and \<^verbatim>\<open>tt[1]\<close>, each only if it is of the
  expected type; an error of \<^verbatim>\<open>tt.show\<close> stays on the stack and disturbs nothing, an error of an access to a global
  or to \<^verbatim>\<open>tt\<close> ends the program, and without a state the program uses a null pointer.\<close>

theorem lua_calls_out:
  assumes "lua_documented lua V"
  shows "case luaL_newstate lua of None \<Rightarrow> CcallLua lua = Inl NullDeref
    | Some L0 \<Rightarrow>
        let W = luaL_dofile lua (luaL_openlibs lua L0) (str ''module.lua'') in
        (case ccall_spec V (world V W) of Inl err \<Rightarrow> CcallLua lua = Inl err
         | Inr (out, w) \<Rightarrow> (\<exists>L. CcallLua lua = Inr (out, lua_close lua L) \<and> world V L = w))"
proof (cases "luaL_newstate lua")
  case None
  then show ?thesis by (simp add: CcallLua_def)
next
  case (Some L0)
  from CcallLua_closes [OF assms this refl] Some show ?thesis by (simp add: closes_def Let_def)
qed

theorem lua_calls_out_witness:
  "(\<exists>L. CcallLua (toy True) = Inr ([str ''Obj1='' @ dec 10, str ''Add ret='' @ dec 15, str ''tt.name='' @ str ''kk'',
      str ''tt[name]='' @ str ''kk'', str ''tt[1]='' @ dec 10], L) \<and> t_glob L (str ''shown'') = TNum 99000000) \<and>
    CcallLua (toy False) = Inl Thrown"
proof
  let ?L = "\<lparr>t_stack = [], t_glob = \<lambda>_. TNil\<rparr>"
  let ?w = "(t_glob ?L)(str ''Obj1'' := TNum 10000000, str ''Add'' := TAdd, str ''tt'' := TTab)"
  have i: "to_int 10 = 10" "to_int 15 = 15" by (simp_all add: in_intI)
  have w: "t_glob (toy_dofile True ?L (str ''module.lua'')) = ?w" "t_glob (toy_dofile False ?L (str ''module.lua'')) = (\<lambda>_. TNil)"
    using toy_names(5) by (simp_all add: toy_dofile_def toy_push_def)
  have ok: "ccall_spec toy_values ?w = Inr ([str ''Obj1='' @ dec 10, str ''Add ret='' @ dec 15, str ''tt.name='' @ str ''kk'',
      str ''tt[name]='' @ str ''kk'', str ''tt[1]='' @ dec 10], ?w(str ''shown'' := TNum 99000000))"
    using toy_names i by (simp add: ccall_spec_def run_or_end_def toy_index_def toy_call_def called_def adjusted_def
        number_line_def string_line_def toy_num_def toy_values_def del: str_append)
  have bad: "ccall_spec toy_values (\<lambda>_. TNil) = Inl Thrown"
    by (simp add: ccall_spec_def run_or_end_def toy_index_def toy_call_def)
  show "\<exists>L. CcallLua (toy True) = Inr ([str ''Obj1='' @ dec 10, str ''Add ret='' @ dec 15, str ''tt.name='' @ str ''kk'',
      str ''tt[name]='' @ str ''kk'', str ''tt[1]='' @ dec 10], L) \<and> t_glob L (str ''shown'') = TNum 99000000"
    using lua_calls_out [OF toy_documented, of True, unfolded toy_lib toy_sel option.case Let_def w(1) ok sum.case prod.case]
    by (metis fun_upd_same)
  show "CcallLua (toy False) = Inl Thrown"
    using lua_calls_out [OF toy_documented, of False, unfolded toy_lib toy_sel option.case Let_def w(2) bad sum.case] .
qed

text \<open>C40. \<^verbatim>\<open>LuaCallC\<close> registers the C function that \<^verbatim>\<open>callC.lua\<close> calls with 11.5 and 12, and \<^verbatim>\<open>main\<close> prints the sum of
  the two numerals, added from 0 on the left, and returns 0.  Called with any arguments \<^verbatim>\<open>cfunc_add\<close> pushes their sum,
  with 0 for an argument that is no number.  The functions of the module push the sum and a string, or the difference,
  of their first two arguments, and raise an error when one of these is missing or no number.\<close>

theorem lua_calls_in:
  assumes "lua_documented lua V" and "luaL_newstate lua = Some L0" and "vplain V (world V (luaL_openlibs lua L0))"
    and "c_protocol V (cfunc_add lua)" and "runs_file lua V (str ''callC.lua'') callC_lua"
    and "to_num V (vnumeral V (str ''11.5'')) = Some x" and "to_num V (vnumeral V (str ''12'')) = Some y"
  shows "lua_main lua = Inr (0, [str ''aa='' @ dbl_print lua (dbl_add lua (dbl_add lua (dbl_zero lua) x) y)]) \<and>
    (\<forall>L vs w. holds_at V L vs w \<longrightarrow>
      (\<exists>L'. cfunc_add lua L = Some (1, L') \<and> holds_at V L' (vs @ [of_num V (sum_of lua V vs)]) w) \<and>
      (case (to_num V (at V L 1), to_num V (at V L 2)) of
         (Some a, Some b) \<Rightarrow>
           (\<exists>L1 L2. module_add lua L = Some (2, L1) \<and> holds_at V L1 (vs @ [of_num V (dbl_add lua a b), of_string V (str ''hello world'')]) w \<and>
             module_sub lua L = Some (1, L2) \<and> holds_at V L2 (vs @ [of_num V (dbl_sub lua a b)]) w)
       | _ \<Rightarrow> module_add lua L = None \<and> module_sub lua L = None))"
proof (intro conjI allI impI, goal_cases)
  case 1
  show ?case using LuaCallC_prints [OF assms] by (auto simp: lua_main_def)
next
  case (2 L vs w)
  then show ?case by (rule cfunc_add_sum [OF assms(1)])
next
  case (3 L vs w)
  then show ?case by (rule module_results [OF assms(1)])
qed

theorem lua_calls_in_witness: "lua_main (toy True) = Inr (0, [str ''aa='' @ str ''23.500000''])"
proof -
  let ?L = "\<lparr>t_stack = [], t_glob = \<lambda>_. TNil\<rparr>"
  have new: "luaL_newstate (toy True) = Some ?L" by simp
  have plain: "vplain toy_values (world toy_values (luaL_openlibs (toy True) ?L))" by simp
  have script: "runs_file (toy True) toy_values (str ''callC.lua'') callC_lua" by (simp add: runs_file_def toy_dofile_def)
  have num: "to_num toy_values (vnumeral toy_values (str ''11.5'')) = Some 11500000"
    "to_num toy_values (vnumeral toy_values (str ''12'')) = Some 12000000"
    by (simp_all add: toy_num_def toy_numerals)
  have "lua_main (toy True) = Inr (0, [str ''aa='' @ dbl_print (toy True)
      (dbl_add (toy True) (dbl_add (toy True) (dbl_zero (toy True)) 11500000) 12000000)])"
    using lua_calls_in [OF toy_documented new plain toy_protocol script num] by blast
  then show ?thesis by (simp add: toy_printed del: str_append)
qed

end
