(* ===== verification/Spec2Isabelle.thy ===== *)
theory Spec2Isabelle
  imports Gate_Types Id_Table Watchdog Adlist_Access Adlist_Script Tailqueue SearchTree Stl_Alloc Dict Mysql Loggers Sockets Lua_Host
begin

text \<open>
  Verification of the C and C++ programs of this repository that have logic of their own.

  \<^bold>\<open>The programs.\<close>  The repository collects programs written to learn C and C++ libraries.  The
  largest is a network service for the skynet framework, the gate
  (\<^verbatim>\<open>src/skynet_test/skynet/mytest/gate\<close>), with its id table and its receive buffers, and the
  watchdog that starts it (\<^verbatim>\<open>mytest/service_test/cpp\<close>).  The others stand alone: the linked list and the
  dictionary of redis (\<^verbatim>\<open>redis3.0_learn\<close>), the tail queue macros of libevent
  (\<^verbatim>\<open>libevent_test/tailqueueTest\<close>), a binary search tree (\<^verbatim>\<open>tree\<close>), the two-level allocator and the
  vector base of the SGI library (\<^verbatim>\<open>sgi_stl_learn\<close>), a MySQL client class (\<^verbatim>\<open>mysql_api_test\<close>), two
  loggers (\<^verbatim>\<open>lua_test/testglog\<close>, \<^verbatim>\<open>skynet_test/testcluster/cpp/log\<close>), three socket programs
  (\<^verbatim>\<open>epoll_test\<close>, \<^verbatim>\<open>socket_test\<close>), and a C module and a host program for Lua (\<^verbatim>\<open>lua_test/C_module_test\<close>,
  \<^verbatim>\<open>lua_test/lua_and_c\<close>).

  \<^bold>\<open>How C is read\<close> (\<open>C_Base\<close>, \<open>C_Text\<close>).  A function that can go wrong returns \<open>'a res\<close>, that is \<open>c_error + 'a\<close>:
  dereferencing NULL or freed memory, leaving an array, signed overflow, a failed assertion, a missing return
  value and an endless loop are values of \<open>c_error\<close>.  Structures are records in maps from addresses, arrays
  are lists, \<^verbatim>\<open>int\<close> is \<open>int\<close> with its range checked, unsigned types are words.  \<open>lseg\<close> and \<open>dseg\<close>
  describe linked segments of memory and carry the proofs about lists.  \<open>C_Text\<close> has the string functions the
  programs use and the round trips between printing and reading numbers.  \<open>Refinement\<close> has runs of messages and scripts
  of calls: in the locale \<open>refinement\<close> the simulation of one message gives that of every run, in \<open>operations\<close> the
  functional refinement of one call gives that of every script.

  \<^bold>\<open>Theories and sources.\<close>

  \<^item> \<open>Hashid\<close>: \<^verbatim>\<open>hashid.h\<close>.  \<open>hashid\<close> is the structure, \<open>slot_of\<close> the finite map it stands for.  The locale \<open>id_table\<close>
    states the laws of the table (lookup after insert and remove, fullness), interpreted as \<open>hid\<close>; the proofs
    about the gate rest on these.  \<open>Id_Table\<close>: a reference table without hashing, and that every script of calls is answered
    alike (interpretation \<open>idt\<close> of \<open>operations\<close>).
  \<^item> \<open>Databuffer\<close>: \<^verbatim>\<open>databuffer.h\<close>.  Buffers share a pool of message nodes and a memory of blocks; \<open>buffers_hold\<close> says
    which bytes each buffer holds, and that every allocated block is in one of them.  Reading and pushing are
    those of a queue of bytes.
  \<^item> \<open>Gate\<close>: the definitions of \<^verbatim>\<open>service_gate.c\<close>, one for each function and one for each case of the handlers.
    \<open>Framing\<close>: the reference parser \<open>frames\<close> of a byte stream and that the dispatch loop computes it.
    The state \<open>gst\<close> has the gate, the memory, the calls made to the framework and the number of sockets opened so far,
    on which the framework's next id may depend.
    \<open>Gate_State\<close>: the invariant \<open>gate_holds\<close> and what each handler keeps of it.  \<open>Gate_Run\<close>: what \<open>gate_init\<close>
    sets up, reachability by \<open>gate_step\<close>, closing, and where the data path goes wrong.  \<open>Gate_Ctrl\<close>: the text commands.
    \<open>Gate_Spec\<close>: the abstract gate \<open>agate\<close>, its specification \<open>gate_spec\<close> for every kind of message, and that
    \<open>cb\<close> refines it (interpretation \<open>gr\<close>).  \<open>Gate_Service\<close>: what follows for whole runs, from \<open>gate_init\<close> to
    \<open>gate_release\<close>: framing, delivery, safety, memory and sockets.  \<open>Gate_Types\<close>: the C types of the fields, the message
    pool included, kept by every run.
  \<^item> \<open>Watchdog\<close>: \<^verbatim>\<open>Watchdog.cpp\<close> and \<^verbatim>\<open>service_watchdog.cpp\<close>, and what gate and watchdog do together.
  \<^item> \<open>Adlist\<close>: \<^verbatim>\<open>adlist.c\<close>; every operation against a list of values, with allocation failure and the functions
    of the list that copy, free and compare values; the values freed and made by these functions are recorded.  \<open>Adlist_Script\<close>: scripts of calls against a reference list
    (interpretation \<open>als\<close> of \<open>operations\<close>).  \<open>Adlist_Access\<close>: the access macros of \<^verbatim>\<open>adlist.h\<close>
    and the walks over a list they are made for.
  \<^item> \<open>Tailqueue\<close>: \<^verbatim>\<open>tailqueue.h\<close> and \<^verbatim>\<open>main.c\<close>; scripts of macros against scripts on lists (locale \<open>sequence\<close>,
    interpretation \<open>tq\<close>).
  \<^item> \<open>SearchTree\<close>: \<^verbatim>\<open>searchTree.cpp\<close>; search, neighbours and deletion on trees in memory (locale \<open>ordered_nodes\<close>,
    interpretation \<open>st\<close>), and where insertion, \<^verbatim>\<open>minKey\<close>, \<^verbatim>\<open>maxKey\<close> and the walk go wrong.
  \<^item> \<open>Stl_Alloc\<close>: \<^verbatim>\<open>stl_alloc.h\<close>, \<^verbatim>\<open>stl_vector.h\<close>; the chunk allocator as an account of every byte of the pool.
  \<^item> \<open>Dict\<close>: \<^verbatim>\<open>dict.h\<close>, \<^verbatim>\<open>dict.c\<close>.
  \<^item> \<open>Mysql\<close>: \<^verbatim>\<open>MysqlClient.cpp\<close>, \<^verbatim>\<open>test.cpp\<close>; handles opened and closed, rows and columns.
  \<^item> \<open>Loggers\<close>: \<^verbatim>\<open>log.cpp\<close>, \<^verbatim>\<open>service_log.cpp\<close>; \<open>Sockets\<close>: \<^verbatim>\<open>server.cpp\<close>, \<^verbatim>\<open>client.cpp\<close>, \<^verbatim>\<open>test_socket1.cpp\<close>.
  \<^item> \<open>Lua_Host\<close>: \<^verbatim>\<open>module.c\<close>, \<^verbatim>\<open>lua_and_c/main.c\<close> and its script \<^verbatim>\<open>callC.lua\<close>; which values of the Lua stack they read
    and push, against programs without a stack on a semantics of the language (\<open>lua_values\<close>) in which accesses and calls
    may raise errors and change anything.

  \<^bold>\<open>What is proved.\<close>  For the gate: on all legal messages, of any number of connections, it does what its
  specification says (\<open>gate_refines\<close>); every packet of a connection is forwarded (\<open>gate_delivers\<close>), however its
  stream is cut into messages (\<open>gate_framing\<close>); in no reachable state a legal socket message or a client's
  message makes it fault (\<open>gate_no_fault\<close>);
  received data is freed (\<open>gate_reclaims\<close>), sockets are closed (\<open>gate_shutdown\<close>) and every field keeps its C type
  (\<open>gate_types\<close>).  For the watchdog: it reads back the socket of every packet, and gives the gate its handle.  For the data structures: each operation
  refines the operation on the abstract list, queue, map or tree, in memory, and frees what it must, and scripts of
  operations are answered as the reference answers them (\<open>id_table_script\<close>, \<open>adlist_script\<close>, \<open>tailq_script\<close>,
  \<open>databuffer_fifo\<close>).  For the allocator: no byte is lost or given twice.  For the programs on top of libraries: handles, memory and buffers
  are accounted for, and loops end.  Where the code goes wrong the property says when, exactly:
  \<open>negative_header_stuck\<close>, \<open>no_receiver_desync\<close>, \<open>ctrl_connect_failure_fault\<close>, \<open>watchdog_misreads_reports\<close>,
  \<open>hashid_init_bound\<close>, \<open>bst_insert_not_found\<close>, \<open>bst_walk_preorder\<close>, \<open>alloc_first_fault\<close>, \<open>dict_init_no_table\<close>, \<open>mysql_handles\<close>,
  \<open>mysql_row_by_name\<close>, \<open>lerror_logs\<close>, \<open>epoll_server_overrun\<close>, \<open>adlist_dup\<close>, \<open>adlist_index\<close>, \<open>listen_twice_wrong_port\<close>.

  \<^bold>\<open>Loops and fuel.\<close>  Loops over an index or a list are recursive functions with a measure.  Loops over pointers and
  the loop of \<^verbatim>\<open>dispatch_message\<close> carry fuel, and spending it is the fault \<open>Diverges\<close>; the properties exclude that
  fault, so the fuel chosen (the number of nodes in memory, the number of buffered bytes plus one, 24
  doublings of an \<^verbatim>\<open>int\<close> buffer) is enough.  The loop of the epoll server does not end; a run is what it does on a
  list of batches of events.

  \<^bold>\<open>Parameters.\<close>  Code that is not in the repository is an argument: the skynet framework (sockets, sending,
  environment: the record \<open>env\<close>), the allocators, the MySQL client library (\<open>my_env\<close>), the Lua library (\<open>lua\<close>, \<open>lua_reg\<close>) and
  the semantics of Lua, \<^verbatim>\<open>dictExpand\<close>, the
  out-of-memory handlers of the SGI allocator, the kernel's answers to the socket calls (failures of \<^verbatim>\<open>epoll_ctl\<close> included), the callbacks of the
  redis list.

  \<^bold>\<open>Not modelled.\<close>  The main function of \<^verbatim>\<open>shm_test/shm1.cpp\<close> only returns 0.  Functions that are
  declared and defined nowhere (most of \<^verbatim>\<open>dict.h\<close>) are not there to model.  Lua scripts other than \<^verbatim>\<open>callC.lua\<close>, protocol files,
  configurations and the libraries of the skynet tests are not C or not part of the programs.
\<close>

end
